(* ===== verification/Prelude.thy ===== *)
theory Prelude
  imports Main "HOL-Library.Word"
begin

text \<open>
  Shared vocabulary of the development: the machine types of the C sources, kernel error
  codes as a datatype, little-endian byte encodings, and byte buffers with the two accesses
  the sources make to them (a bounded read and a \<^verbatim>\<open>memcpy\<close> into a buffer).  The collections
  \<open>le_simps\<close> and \<open>buf_simps\<close> carry the component proofs.
\<close>

unbundle bit_operations_syntax

section \<open>Machine types and error codes\<close>

type_synonym byte = "8 word"
type_synonym u16 = "16 word"
type_synonym u32 = "32 word"
type_synonym u64 = "64 word"

text \<open>The error numbers the modelled code returns (as \<open>-E...\<close> or through \<^verbatim>\<open>ERR_PTR\<close>).\<close>

datatype errno =
    EINVAL | ENOMEM | EEXIST | ENOSPC | EPROBE_DEFER | ENXIO | ENOENT
  | ETOOSMALL | EFAULT | EIO | ENODEV | EAGAIN | EBUSY | EOPNOTSUPP | ETIMEDOUT

named_theorems le_simps "little-endian encoding and decoding"
named_theorems buf_simps "reads from and writes to byte buffers"

section \<open>Little-endian numbers\<close>

fun nat_to_le :: "nat \<Rightarrow> nat \<Rightarrow> byte list" where
  "nat_to_le 0 v = []"
| "nat_to_le (Suc n) v = of_nat (v mod 256) # nat_to_le n (v div 256)"

fun le_to_nat :: "byte list \<Rightarrow> nat" where
  "le_to_nat [] = 0"
| "le_to_nat (b # bs) = unat b + 256 * le_to_nat bs"

lemma length_nat_to_le [simp, le_simps]: "length (nat_to_le n v) = n"
  by (induction n arbitrary: v) auto

lemma unat_byte_less [simp]: "unat (b :: byte) < 256"
  by (rule order.strict_trans2 [OF unsigned_less]) simp

lemma le_to_nat_less: "le_to_nat bs < 256 ^ length bs"
proof (induction bs)
  case (Cons b bs)
  have "unat b + 256 * le_to_nat bs < 256 + 256 * le_to_nat bs"
    by simp
  also have "\<dots> \<le> 256 * 256 ^ length bs"
    using Cons by (simp flip: mult_Suc_right)
  finally show ?case by simp
qed simp

lemma le_to_nat_nat_to_le [le_simps]: "le_to_nat (nat_to_le n v) = v mod 256 ^ n"
proof (induction n arbitrary: v)
  case (Suc n)
  have "unat (of_nat (v mod 256) :: byte) = v mod 256"
    by (simp add: unat_of_nat)
  with Suc show ?case
    by (simp add: mod_mult2_eq add.commute)
qed simp

lemma le_roundtrip: "v < 256 ^ n \<Longrightarrow> le_to_nat (nat_to_le n v) = v"
  by (simp add: le_to_nat_nat_to_le)

lemma nat_to_le_le_to_nat [le_simps]: "nat_to_le (length bs) (le_to_nat bs) = bs"
proof (induction bs)
  case (Cons b bs)
  have "(unat b + 256 * le_to_nat bs) mod 256 = unat b"
    by simp
  moreover have "(unat b + 256 * le_to_nat bs) div 256 = le_to_nat bs"
    by simp
  ultimately show ?case using Cons by simp
qed simp

lemma le_to_nat_inj: "length bs = length cs \<Longrightarrow> le_to_nat bs = le_to_nat cs \<Longrightarrow> bs = cs"
  by (metis nat_to_le_le_to_nat)

section \<open>Words as natural numbers\<close>

text \<open>Conversions between the widths and arithmetic that does not wrap.\<close>

lemma unat_up [simp]: "unat (ucast (x :: u32) :: u64) = unat x"
  by (simp add: unsigned_ucast_eq take_bit_nat_eq_self_iff order.strict_trans2 [OF unsigned_less])

lemma unat_down: "unat (x :: u64) < 2 ^ 32 \<Longrightarrow> unat (ucast x :: u32) = unat x"
  by (simp add: unsigned_ucast_eq take_bit_nat_eq_self_iff)

lemma unat64_plus: "unat (a :: u64) + unat b < 2 ^ 64 \<Longrightarrow> unat (a + b) = unat a + unat b"
  by (simp add: unat_add_lem [THEN iffD1])

lemma unat64_minus: "unat (b :: u64) \<le> unat a \<Longrightarrow> unat (a - b) = unat a - unat b"
  by (rule unat_sub) (simp add: word_le_nat_alt)

lemma unat32_plus: "unat (a :: u32) + unat b < 2 ^ 32 \<Longrightarrow> unat (a + b) = unat a + unat b"
  by (simp add: unat_add_lem [THEN iffD1])

lemma unat32_minus: "unat (b :: u32) \<le> unat a \<Longrightarrow> unat (a - b) = unat a - unat b"
  by (rule unat_sub) (simp add: word_le_nat_alt)

lemma unat64_min: "unat (min a b :: u64) = min (unat a) (unat b)"
  by (simp add: min_def word_le_nat_alt)

lemma word_eq_unat: "(a = b) = (unat (a :: 'a :: len word) = unat b)"
  by (rule word_unat_eq_iff)

lemmas word_nat = word_le_nat_alt word_less_nat_alt

text \<open>Rounding up to a multiple of eight, on numbers and on words.\<close>

lemma unat_and_not7: "unat (w AND NOT 7 :: 'a :: len word) = 8 * (unat w div 8)"
proof -
  have "w - take_bit 3 w = w AND NOT (take_bit 3 w)"
    by (rule disjunctive_diff) (simp add: bit_take_bit_iff)
  also have "\<dots> = w AND NOT (mask 3)"
    by (rule bit_word_eqI) (auto simp: bit_simps)
  also have "mask 3 = (7 :: 'a word)" by (simp add: mask_eq_exp_minus_1)
  finally have e: "w AND NOT 7 = w - take_bit 3 w" by simp
  have t: "unat (take_bit 3 w) = unat w mod 8"
    by (simp only: unsigned_take_bit_eq) (simp add: take_bit_eq_mod)
  then have "take_bit 3 w \<le> w" by (simp add: word_le_nat_alt)
  then have "unat (w - take_bit 3 w) = unat w - unat w mod 8" using t by (simp add: unat_sub)
  then show ?thesis unfolding e by (simp add: minus_mod_eq_mult_div)
qed

definition pad8 :: "nat \<Rightarrow> nat" where "pad8 n = 8 * ((n + 7) div 8)"

lemma pad8_laws: "n \<le> pad8 n" "pad8 n < n + 8" "8 dvd pad8 n" "8 dvd n \<Longrightarrow> pad8 n = n"
  unfolding pad8_def by presburger+

lemma pad8_add: "8 dvd h \<Longrightarrow> pad8 (h + n) = h + pad8 n"
  unfolding pad8_def by (elim dvdE) (simp add: add.assoc)

lemma pad8_mono: "m \<le> n \<Longrightarrow> pad8 m \<le> pad8 n"
  by (simp add: pad8_def div_le_mono)

section \<open>Byte buffers\<close>

text \<open>
  \<open>buf_get xs i n\<close> is the \<open>n\<close> elements from index \<open>i\<close>; \<open>buf_put xs i ys\<close> is the buffer after a
  \<^verbatim>\<open>memcpy\<close> of \<open>ys\<close> to index \<open>i\<close>.  Both describe accesses that stay inside the buffer.
\<close>

definition buf_get :: "'a list \<Rightarrow> nat \<Rightarrow> nat \<Rightarrow> 'a list" where
  "buf_get xs i n = take n (drop i xs)"

definition buf_put :: "'a list \<Rightarrow> nat \<Rightarrow> 'a list \<Rightarrow> 'a list" where
  "buf_put xs i ys = take i xs @ ys @ drop (i + length ys) xs"

text \<open>A read that reports an access outside the object instead of returning data.\<close>

definition mem_get :: "'a list \<Rightarrow> nat \<Rightarrow> nat \<Rightarrow> 'a list option" where
  "mem_get xs i n = (if i + n \<le> length xs then Some (buf_get xs i n) else None)"

text \<open>The same for a write.\<close>

definition mem_put :: "'a list \<Rightarrow> nat \<Rightarrow> 'a list \<Rightarrow> 'a list option" where
  "mem_put xs i ys = (if i + length ys \<le> length xs then Some (buf_put xs i ys) else None)"

lemma length_buf_get [simp, buf_simps]: "i + n \<le> length xs \<Longrightarrow> length (buf_get xs i n) = n"
  by (simp add: buf_get_def)

lemma length_buf_put [simp, buf_simps]:
  "i + length ys \<le> length xs \<Longrightarrow> length (buf_put xs i ys) = length xs"
  by (simp add: buf_put_def)

lemma buf_get_0 [simp]: "buf_get xs i 0 = []"
  by (simp add: buf_get_def)

lemma buf_put_Nil [simp]: "buf_put xs i [] = xs"
  by (simp add: buf_put_def)

lemma nth_buf_get [buf_simps]: "i + n \<le> length xs \<Longrightarrow> k < n \<Longrightarrow> buf_get xs i n ! k = xs ! (i + k)"
  by (simp add: buf_get_def)

lemma nth_buf_put [buf_simps]:
  "i + length ys \<le> length xs \<Longrightarrow> k < length xs \<Longrightarrow>
   buf_put xs i ys ! k = (if i \<le> k \<and> k < i + length ys then ys ! (k - i) else xs ! k)"
  by (auto simp: buf_put_def nth_append min_def)

lemma buf_get_put_same [simp, buf_simps]:
  "i + length ys \<le> length xs \<Longrightarrow> buf_get (buf_put xs i ys) i (length ys) = ys"
  by (simp add: buf_get_def buf_put_def)

lemma buf_get_put_disjoint [buf_simps]:
  assumes "i + length ys \<le> length xs" "j + n \<le> length xs" "j + n \<le> i \<or> i + length ys \<le> j"
  shows "buf_get (buf_put xs i ys) j n = buf_get xs j n"
  using assms by (intro nth_equalityI) (auto simp: buf_simps)

lemma buf_get_append:
  "i + m + n \<le> length xs \<Longrightarrow> buf_get xs i (m + n) = buf_get xs i m @ buf_get xs (i + m) n"
  by (simp add: buf_get_def take_add add.commute)

lemma mem_get_Some [simp]: "i + n \<le> length xs \<Longrightarrow> mem_get xs i n = Some (buf_get xs i n)"
  by (simp add: mem_get_def)

lemma mem_get_eq_Some: "mem_get xs i n = Some ys \<longleftrightarrow> i + n \<le> length xs \<and> ys = buf_get xs i n"
  by (auto simp: mem_get_def)

lemma mem_get_eq_None: "mem_get xs i n = None \<longleftrightarrow> length xs < i + n"
  by (auto simp: mem_get_def)

lemma mem_put_Some [simp]: "i + length ys \<le> length xs \<Longrightarrow> mem_put xs i ys = Some (buf_put xs i ys)"
  by (simp add: mem_put_def)

lemma mem_put_eq_Some: "mem_put xs i ys = Some zs \<longleftrightarrow> i + length ys \<le> length xs \<and> zs = buf_put xs i ys"
  by (auto simp: mem_put_def)

section \<open>Allocation outcomes\<close>

text \<open>
  The kernel allocator is outside the sources.  A model that allocates takes a tape of outcomes,
  one Boolean per attempt, and returns the rest of it; an exhausted tape succeeds.
\<close>

fun alloc_next :: "bool list \<Rightarrow> bool \<times> bool list" where
  "alloc_next [] = (True, [])"
| "alloc_next (b # bs) = (b, bs)"

end
