(* ===== verification/Ring.thy ===== *)
theory Ring
  imports Prelude
begin

text \<open>
  Circular byte buffers.  Three transports of the repository (the HAB shared-memory pipe, the
  G-Link FIFO in shared memory and the paged IPC log) copy data around the end of a ring with
  two \<^verbatim>\<open>memcpy\<close> calls.  \<open>ring_get\<close> and \<open>ring_put\<close> say what such a pair of copies means, the
  \<open>two_part\<close> lemmas connect them with the copies, and the locale \<open>byte_fifo\<close> states the contract
  of a transport: what a reader gets after a writer has put bytes.
\<close>

section \<open>Circular reads and writes\<close>

definition ring_off :: "nat \<Rightarrow> nat \<Rightarrow> nat \<Rightarrow> nat" where
  "ring_off l b j = nat ((int j - int b) mod int l)"

definition ring_get :: "'a list \<Rightarrow> nat \<Rightarrow> nat \<Rightarrow> 'a list" where
  "ring_get d i n = map (\<lambda>k. d ! ((i + k) mod length d)) [0..<n]"

definition ring_put :: "'a list \<Rightarrow> nat \<Rightarrow> 'a list \<Rightarrow> 'a list" where
  "ring_put d i ys = map (\<lambda>j. let k = ring_off (length d) i j in
     if k < length ys then ys ! k else d ! j) [0..<length d]"

lemma length_ring_get [simp]: "length (ring_get d i n) = n"
  by (simp add: ring_get_def)

lemma length_ring_put [simp]: "length (ring_put d i ys) = length d"
  by (simp add: ring_put_def)

lemma ring_get_0 [simp]: "ring_get d i 0 = []"
  by (simp add: ring_get_def)

lemma nth_ring_get [simp]: "k < n \<Longrightarrow> ring_get d i n ! k = d ! ((i + k) mod length d)"
  by (simp add: ring_get_def)

lemma ring_get_mod [simp]: "ring_get d (i mod length d) n = ring_get d i n"
  by (simp add: ring_get_def mod_simps)

lemma ring_get_add: "ring_get d i (m + n) = ring_get d i m @ ring_get d (i + m) n"
  by (rule nth_equalityI) (auto simp: nth_append add.assoc)

lemma take_ring_get: "m \<le> n \<Longrightarrow> take m (ring_get d i n) = ring_get d i m"
  by (rule nth_equalityI) auto

lemma drop_ring_get: "m \<le> n \<Longrightarrow> drop m (ring_get d i n) = ring_get d (i + m) (n - m)"
  by (rule nth_equalityI) (auto simp: add.assoc)

lemma ring_off_pos: "0 < l \<Longrightarrow> ring_off l b j < l"
  by (simp add: ring_off_def nat_less_iff)

lemma ring_off_hit: "0 < l \<Longrightarrow> t < l \<Longrightarrow> ring_off l b ((b + t) mod l) = t"
  by (simp add: ring_off_def of_nat_mod mod_diff_left_eq)

lemma ring_off_miss:
  assumes "0 < t" "t \<le> l"
  shows "ring_off l (r + t) (r mod l) = (l - t) mod l"
proof -
  have "(int (r mod l) - int (r + t)) mod int l = (int r - int (r + t)) mod int l"
    by (simp only: of_nat_mod mod_diff_left_eq)
  also have "int r - int (r + t) = - int t"
    by simp
  also have "(- int t) mod int l = (int l + (- int t)) mod int l"
    by (simp only: mod_add_self1)
  also have "int l + (- int t) = int (l - t)"
    using assms by simp
  also have "int (l - t) mod int l = int ((l - t) mod l)"
    by (simp only: of_nat_mod)
  finally show ?thesis
    by (simp add: ring_off_def)
qed

lemma nth_ring_put:
  "j < length d \<Longrightarrow> ring_put d i ys ! j =
     (if ring_off (length d) i j < length ys then ys ! ring_off (length d) i j else d ! j)"
  by (simp add: ring_put_def Let_def)

lemma ring_put_mod: "ring_put d (i mod length d) ys = ring_put d i ys"
  by (simp add: ring_put_def ring_off_def of_nat_mod mod_diff_right_eq)

text \<open>A write behind the \<open>n\<close> live bytes of a reader at \<open>r\<close> appends to what the reader sees.\<close>

lemma ring_get_put:
  assumes "0 < length d" "n + length ys \<le> length d"
  shows "ring_get (ring_put d (r + n) ys) r (n + length ys) = ring_get d r n @ ys"
proof (rule nth_equalityI)
  fix k assume "k < length (ring_get (ring_put d (r + n) ys) r (n + length ys))"
  then have k: "k < n + length ys" by simp
  let ?q = "(r + k) mod length d"
  have q: "?q < length d" using assms by simp
  show "ring_get (ring_put d (r + n) ys) r (n + length ys) ! k = (ring_get d r n @ ys) ! k"
  proof (cases "k < n")
    case True
    have "ring_off (length d) (r + n) ?q = ring_off (length d) ((r + k) + (n - k)) ?q"
      using True by simp
    also have "\<dots> = (length d - (n - k)) mod length d"
      using True assms by (intro ring_off_miss) auto
    finally have "\<not> ring_off (length d) (r + n) ?q < length ys"
      using True assms by simp
    with True k q show ?thesis
      by (simp add: nth_ring_put nth_append)
  next
    case False
    then have "ring_off (length d) (r + n) ?q = k - n"
      using k assms ring_off_hit [of "length d" "k - n" "r + n"] by simp
    moreover have "k - n < length ys" using False k by arith
    ultimately show ?thesis
      using False k q by (simp add: nth_ring_put nth_append)
  qed
qed simp

text \<open>What the reader already sees is kept by a write that fits.\<close>

lemma ring_get_put_prefix:
  assumes "0 < length d" "n + length ys \<le> length d"
  shows "ring_get (ring_put d (r + n) ys) r n = ring_get d r n"
  using ring_get_put [OF assms, of r] take_ring_get [of n "n + length ys" "ring_put d (r + n) ys" r]
  by simp

section \<open>The two copies of the sources\<close>

lemma mod_once: "(x :: nat) < l + l \<Longrightarrow> x mod l = (if x < l then x else x - l)"
  by (simp add: le_mod_geq)

lemma ring_get_two_part:
  assumes "i \<le> length d" "n \<le> length d"
  shows "ring_get d i n = buf_get d i (min n (length d - i)) @ buf_get d 0 (n - min n (length d - i))"
  using assms
  by (intro nth_equalityI) (auto simp: nth_append buf_simps min_def mod_once add.commute)

lemma ring_put_two_part:
  assumes "i \<le> length d" "length ys \<le> length d" "0 < length d"
  shows "ring_put d i ys =
    buf_put (buf_put d i (take (min (length ys) (length d - i)) ys)) 0
      (drop (min (length ys) (length d - i)) ys)"
proof (rule nth_equalityI)
  let ?c = "min (length ys) (length d - i)"
  show "length (ring_put d i ys) = length (buf_put (buf_put d i (take ?c ys)) 0 (drop ?c ys))"
    using assms by simp
  fix j assume "j < length (ring_put d i ys)"
  then have j: "j < length d" by simp
  have off: "ring_off (length d) i j = (if i \<le> j then j - i else length d + j - i)"
  proof (cases "i \<le> j")
    case True
    then show ?thesis using j assms ring_off_hit [of "length d" "j - i" i] by simp
  next
    case False
    then have "(i + (length d + j - i)) mod length d = j" using j assms by simp
    moreover have "length d + j - i < length d" using False j assms by simp
    ultimately show ?thesis
      using False assms ring_off_hit [of "length d" "length d + j - i" i] by simp
  qed
  show "ring_put d i ys ! j = buf_put (buf_put d i (take ?c ys)) 0 (drop ?c ys) ! j"
    using assms j by (auto simp: nth_ring_put off buf_simps min_def)
qed

section \<open>The contract of a byte transport\<close>

text \<open>
  A transport has a state, an invariant, the bytes in flight (\<open>contents\<close>), the free space, the
  byte strings it takes as one write (\<open>msg\<close>), a writer operation and a reader operation.  The laws
  speak of a write that fits and of a non-empty read of available bytes; the client lemma gives
  first-in-first-out delivery of whole messages.
\<close>

fun reads :: "(nat \<Rightarrow> 's \<Rightarrow> byte list \<times> 's) \<Rightarrow> nat list \<Rightarrow> 's \<Rightarrow> byte list list \<times> 's" where
  "reads get [] s = ([], s)"
| "reads get (n # ns) s = (let (x, s1) = get n s; (xs, s2) = reads get ns s1 in (x # xs, s2))"

locale byte_fifo =
  fixes invar :: "'s \<Rightarrow> bool"
    and contents :: "'s \<Rightarrow> byte list"
    and space :: "'s \<Rightarrow> nat"
    and msg :: "byte list \<Rightarrow> bool"
    and put :: "byte list \<Rightarrow> 's \<Rightarrow> 's"
    and get :: "nat \<Rightarrow> 's \<Rightarrow> byte list \<times> 's"
  assumes msg_nonempty: "msg ys \<Longrightarrow> ys \<noteq> []"
    and put_contents: "invar s \<Longrightarrow> msg ys \<Longrightarrow> length ys \<le> space s \<Longrightarrow> contents (put ys s) = contents s @ ys"
    and put_invar: "invar s \<Longrightarrow> msg ys \<Longrightarrow> length ys \<le> space s \<Longrightarrow> invar (put ys s)"
    and put_space: "invar s \<Longrightarrow> msg ys \<Longrightarrow> length ys \<le> space s \<Longrightarrow> space (put ys s) = space s - length ys"
    and get_data: "invar s \<Longrightarrow> 0 < n \<Longrightarrow> n \<le> length (contents s) \<Longrightarrow> fst (get n s) = take n (contents s)"
    and get_contents: "invar s \<Longrightarrow> 0 < n \<Longrightarrow> n \<le> length (contents s) \<Longrightarrow> contents (snd (get n s)) = drop n (contents s)"
    and get_invar: "invar s \<Longrightarrow> 0 < n \<Longrightarrow> n \<le> length (contents s) \<Longrightarrow> invar (snd (get n s))"
    and get_space: "invar s \<Longrightarrow> 0 < n \<Longrightarrow> n \<le> length (contents s) \<Longrightarrow> space (snd (get n s)) = space s + n"
begin

text \<open>A list of messages written one after the other.\<close>

lemma fold_put:
  assumes "invar s" "\<forall>m \<in> set ms. msg m" "length (concat ms) \<le> space s"
  shows "invar (fold put ms s) \<and> contents (fold put ms s) = contents s @ concat ms \<and>
     space (fold put ms s) = space s - length (concat ms)"
  using assms
proof (induction ms arbitrary: s)
  case (Cons m ms)
  then have m: "msg m" "length m \<le> space s" by auto
  have "length (concat ms) \<le> space (put m s)"
    using Cons.prems m put_space [OF Cons.prems(1) m] by simp
  then have "invar (fold put ms (put m s)) \<and>
      contents (fold put ms (put m s)) = contents (put m s) @ concat ms \<and>
      space (fold put ms (put m s)) = space (put m s) - length (concat ms)"
    using Cons.IH [OF put_invar [OF Cons.prems(1) m]] Cons.prems(2) by simp
  then show ?case
    using put_contents [OF Cons.prems(1) m] put_space [OF Cons.prems(1) m] by simp
qed simp

text \<open>Reading back messages of known lengths, with later traffic behind them.\<close>

lemma reads_messages:
  assumes "invar s" "contents s = concat ms @ rest" "\<forall>m \<in> set ms. m \<noteq> []"
  shows "fst (reads get (map length ms) s) = ms \<and> contents (snd (reads get (map length ms) s)) = rest \<and>
     invar (snd (reads get (map length ms) s)) \<and>
     space (snd (reads get (map length ms) s)) = space s + length (concat ms)"
  using assms
proof (induction ms arbitrary: s)
  case (Cons m ms)
  then have m: "0 < length m" "length m \<le> length (contents s)" by auto
  obtain x s1 where g: "get (length m) s = (x, s1)" by (cases "get (length m) s")
  have "x = m" "contents s1 = concat ms @ rest" "invar s1" "space s1 = space s + length m"
    using get_data [OF Cons.prems(1) m] get_contents [OF Cons.prems(1) m] get_invar [OF Cons.prems(1) m]
      get_space [OF Cons.prems(1) m] Cons.prems(2) g by auto
  moreover from Cons.IH [OF this(3,2)] Cons.prems(3)
  have "fst (reads get (map length ms) s1) = ms \<and> contents (snd (reads get (map length ms) s1)) = rest \<and>
     invar (snd (reads get (map length ms) s1)) \<and>
     space (snd (reads get (map length ms) s1)) = space s1 + length (concat ms)" by simp
  ultimately show ?case
    by (cases "reads get (map length ms) s1") (simp add: g Let_def)
qed simp

text \<open>Messages put into an empty transport come out unchanged, in order, and leave it empty.\<close>

lemma fifo_delivery:
  assumes "invar s" "contents s = []" "\<forall>m \<in> set ms. msg m" "length (concat ms) \<le> space s"
  shows "fst (reads get (map length ms) (fold put ms s)) = ms \<and>
     contents (snd (reads get (map length ms) (fold put ms s))) = [] \<and>
     space (snd (reads get (map length ms) (fold put ms s))) = space s"
proof -
  from fold_put [OF assms(1,3,4)] assms(2)
  have p: "invar (fold put ms s)" "contents (fold put ms s) = concat ms @ []"
    "space (fold put ms s) = space s - length (concat ms)"
    by auto
  from reads_messages [OF p(1,2)] msg_nonempty assms(3,4) p(3) show ?thesis by auto
qed

end

end
