(* ===== verification/Hab_Pipe.thy ===== *)
theory Hab_Pipe
  imports Ring
begin

text \<open>
  The hypervisor abstraction's shared-memory pipe (\<^verbatim>\<open>drivers/soc/qcom/hab/hab_pipe.c\<close>): a ring of
  \<^verbatim>\<open>buf_size\<close> bytes per direction, free-running 32-bit read and write counters that wrap, and
  private indices of the two endpoints.  The counters are 32-bit words, so their wrap-around is
  the machine's.  An access outside the shared buffer is the result \<open>None\<close>.

  The retry loop of \<^verbatim>\<open>hab_pipe_read\<close> re-reads memory the peer may be writing.  The parameter \<open>view\<close>
  gives the ring's bytes as seen at each copy (\<open>view 0\<close> at the first, \<open>view k\<close> at the \<open>k\<close>-th retry).
\<close>

unbundle bit_operations_syntax

section \<open>Data\<close>

record hab_shared_buf =
  sb_rd_count :: u32
  sb_wr_count :: u32
  sb_size :: u32
  sb_data :: "byte list"

record hab_pipe_endpoint =
  tx_wr_count :: u32
  tx_index :: u32
  rx_index :: u32

text \<open>
  The pipe holds the two endpoints and, from \<^verbatim>\<open>buf_base\<close> on, the two shared buffers.  The legacy
  pointer fields are only ever cleared.
\<close>

record hab_pipe =
  hp_top :: hab_pipe_endpoint
  hp_bottom :: hab_pipe_endpoint
  hp_buf_a :: hab_shared_buf
  hp_buf_b :: hab_shared_buf
  hp_legacy_total_size :: u64

definition hab_pipe_calc_required_bytes :: "u32 \<Rightarrow> u64" where
  "hab_pipe_calc_required_bytes shared_buf_size = 88 + 2 * (12 + ucast shared_buf_size)"

definition ep_zero :: hab_pipe_endpoint where
  "ep_zero = \<lparr>tx_wr_count = 0, tx_index = 0, rx_index = 0\<rparr>"

text \<open>
  \<^verbatim>\<open>memset\<close> of a buffer header and its size field; the ring's bytes are not touched.  \<^verbatim>\<open>top\<close>
  transmits on buffer A and receives on B; \<^verbatim>\<open>bottom\<close> the other way round and initialises both.
  The result names the transmit and the receive buffer the caller gets back.
\<close>

definition sb_init :: "u32 \<Rightarrow> hab_shared_buf \<Rightarrow> hab_shared_buf" where
  "sb_init sz sb = sb\<lparr>sb_rd_count := 0, sb_wr_count := 0, sb_size := sz\<rparr>"

datatype pipe_buf = Buf_A | Buf_B

definition hab_pipe_init :: "hab_pipe option \<Rightarrow> u32 \<Rightarrow> bool \<Rightarrow> (hab_pipe \<times> pipe_buf \<times> pipe_buf) option" where
  "hab_pipe_init p shared_buf_size is_top =
     (case p of None \<Rightarrow> None
      | Some pipe \<Rightarrow>
         if is_top then Some (pipe\<lparr>hp_top := ep_zero\<rparr>, Buf_A, Buf_B)
         else Some (pipe\<lparr>hp_bottom := ep_zero,
                         hp_buf_b := sb_init shared_buf_size (hp_buf_b pipe),
                         hp_buf_a := sb_init shared_buf_size (hp_buf_a pipe),
                         hp_legacy_total_size := 0\<rparr>, Buf_B, Buf_A))"

section \<open>Writing\<close>

text \<open>How much of a transfer of \<open>n\<close> bytes at index \<open>ix\<close> lies before the end of the ring (\<^verbatim>\<open>count1\<close>).\<close>

definition pipe_count1 :: "u32 \<Rightarrow> u32 \<Rightarrow> u32 \<Rightarrow> u32" where
  "pipe_count1 buf_size ix n = (if n \<le> buf_size - ix then n else buf_size - ix)"

text \<open>
  One of the two copies of \<^verbatim>\<open>hab_pipe_write\<close>: nothing when \<open>count\<close> is 0, otherwise \<^verbatim>\<open>memcpy\<close>, advance
  the local counter and the index, and wrap the index at the end of the ring.
\<close>

definition pipe_tx_copy ::
  "u32 \<Rightarrow> byte list \<Rightarrow> u32 \<Rightarrow> byte list \<times> u32 \<times> u32 \<Rightarrow> (byte list \<times> u32 \<times> u32) option" where
  "pipe_tx_copy buf_size src count = (\<lambda>(d, wr, ix).
     if 0 < count then
       (case mem_put d (unat ix) src of
          None \<Rightarrow> None
        | Some d' \<Rightarrow>
            let ix' = ix + count in
            Some (d', wr + count, if buf_size \<le> ix' then 0 else ix'))
     else Some (d, wr, ix))"

definition hab_pipe_write ::
  "hab_pipe_endpoint \<Rightarrow> hab_shared_buf \<Rightarrow> u32 \<Rightarrow> byte list option \<Rightarrow> u32 \<Rightarrow>
   (u32 \<times> hab_pipe_endpoint \<times> hab_shared_buf) option" where
  "hab_pipe_write ep sh_buf buf_size p num_bytes =
     (let ep_tx_index = tx_index ep;
          ep_tx_wr_count = tx_wr_count ep;
          sh_buf_rd_count = sb_rd_count sh_buf
      in if buf_size < ep_tx_wr_count - sh_buf_rd_count then Some (0, ep, sh_buf)
         else let space = buf_size - (ep_tx_wr_count - sh_buf_rd_count) in
         case p of None \<Rightarrow> Some (0, ep, sh_buf)
         | Some src \<Rightarrow>
           if space < num_bytes \<or> num_bytes = 0 then Some (0, ep, sh_buf)
           else if buf_size < ep_tx_index \<or> buf_size < num_bytes then Some (0, ep, sh_buf)
           else
             let count1 = pipe_count1 buf_size ep_tx_index num_bytes;
                 count2 = num_bytes - count1
             in case pipe_tx_copy buf_size (buf_get src 0 (unat count1)) count1
                       (sb_data sh_buf, ep_tx_wr_count, ep_tx_index) of
                  None \<Rightarrow> None
                | Some st1 \<Rightarrow>
                    (case pipe_tx_copy buf_size (buf_get src (unat count1) (unat count2)) count2 st1 of
                       None \<Rightarrow> None
                     | Some (d, wr, ix) \<Rightarrow>
                         Some (num_bytes, ep\<lparr>tx_wr_count := wr, tx_index := ix\<rparr>, sh_buf\<lparr>sb_data := d\<rparr>)))"

definition hab_pipe_write_commit :: "hab_pipe_endpoint \<Rightarrow> hab_shared_buf \<Rightarrow> hab_shared_buf" where
  "hab_pipe_write_commit ep sh_buf = sh_buf\<lparr>sb_wr_count := tx_wr_count ep\<rparr>"

section \<open>Reading\<close>

definition HAB_HEAD_SIGNATURE :: u32 where
  "HAB_HEAD_SIGNATURE = 0xBEE1BEE1"

definition HAB_HEADER_BYTES :: nat where
  "HAB_HEADER_BYTES = 20"

text \<open>The signature field of a packed header: bytes 12 to 15.\<close>

definition head_signature :: "byte list \<Rightarrow> u32" where
  "head_signature h = of_nat (le_to_nat (buf_get h 12 4))"

text \<open>
  The retry loop.  \<open>recopy v\<close> is what the two \<^verbatim>\<open>memcpy\<close> calls of a retry leave in the destination
  for ring contents \<open>v\<close>.  The result is the destination, the new value of the static
  \<^verbatim>\<open>signature_mismatch\<close>, and \<^verbatim>\<open>retry_cnt\<close>.
\<close>

function pipe_retry ::
  "(byte list \<Rightarrow> byte list) \<Rightarrow> (nat \<Rightarrow> byte list) \<Rightarrow> bool \<Rightarrow> nat \<Rightarrow> byte list \<Rightarrow> byte list \<times> bool \<times> nat" where
  "pipe_retry recopy view mismatch retry_cnt head =
     (if head_signature head \<noteq> HAB_HEAD_SIGNATURE then
        (if retry_cnt \<le> 1000 then
           let head' = recopy (view (Suc retry_cnt)) in
           if \<not> mismatch then pipe_retry recopy view mismatch (Suc retry_cnt) head'
           else (head', True, Suc retry_cnt)
         else (head, True, Suc retry_cnt))
      else (head, False, retry_cnt))"
  by pat_completeness auto
termination
  by (relation "measure (\<lambda>(_, _, _, c, _). 1001 - c)") auto

declare pipe_retry.simps [simp del]

record pipe_read_result =
  pr_ret :: u32
  pr_dst :: "byte list"
  pr_ep :: hab_pipe_endpoint
  pr_buf :: hab_shared_buf
  pr_mismatch :: bool

text \<open>
  \<open>dst\<close> is the destination before the call (\<^verbatim>\<open>None\<close> for a null pointer), \<open>mismatch\<close> the static
  variable \<^verbatim>\<open>signature_mismatch\<close>, which all pipes share.
\<close>

definition hab_pipe_read ::
  "hab_pipe_endpoint \<Rightarrow> hab_shared_buf \<Rightarrow> u32 \<Rightarrow> byte list option \<Rightarrow> u32 \<Rightarrow> bool \<Rightarrow> bool \<Rightarrow>
   (nat \<Rightarrow> byte list) \<Rightarrow> pipe_read_result option" where
  "hab_pipe_read ep sh_buf buf_size p rd_size clear mismatch view =
     (let ep_rx_index = rx_index ep;
          avail = sb_wr_count sh_buf - sb_rd_count sh_buf;
          index_saved = ep_rx_index
      in case p of
           None \<Rightarrow> Some \<lparr>pr_ret = 0, pr_dst = [], pr_ep = ep, pr_buf = sh_buf, pr_mismatch = mismatch\<rparr>
         | Some dst \<Rightarrow>
           if avail = 0 \<or> rd_size = 0 \<or> buf_size < ep_rx_index
           then Some \<lparr>pr_ret = 0, pr_dst = dst, pr_ep = ep, pr_buf = sh_buf, pr_mismatch = mismatch\<rparr>
           else
             let to_read = (if avail < rd_size then avail else rd_size);
                 count1 = pipe_count1 buf_size ep_rx_index to_read;
                 count2 = to_read - count1;
                 ix1 = (if 0 < count1 then
                          (let i = ep_rx_index + count1 in if buf_size \<le> i then 0 else i)
                        else ep_rx_index);
                 ix2 = (if 0 < count2 then ix1 + count2 else ix1)
             in case (mem_get (view 0) (unat index_saved) (unat count1),
                      if 0 < count2 then mem_get (view 0) (unat ix1) (unat count2) else Some []) of
                  (Some a, Some b) \<Rightarrow>
                    let dst1 = buf_put dst 0 (a @ b);
                        recopy = (\<lambda>v. buf_put dst 0
                          (buf_get v (unat index_saved) (unat count1) @
                           (if 0 < count2 then buf_get v (unat (ix2 - count2)) (unat count2) else [])));
                        (dst2, mm, retry_cnt) =
                          (if clear \<and> unat rd_size = HAB_HEADER_BYTES
                           then pipe_retry recopy view mismatch 0 dst1 else (dst1, mismatch, 0))
                    in Some
                      \<lparr>pr_ret = (if mm then (if retry_cnt < 1000 then 0xFFFFFFFE else 0xFFFFFFFF) else to_read),
                       pr_dst = dst2,
                       pr_ep = ep\<lparr>rx_index :=
                         (if mm then (let i = index_saved + 1 in if sb_size sh_buf \<le> i then 0 else i)
                          else ix2)\<rparr>,
                       pr_buf = sh_buf\<lparr>sb_rd_count := sb_rd_count sh_buf + (if mm then 1 else count1 + count2)\<rparr>,
                       pr_mismatch = mm\<rparr>
                | _ \<Rightarrow> None)"

definition hab_pipe_rxinfo :: "hab_pipe_endpoint \<Rightarrow> hab_shared_buf \<Rightarrow> u32 \<times> u32 \<times> u32" where
  "hab_pipe_rxinfo ep sh_buf = (sb_rd_count sh_buf, sb_wr_count sh_buf, rx_index ep)"

section \<open>Counters and indices\<close>

lemma unat_plus_fits: "unat (a :: u32) + unat b < 2 ^ 32 \<Longrightarrow> unat (a + b) = unat a + unat b"
  by (simp add: unat_add_lem [THEN iffD1])

lemma unat_minus_le: "(b :: u32) \<le> a \<Longrightarrow> unat (a - b) = unat a - unat b"
  by (rule unat_sub)

lemma word_less_eq_unat: "(a :: u32) \<le> b \<longleftrightarrow> unat a \<le> unat b"
  by (rule word_le_nat_alt)

lemma word_less_unat: "(a :: u32) < b \<longleftrightarrow> unat a < unat b"
  by (rule word_less_nat_alt)

lemmas unat_cmp = word_less_eq_unat word_less_unat

text \<open>The advance of a ring index, as both directions write it.\<close>

lemma ring_index_step:
  assumes "unat ix \<le> unat bs" "unat c \<le> unat bs - unat ix" "0 < unat bs"
  shows "unat (if bs \<le> ix + c then 0 else ix + c :: u32) = (if unat ix + unat c = unat bs then 0 else unat ix + unat c)"
proof -
  have "unat bs < 2 ^ 32" by (rule order.strict_trans2 [OF unsigned_less]) simp
  then have "unat (ix + c) = unat ix + unat c"
    using assms by (intro unat_plus_fits) simp
  then show ?thesis
    using assms by (auto simp: unat_cmp)
qed

lemma unat_pipe_count1:
  assumes "unat ix \<le> unat bs"
  shows "unat (pipe_count1 bs ix n) = min (unat n) (unat bs - unat ix)"
    and "unat (n - pipe_count1 bs ix n) = unat n - min (unat n) (unat bs - unat ix)"
proof -
  have d: "unat (bs - ix) = unat bs - unat ix"
    using assms by (simp add: unat_minus_le unat_cmp)
  show a: "unat (pipe_count1 bs ix n) = min (unat n) (unat bs - unat ix)"
    by (auto simp: pipe_count1_def unat_cmp d)
  then have "pipe_count1 bs ix n \<le> n" by (simp add: unat_cmp)
  then show "unat (n - pipe_count1 bs ix n) = unat n - min (unat n) (unat bs - unat ix)"
    by (simp add: unat_minus_le a)
qed

lemma unat_u32_less: "unat (a :: u32) < 2 ^ 32"
  by (rule order.strict_trans2 [OF unsigned_less]) simp

lemma tx_copies_ring:
  fixes bs ix n wr :: u32
  assumes L: "unat bs = length d"
    and ix: "unat ix < length d" and n: "unat n = length src" "0 < length src" "length src \<le> length d"
  defines "c1 \<equiv> pipe_count1 bs ix n"
  shows "\<exists>ix'. (case pipe_tx_copy bs (buf_get src 0 (unat c1)) c1 (d, wr, ix) of None \<Rightarrow> None
     | Some st \<Rightarrow> pipe_tx_copy bs (buf_get src (unat c1) (unat (n - c1))) (n - c1) st)
     = Some (ring_put d (unat ix) src, wr + n, ix') \<and> unat ix' = (unat ix + length src) mod length d"
proof -
  let ?m = "min (length src) (length d - unat ix)"
  have c1: "unat c1 = ?m" and c2: "unat (n - c1) = length src - ?m"
    using unat_pipe_count1 [of ix bs n] ix L n by (auto simp: c1_def)
  have g1: "buf_get src 0 ?m = take ?m src"
    by (auto simp: buf_get_def)
  have pos: "0 < c1" using c1 n ix by (simp add: unat_cmp)
  define ix1 where "ix1 = (if bs \<le> ix + c1 then 0 else ix + c1)"
  have ix1: "unat ix1 = (if unat ix + ?m = length d then 0 else unat ix + ?m)"
  proof -
    have "unat ix1 = (if unat ix + unat c1 = unat bs then 0 else unat ix + unat c1)"
      unfolding ix1_def using ix L c1 by (intro ring_index_step) auto
    then show ?thesis by (simp only: c1 L)
  qed
  have put: "ring_put d (unat ix) src = buf_put (buf_put d (unat ix) (take ?m src)) 0 (drop ?m src)"
    using ix n by (intro ring_put_two_part) auto
  have first: "pipe_tx_copy bs (buf_get src 0 (unat c1)) c1 (d, wr, ix)
      = Some (buf_put d (unat ix) (take ?m src), wr + c1, ix1)"
    using pos ix by (simp add: pipe_tx_copy_def c1 g1 ix1_def Let_def)
  show ?thesis
  proof (cases "length src \<le> length d - unat ix")
    case True
    then have m: "?m = length src" by simp
    then have "n - c1 = 0" using c2 by (simp add: unat_eq_0)
    then have "c1 = n" by simp
    with True m show ?thesis
      using first ix1 put ix n by (auto simp: pipe_tx_copy_def)
  next
    case False
    then have m: "?m = length d - unat ix" by simp
    then have z: "ix1 = 0" using ix1 ix by (simp add: unat_eq_0)
    have c2': "unat (n - c1) = length src - ?m" "0 < length src - ?m" "length src - ?m < length d"
      using c2 m False ix n by auto
    have p2: "0 < n - c1" using c2' by (simp add: unat_cmp)
    have "pipe_tx_copy bs (buf_get src (unat c1) (unat (n - c1))) (n - c1)
        (buf_put d (unat ix) (take ?m src), wr + c1, ix1)
      = Some (buf_put (buf_put d (unat ix) (take ?m src)) 0 (drop ?m src), wr + n, n - c1)"
      using p2 c2' L ix by (auto simp: pipe_tx_copy_def z c1 c2 buf_get_def Let_def unat_cmp)
    moreover have "unat (n - c1) = (unat ix + length src) mod length d"
      using c2' m ix n False by (simp add: mod_once)
    ultimately show ?thesis
      using first put by simp
  qed
qed

section \<open>One direction of a pipe as a byte queue\<close>

text \<open>
  The state of one direction: the writer's endpoint, the reader's endpoint and the shared buffer.
  \<open>hab_pending\<close> is everything written and not yet read, \<open>hab_visible\<close> the committed part of it.
\<close>

type_synonym hab_chan = "hab_pipe_endpoint \<times> hab_pipe_endpoint \<times> hab_shared_buf"

definition hab_used :: "hab_chan \<Rightarrow> nat" where
  "hab_used = (\<lambda>(w, r, sb). unat (tx_wr_count w - sb_rd_count sb))"

definition hab_avail :: "hab_chan \<Rightarrow> nat" where
  "hab_avail = (\<lambda>(w, r, sb). unat (sb_wr_count sb - sb_rd_count sb))"

definition hab_inv :: "hab_chan \<Rightarrow> bool" where
  "hab_inv c = (case c of (w, r, sb) \<Rightarrow>
     0 < length (sb_data sb) \<and> unat (sb_size sb) = length (sb_data sb) \<and>
     unat (tx_index w) < length (sb_data sb) \<and> unat (rx_index r) < length (sb_data sb) \<and>
     hab_used c \<le> length (sb_data sb) \<and> hab_avail c \<le> hab_used c \<and>
     unat (tx_index w) = (unat (rx_index r) + hab_used c) mod length (sb_data sb))"

definition hab_pending :: "hab_chan \<Rightarrow> byte list" where
  "hab_pending c = (case c of (w, r, sb) \<Rightarrow> ring_get (sb_data sb) (unat (rx_index r)) (hab_used c))"

definition hab_visible :: "hab_chan \<Rightarrow> byte list" where
  "hab_visible c = (case c of (w, r, sb) \<Rightarrow> ring_get (sb_data sb) (unat (rx_index r)) (hab_avail c))"

definition hab_space :: "hab_chan \<Rightarrow> nat" where
  "hab_space c = (case c of (w, r, sb) \<Rightarrow> length (sb_data sb) - hab_used c)"

lemma hab_pipe_write_ok:
  assumes inv: "hab_inv (w, r, sb)" and n: "unat n = length src" "0 < length src" "length src \<le> hab_space (w, r, sb)"
  shows "\<exists>w' sb'. hab_pipe_write w sb (sb_size sb) (Some src) n = Some (n, w', sb') \<and>
     hab_inv (w', r, sb') \<and> hab_pending (w', r, sb') = hab_pending (w, r, sb) @ src \<and>
     hab_visible (w', r, sb') = hab_visible (w, r, sb) \<and>
     hab_space (w', r, sb') = hab_space (w, r, sb) - length src \<and>
     sb' = sb\<lparr>sb_data := sb_data sb'\<rparr> \<and> rx_index w' = rx_index w \<and> tx_wr_count w' = tx_wr_count w + n"
proof -
  let ?d = "sb_data sb" and ?u = "hab_used (w, r, sb)"
  have L: "unat (sb_size sb) = length ?d" "0 < length ?d" "unat (tx_index w) < length ?d"
    "?u \<le> length ?d" "hab_avail (w, r, sb) \<le> ?u"
    "unat (tx_index w) = (unat (rx_index r) + ?u) mod length ?d" "unat (rx_index r) < length ?d"
    using inv by (auto simp: hab_inv_def)
  have u: "unat (tx_wr_count w - sb_rd_count sb) = ?u" by (simp add: hab_used_def)
  have fits: "?u + length src \<le> length ?d" using n L by (simp add: hab_space_def)
  have sp: "unat (sb_size sb - (tx_wr_count w - sb_rd_count sb)) = length ?d - ?u"
    using L u by (simp add: unat_minus_le unat_cmp)
  obtain ix' where copies: "(case pipe_tx_copy (sb_size sb) (buf_get src 0 (unat (pipe_count1 (sb_size sb) (tx_index w) n)))
        (pipe_count1 (sb_size sb) (tx_index w) n) (?d, tx_wr_count w, tx_index w) of None \<Rightarrow> None
     | Some st \<Rightarrow> pipe_tx_copy (sb_size sb) (buf_get src (unat (pipe_count1 (sb_size sb) (tx_index w) n))
         (unat (n - pipe_count1 (sb_size sb) (tx_index w) n))) (n - pipe_count1 (sb_size sb) (tx_index w) n) st)
     = Some (ring_put ?d (unat (tx_index w)) src, tx_wr_count w + n, ix')"
    and ix': "unat ix' = (unat (tx_index w) + length src) mod length ?d"
    using tx_copies_ring [of "sb_size sb" ?d "tx_index w" n src "tx_wr_count w"] L n fits by auto
  define w' where "w' = w\<lparr>tx_wr_count := tx_wr_count w + n, tx_index := ix'\<rparr>"
  define sb' where "sb' = sb\<lparr>sb_data := ring_put ?d (unat (tx_index w)) src\<rparr>"
  have w: "hab_pipe_write w sb (sb_size sb) (Some src) n = Some (n, w', sb')"
    using copies n L(1-5) fits sp u
    by (auto simp: hab_pipe_write_def Let_def unat_cmp w'_def sb'_def unat_eq_0 [symmetric] split: option.splits)
  have used: "hab_used (w', r, sb') = ?u + length src"
  proof -
    have eq: "tx_wr_count w + n - sb_rd_count sb = (tx_wr_count w - sb_rd_count sb) + n" by simp
    have "unat (tx_wr_count w + n - sb_rd_count sb) = ?u + length src"
      unfolding eq using u n fits L unat_u32_less [of "sb_size sb"] by (subst unat_plus_fits) auto
    then show ?thesis by (simp add: hab_used_def w'_def sb'_def)
  qed
  have avail: "hab_avail (w', r, sb') = hab_avail (w, r, sb)"
    by (simp add: hab_avail_def sb'_def)
  have put: "sb_data sb' = ring_put ?d (unat (rx_index r) + ?u) src"
    using L(6) ring_put_mod [of ?d "unat (rx_index r) + ?u" src] by (simp add: sb'_def)
  have dd: "length (sb_data sb') = length ?d" "sb_size sb' = sb_size sb" "tx_index w' = ix'"
    by (simp_all add: w'_def sb'_def)
  have "hab_inv (w', r, sb')"
    using L used avail fits ix'
    by (simp add: hab_inv_def dd mod_simps add.assoc del: length_greater_0_conv)
  moreover have "hab_pending (w', r, sb') = hab_pending (w, r, sb) @ src"
    using ring_get_put [of ?d ?u src "unat (rx_index r)"] L(2) fits
    by (simp add: hab_pending_def used put)
  moreover have "hab_visible (w', r, sb') = hab_visible (w, r, sb)"
  proof -
    have "take (hab_avail (w, r, sb)) (ring_get (ring_put ?d (unat (rx_index r) + ?u) src) (unat (rx_index r)) ?u)
        = take (hab_avail (w, r, sb)) (ring_get ?d (unat (rx_index r)) ?u)"
      using ring_get_put_prefix [of ?d ?u src "unat (rx_index r)"] L fits by simp
    then show ?thesis
      using L(5) by (simp add: hab_visible_def avail put take_ring_get)
  qed
  moreover have "hab_space (w', r, sb') = hab_space (w, r, sb) - length src"
    by (simp add: hab_space_def used dd)
  ultimately show ?thesis
    using w by (auto simp: w'_def sb'_def)
qed

lemma pipe_read_index:
  fixes bs ix n :: u32
  assumes L: "unat bs = length d" and ix: "unat ix < length d" and n: "0 < unat n" "unat n \<le> length d"
  defines "c1 \<equiv> pipe_count1 bs ix n"
  defines "ix1 \<equiv> (if 0 < c1 then (if bs \<le> ix + c1 then 0 else ix + c1) else ix)"
  defines "ix2 \<equiv> (if 0 < n - c1 then ix1 + (n - c1) else ix1)"
  shows "unat ix2 = (unat ix + unat n) mod length d"
    and "mem_get d (unat ix) (unat c1) = Some (buf_get d (unat ix) (min (unat n) (length d - unat ix)))"
    and "(if 0 < n - c1 then mem_get d (unat ix1) (unat (n - c1)) else Some [])
         = Some (buf_get d 0 (unat n - min (unat n) (length d - unat ix)))"
    and "c1 + (n - c1) = n"
proof -
  let ?m = "min (unat n) (length d - unat ix)"
  have c1: "unat c1 = ?m" and c2: "unat (n - c1) = unat n - ?m"
    using unat_pipe_count1 [of ix bs n] ix L by (auto simp: c1_def)
  have pos: "0 < c1" using c1 n ix by (simp add: unat_cmp)
  have ix1: "unat ix1 = (if unat ix + ?m = length d then 0 else unat ix + ?m)"
  proof -
    have "unat ix1 = (if unat ix + unat c1 = unat bs then 0 else unat ix + unat c1)"
      unfolding ix1_def if_P [OF pos] using ix L c1 by (intro ring_index_step) auto
    then show ?thesis by (simp only: c1 L)
  qed
  show "mem_get d (unat ix) (unat c1) = Some (buf_get d (unat ix) ?m)"
    using ix by (simp add: c1)
  show "c1 + (n - c1) = n" by simp
  have "unat ix2 = (unat ix + unat n) mod length d \<and>
    (if 0 < n - c1 then mem_get d (unat ix1) (unat (n - c1)) else Some []) = Some (buf_get d 0 (unat n - ?m))"
  proof (cases "unat n \<le> length d - unat ix")
    case True
    then have "n - c1 = 0" using c2 by (simp add: unat_eq_0)
    then show ?thesis using True ix1 ix n by (auto simp: ix2_def mod_once)
  next
    case False
    then have z: "ix1 = 0" using ix1 ix by (simp add: unat_eq_0)
    have "0 < n - c1" using c2 False by (simp add: unat_cmp)
    then show ?thesis using False z c2 ix n by (auto simp: ix2_def mod_once add.commute)
  qed
  then show "unat ix2 = (unat ix + unat n) mod length d"
    "(if 0 < n - c1 then mem_get d (unat ix1) (unat (n - c1)) else Some []) = Some (buf_get d 0 (unat n - ?m))"
    by blast+
qed

lemma hab_pipe_read_eq:
  assumes inv: "hab_inv (w, r, sb)" and n: "0 < unat n" "unat n \<le> hab_avail (w, r, sb)"
    and view: "view 0 = sb_data sb"
  shows "\<exists>ix. unat ix = (unat (rx_index r) + unat n) mod length (sb_data sb) \<and>
     hab_pipe_read r sb (sb_size sb) (Some dst) n False mm view = Some
       \<lparr>pr_ret = (if mm then 0xFFFFFFFE else n), pr_dst = buf_put dst 0 (take (unat n) (hab_visible (w, r, sb))),
        pr_ep = r\<lparr>rx_index := (if mm then (if sb_size sb \<le> rx_index r + 1 then 0 else rx_index r + 1) else ix)\<rparr>,
        pr_buf = sb\<lparr>sb_rd_count := sb_rd_count sb + (if mm then 1 else n)\<rparr>, pr_mismatch = mm\<rparr>"
proof -
  let ?d = "sb_data sb"
  have L: "unat (sb_size sb) = length ?d" "unat (rx_index r) < length ?d"
    "hab_used (w, r, sb) \<le> length ?d" "hab_avail (w, r, sb) \<le> hab_used (w, r, sb)"
    using inv by (auto simp: hab_inv_def)
  have a: "unat (sb_wr_count sb - sb_rd_count sb) = hab_avail (w, r, sb)" by (simp add: hab_avail_def)
  define c1 where "c1 = pipe_count1 (sb_size sb) (rx_index r) n"
  define ix1 where "ix1 = (if 0 < c1 then (if sb_size sb \<le> rx_index r + c1 then 0 else rx_index r + c1) else rx_index r)"
  define ix2 where "ix2 = (if 0 < n - c1 then ix1 + (n - c1) else ix1)"
  have nd: "unat n \<le> length ?d" using n L by simp
  note idx = pipe_read_index [OF L(1,2) n(1) nd, folded c1_def, folded ix1_def, folded ix2_def]
  have two: "buf_get ?d (unat (rx_index r)) (min (unat n) (length ?d - unat (rx_index r))) @
      buf_get ?d 0 (unat n - min (unat n) (length ?d - unat (rx_index r))) = take (unat n) (hab_visible (w, r, sb))"
    using ring_get_two_part [of "unat (rx_index r)" ?d "unat n"] L nd n
    by (simp add: hab_visible_def take_ring_get)
  have g: "\<not> (sb_wr_count sb - sb_rd_count sb = 0 \<or> n = 0 \<or> sb_size sb < rx_index r)"
    using n a L by (auto simp: unat_cmp unat_eq_0 [symmetric])
  have t: "(if sb_wr_count sb - sb_rd_count sb < n then sb_wr_count sb - sb_rd_count sb else n) = n"
    using n a by (simp add: unat_cmp)
  have "hab_pipe_read r sb (sb_size sb) (Some dst) n False mm view = Some
       \<lparr>pr_ret = (if mm then 0xFFFFFFFE else n), pr_dst = buf_put dst 0 (take (unat n) (hab_visible (w, r, sb))),
        pr_ep = r\<lparr>rx_index := (if mm then (if sb_size sb \<le> rx_index r + 1 then 0 else rx_index r + 1) else ix2)\<rparr>,
        pr_buf = sb\<lparr>sb_rd_count := sb_rd_count sb + (if mm then 1 else n)\<rparr>, pr_mismatch = mm\<rparr>"
    unfolding hab_pipe_read_def Let_def option.case if_not_P [OF g] t view
    unfolding c1_def [symmetric] ix1_def [symmetric] ix2_def [symmetric] idx(2-4)
    by (simp add: two)
  with idx(1) show ?thesis by blast
qed

lemma hab_pipe_read_ok:
  assumes inv: "hab_inv (w, r, sb)" and n: "0 < unat n" "unat n \<le> hab_avail (w, r, sb)"
    and view: "view 0 = sb_data sb"
  shows "\<exists>r' sb'. hab_pipe_read r sb (sb_size sb) (Some dst) n False False view =
       Some \<lparr>pr_ret = n, pr_dst = buf_put dst 0 (take (unat n) (hab_visible (w, r, sb))),
             pr_ep = r', pr_buf = sb', pr_mismatch = False\<rparr> \<and>
     hab_inv (w, r', sb') \<and> hab_visible (w, r', sb') = drop (unat n) (hab_visible (w, r, sb)) \<and>
     hab_pending (w, r', sb') = drop (unat n) (hab_pending (w, r, sb)) \<and>
     hab_space (w, r', sb') = hab_space (w, r, sb) + unat n \<and>
     sb_wr_count sb' = sb_wr_count sb \<and> sb_size sb' = sb_size sb \<and> sb_data sb' = sb_data sb"
proof -
  let ?d = "sb_data sb" and ?u = "hab_used (w, r, sb)" and ?a = "hab_avail (w, r, sb)"
  have L: "unat (sb_size sb) = length ?d" "0 < length ?d" "unat (rx_index r) < length ?d"
    "?u \<le> length ?d" "?a \<le> ?u" "unat (tx_index w) < length ?d"
    "unat (tx_index w) = (unat (rx_index r) + ?u) mod length ?d"
    using inv by (auto simp: hab_inv_def)
  have a: "unat (sb_wr_count sb - sb_rd_count sb) = ?a" by (simp add: hab_avail_def)
  have u: "unat (tx_wr_count w - sb_rd_count sb) = ?u" by (simp add: hab_used_def)
  define sb' where "sb' = sb\<lparr>sb_rd_count := sb_rd_count sb + n\<rparr>"
  obtain ix where ix: "unat ix = (unat (rx_index r) + unat n) mod length ?d"
    and read: "hab_pipe_read r sb (sb_size sb) (Some dst) n False False view =
       Some \<lparr>pr_ret = n, pr_dst = buf_put dst 0 (take (unat n) (hab_visible (w, r, sb))),
             pr_ep = r\<lparr>rx_index := ix\<rparr>, pr_buf = sb', pr_mismatch = False\<rparr>"
    using hab_pipe_read_eq [where view = view and dst = dst and mm = False, OF assms]
    by (auto simp: sb'_def)
  define r' where "r' = r\<lparr>rx_index := ix\<rparr>"
  have used: "hab_used (w, r', sb') = ?u - unat n"
    using u n L by (simp add: hab_used_def sb'_def diff_diff_eq [symmetric] unat_minus_le unat_cmp)
  have avail: "hab_avail (w, r', sb') = ?a - unat n"
    using a n by (simp add: hab_avail_def sb'_def diff_diff_eq [symmetric] unat_minus_le unat_cmp)
  have rx: "unat (rx_index r') = (unat (rx_index r) + unat n) mod length ?d"
    using ix by (simp add: r'_def)
  have dd: "sb_data sb' = ?d" "sb_size sb' = sb_size sb" by (simp_all add: sb'_def)
  have "(unat (rx_index r') + (?u - unat n)) mod length ?d = (unat (rx_index r) + unat n + (?u - unat n)) mod length ?d"
    unfolding rx by (rule mod_add_left_eq)
  also have "unat (rx_index r) + unat n + (?u - unat n) = unat (rx_index r) + ?u"
    using n L by simp
  finally have "hab_inv (w, r', sb')"
    using L used avail n rx by (simp add: hab_inv_def dd) linarith
  moreover have "hab_visible (w, r', sb') = drop (unat n) (hab_visible (w, r, sb))"
    using n by (simp add: hab_visible_def avail rx dd drop_ring_get)
  moreover have "hab_pending (w, r', sb') = drop (unat n) (hab_pending (w, r, sb))"
    using n L by (simp add: hab_pending_def used rx dd drop_ring_get)
  moreover have "hab_space (w, r', sb') = hab_space (w, r, sb) + unat n"
    using n L by (simp add: hab_space_def used dd)
  moreover have "sb_wr_count sb' = sb_wr_count sb" by (simp add: sb'_def)
  moreover note dd
  ultimately show ?thesis using read [folded r'_def] by blast
qed

text \<open>A header read whose signature is right at the first copy is an ordinary read, and clears the flag.\<close>

lemma hab_pipe_read_head:
  assumes "hab_pipe_read r sb bs (Some dst) n False False view = Some res"
    and "unat n = HAB_HEADER_BYTES" "0 < sb_wr_count sb - sb_rd_count sb" "rx_index r \<le> bs"
    and "head_signature (pr_dst res) = HAB_HEAD_SIGNATURE"
  shows "hab_pipe_read r sb bs (Some dst) n True mm view = Some res"
proof -
  have g: "\<not> (sb_wr_count sb - sb_rd_count sb = 0 \<or> n = 0 \<or> bs < rx_index r)"
    using assms(2-4) by (auto simp: HAB_HEADER_BYTES_def)
  have retry: "head_signature d = HAB_HEAD_SIGNATURE \<Longrightarrow> pipe_retry rc view mm 0 d = (d, False, 0)" for rc d
    by (simp add: pipe_retry.simps)
  show ?thesis
    using assms(1,2,5) retry unfolding hab_pipe_read_def Let_def option.case if_not_P [OF g]
    by (simp split: option.split_asm split del: if_split) (clarsimp split del: if_split)
qed

text \<open>A header whose signature never becomes right: all retries are used up, then the read moves on by one byte.\<close>

lemma pipe_retry_stuck:
  assumes "head_signature head \<noteq> HAB_HEAD_SIGNATURE" "recopy v = head" "c \<le> 1001"
  shows "pipe_retry recopy (\<lambda>_. v) False c head = (head, True, 1002)"
  using assms(3)
proof (induction "1001 - c" arbitrary: c)
  case 0
  then have "c = 1001" by simp
  then show ?case using assms(1) by (simp add: pipe_retry.simps [of _ _ _ 1001])
next
  case (Suc x)
  then show ?case using assms(1,2) Suc.hyps(1) [of "Suc c"]
    by (simp add: pipe_retry.simps [of _ _ _ c] Let_def)
qed

lemma hab_pipe_read_bad_head:
  assumes "hab_pipe_read r sb bs (Some dst) n False True (\<lambda>_. v) = Some res"
    and "unat n = HAB_HEADER_BYTES" "0 < sb_wr_count sb - sb_rd_count sb" "rx_index r \<le> bs"
    and "head_signature (pr_dst res) \<noteq> HAB_HEAD_SIGNATURE"
  shows "hab_pipe_read r sb bs (Some dst) n True False (\<lambda>_. v) = Some (res\<lparr>pr_ret := 0xFFFFFFFF\<rparr>)"
proof -
  have g: "\<not> (sb_wr_count sb - sb_rd_count sb = 0 \<or> n = 0 \<or> bs < rx_index r)"
    using assms(2-4) by (auto simp: HAB_HEADER_BYTES_def)
  show ?thesis
    using assms(1,2,5) unfolding hab_pipe_read_def Let_def option.case if_not_P [OF g]
    by (auto simp: pipe_retry_stuck mem_get_eq_Some split: option.split_asm if_split_asm)
qed

section \<open>The pipe implements the transport contract\<close>

text \<open>
  A write followed by its commit, and a payload read, as operations on one direction.  Between
  two calls everything written is committed.
\<close>

definition hab_synced :: "hab_chan \<Rightarrow> bool" where
  "hab_synced c = (case c of (w, r, sb) \<Rightarrow> hab_inv c \<and> sb_wr_count sb = tx_wr_count w)"

definition hab_put :: "byte list \<Rightarrow> hab_chan \<Rightarrow> hab_chan" where
  "hab_put ys c = (case c of (w, r, sb) \<Rightarrow>
     (case hab_pipe_write w sb (sb_size sb) (Some ys) (of_nat (length ys)) of
        Some (_, w', sb') \<Rightarrow> (w', r, hab_pipe_write_commit w' sb')
      | None \<Rightarrow> c))"

definition hab_get :: "nat \<Rightarrow> hab_chan \<Rightarrow> byte list \<times> hab_chan" where
  "hab_get n c = (case c of (w, r, sb) \<Rightarrow>
     (case hab_pipe_read r sb (sb_size sb) (Some (replicate n 0)) (of_nat n) False False (\<lambda>_. sb_data sb) of
        Some res \<Rightarrow> (pr_dst res, (w, pr_ep res, pr_buf res))
      | None \<Rightarrow> ([], c)))"

lemma hab_synced_avail: "hab_synced c \<Longrightarrow> hab_avail c = hab_used c"
  by (auto simp: hab_synced_def hab_avail_def hab_used_def split: prod.splits)

lemma hab_synced_visible: "hab_synced c \<Longrightarrow> hab_visible c = hab_pending c"
  by (cases c) (auto simp: hab_visible_def hab_pending_def hab_synced_avail)

lemma hab_commit:
  assumes "hab_inv (w, r, sb)"
  shows "hab_synced (w, r, hab_pipe_write_commit w sb)"
    and "hab_pending (w, r, hab_pipe_write_commit w sb) = hab_pending (w, r, sb)"
    and "hab_space (w, r, hab_pipe_write_commit w sb) = hab_space (w, r, sb)"
  using assms
  by (auto simp: hab_synced_def hab_inv_def hab_pipe_write_commit_def hab_used_def hab_avail_def
      hab_pending_def hab_space_def)

lemma unat_of_nat_fits: "k \<le> unat (x :: u32) \<Longrightarrow> unat (of_nat k :: u32) = k"
  using unat_u32_less [of x] by (simp add: unat_of_nat)

lemma hab_put_laws:
  assumes "hab_synced c" "ys \<noteq> []" "length ys \<le> hab_space c"
  shows "hab_visible (hab_put ys c) = hab_visible c @ ys" and "hab_synced (hab_put ys c)"
    and "hab_space (hab_put ys c) = hab_space c - length ys"
proof -
  obtain w r sb where c: "c = (w, r, sb)" by (cases c)
  have inv: "hab_inv (w, r, sb)" using assms(1) by (simp add: hab_synced_def c)
  have "length ys \<le> unat (sb_size sb)"
    using assms(3) inv by (simp add: hab_space_def hab_inv_def c)
  then have n: "unat (of_nat (length ys) :: u32) = length ys" by (rule unat_of_nat_fits)
  obtain w' sb' where wr: "hab_pipe_write w sb (sb_size sb) (Some ys) (of_nat (length ys)) = Some (of_nat (length ys), w', sb')"
    and inv': "hab_inv (w', r, sb')" and pend: "hab_pending (w', r, sb') = hab_pending (w, r, sb) @ ys"
    and sp: "hab_space (w', r, sb') = hab_space (w, r, sb) - length ys"
    using hab_pipe_write_ok [OF inv n] assms(2,3) by (auto simp: c)
  have put: "hab_put ys (w, r, sb) = (w', r, hab_pipe_write_commit w' sb')" by (simp add: hab_put_def wr)
  show "hab_synced (hab_put ys c)" and "hab_space (hab_put ys c) = hab_space c - length ys"
    using hab_commit [OF inv'] sp by (simp_all add: put c)
  show "hab_visible (hab_put ys c) = hab_visible c @ ys"
    using hab_commit [OF inv'] pend hab_synced_visible [OF assms(1)]
    by (simp add: put hab_synced_visible c)
qed

lemma hab_get_laws:
  assumes "hab_synced c" "0 < n" "n \<le> length (hab_visible c)"
  shows "fst (hab_get n c) = take n (hab_visible c)" and "hab_visible (snd (hab_get n c)) = drop n (hab_visible c)"
    and "hab_synced (snd (hab_get n c))" and "hab_space (snd (hab_get n c)) = hab_space c + n"
proof -
  obtain w r sb where c: "c = (w, r, sb)" by (cases c)
  have inv: "hab_inv (w, r, sb)" using assms(1) by (simp add: hab_synced_def c)
  have av: "n \<le> hab_avail (w, r, sb)" using assms(3) by (simp add: hab_visible_def c)
  then have "n \<le> unat (sb_size sb)" using inv by (simp add: hab_inv_def)
  then have n: "unat (of_nat n :: u32) = n" by (rule unat_of_nat_fits)
  obtain r' sb' where rd: "hab_pipe_read r sb (sb_size sb) (Some (replicate n 0)) (of_nat n) False False (\<lambda>_. sb_data sb) =
       Some \<lparr>pr_ret = of_nat n, pr_dst = buf_put (replicate n 0) 0 (take n (hab_visible (w, r, sb))),
             pr_ep = r', pr_buf = sb', pr_mismatch = False\<rparr>"
    and res: "hab_inv (w, r', sb')" "hab_visible (w, r', sb') = drop n (hab_visible (w, r, sb))"
      "hab_space (w, r', sb') = hab_space (w, r, sb) + n" "sb_wr_count sb' = sb_wr_count sb"
    using hab_pipe_read_ok [OF inv, of "of_nat n" "\<lambda>_. sb_data sb" "replicate n 0"] assms(2) av n by auto
  have "length (take n (hab_visible (w, r, sb))) = n" using assms(3) by (simp add: c)
  then have "buf_put (replicate n 0) 0 (take n (hab_visible (w, r, sb))) = take n (hab_visible (w, r, sb))"
    by (simp add: buf_put_def)
  then show "fst (hab_get n c) = take n (hab_visible c)" by (simp add: hab_get_def c rd)
  show "hab_visible (snd (hab_get n c)) = drop n (hab_visible c)" "hab_synced (snd (hab_get n c))"
    "hab_space (snd (hab_get n c)) = hab_space c + n"
    using res assms(1) by (simp_all add: hab_get_def c rd hab_synced_def)
qed

interpretation hab: byte_fifo hab_synced hab_visible hab_space "\<lambda>ys. ys \<noteq> []" hab_put hab_get
  by unfold_locales (simp_all add: hab_put_laws hab_get_laws)

section \<open>Properties\<close>

text \<open>
  C9: on a consistent channel, \<^verbatim>\<open>hab_pipe_write\<close> either accepts the whole message, appending exactly
  its bytes to what the reader will see once committed, or (when it is empty or larger than the
  free space) returns 0 and changes nothing.  It never accesses memory outside the ring.
\<close>

theorem hab_pipe_write_refines:
  assumes "hab_inv (w, r, sb)" "unat n = length src"
  shows "if 0 < length src \<and> length src \<le> hab_space (w, r, sb)
    then \<exists>w' sb'. hab_pipe_write w sb (sb_size sb) (Some src) n = Some (n, w', sb') \<and>
       hab_inv (w', r, sb') \<and> hab_pending (w', r, sb') = hab_pending (w, r, sb) @ src \<and>
       hab_visible (w', r, sb') = hab_visible (w, r, sb)
    else hab_pipe_write w sb (sb_size sb) (Some src) n = Some (0, w, sb)"
proof (cases "0 < length src \<and> length src \<le> hab_space (w, r, sb)")
  case True
  then show ?thesis using hab_pipe_write_ok [of w r sb n src] assms by auto
next
  case False
  have "unat (sb_size sb - (tx_wr_count w - sb_rd_count sb)) = hab_space (w, r, sb)"
    using assms(1) by (simp add: hab_inv_def hab_used_def hab_space_def unat_minus_le unat_cmp)
  with False show ?thesis
    using assms(2) by (auto simp: hab_pipe_write_def Let_def unat_cmp unat_eq_0)
qed

theorem hab_pipe_write_refines_witness:
  "hab_inv (ep_zero, ep_zero, \<lparr>sb_rd_count = 0, sb_wr_count = 0, sb_size = 4, sb_data = [0, 0, 0, 0]\<rparr>) \<and>
   (\<exists>w' sb'. hab_pipe_write ep_zero \<lparr>sb_rd_count = 0, sb_wr_count = 0, sb_size = 4, sb_data = [0, 0, 0, 0]\<rparr> 4
       (Some [7, 8]) 2 = Some (2, w', sb') \<and> hab_pending (w', ep_zero, sb') = [7, 8])"
proof -
  let ?sb = "\<lparr>sb_rd_count = 0, sb_wr_count = 0, sb_size = 4, sb_data = [0, 0, 0, 0]\<rparr> :: hab_shared_buf"
  have inv: "hab_inv (ep_zero, ep_zero, ?sb)"
    by (simp add: hab_inv_def hab_used_def hab_avail_def ep_zero_def)
  have p: "hab_pending (ep_zero, ep_zero, ?sb) = []" "hab_space (ep_zero, ep_zero, ?sb) = 4"
    by (simp_all add: hab_pending_def hab_space_def hab_used_def ep_zero_def)
  show ?thesis
    using inv p hab_pipe_write_refines [OF inv, of 2 "[7, 8]"] by auto
qed


text \<open>A small channel with three committed bytes, used to exercise the properties.\<close>

definition hab_demo_buf :: hab_shared_buf where
  "hab_demo_buf = \<lparr>sb_rd_count = 0xFFFFFFFF, sb_wr_count = 2, sb_size = 4, sb_data = [8, 9, 0, 7]\<rparr>"

definition hab_demo_ep :: hab_pipe_endpoint where
  "hab_demo_ep = \<lparr>tx_wr_count = 2, tx_index = 2, rx_index = 3\<rparr>"

lemma hab_demo:
  "hab_inv (hab_demo_ep, hab_demo_ep, hab_demo_buf)" "hab_avail (hab_demo_ep, hab_demo_ep, hab_demo_buf) = 3"
  "hab_visible (hab_demo_ep, hab_demo_ep, hab_demo_buf) = [7, 8, 9]"
proof -
  have "[0..<3] = [0, 1, 2 :: nat]" by (simp add: upt_rec)
  then show "hab_visible (hab_demo_ep, hab_demo_ep, hab_demo_buf) = [7, 8, 9]"
    by (simp add: hab_visible_def hab_avail_def hab_demo_ep_def hab_demo_buf_def ring_get_def)
qed (simp_all add: hab_inv_def hab_used_def hab_avail_def hab_demo_ep_def hab_demo_buf_def)


text \<open>
  C25: committed messages that fit into an empty pipe come out of it whole, in order and unchanged,
  however often the ring wraps, and the space they took is free again.
\<close>

theorem hab_pipe_fifo:
  assumes "hab_synced c" "hab_visible c = []" "\<forall>m \<in> set ms. m \<noteq> []" "length (concat ms) \<le> hab_space c"
  shows "fst (reads hab_get (map length ms) (fold hab_put ms c)) = ms \<and>
     hab_visible (snd (reads hab_get (map length ms) (fold hab_put ms c))) = [] \<and>
     hab_space (snd (reads hab_get (map length ms) (fold hab_put ms c))) = hab_space c"
  by (rule hab.fifo_delivery [OF assms])

theorem hab_pipe_fifo_witness:
  "fst (reads hab_get [2, 1] (fold hab_put [[7, 8], [9]]
     (\<lparr>tx_wr_count = 0xFFFFFFFE, tx_index = 3, rx_index = 3\<rparr>, \<lparr>tx_wr_count = 0, tx_index = 0, rx_index = 3\<rparr>,
      \<lparr>sb_rd_count = 0xFFFFFFFE, sb_wr_count = 0xFFFFFFFE, sb_size = 4, sb_data = [0, 0, 0, 0]\<rparr>))) = [[7, 8], [9]]"
proof -
  let ?c = "(\<lparr>tx_wr_count = 0xFFFFFFFE, tx_index = 3, rx_index = 3\<rparr>, \<lparr>tx_wr_count = 0, tx_index = 0, rx_index = 3\<rparr>,
      \<lparr>sb_rd_count = 0xFFFFFFFE, sb_wr_count = 0xFFFFFFFE, sb_size = 4, sb_data = [0, 0, 0, 0]\<rparr>) :: hab_chan"
  have "hab_synced ?c" "hab_visible ?c = []" "hab_space ?c = 4"
    by (simp_all add: hab_synced_def hab_inv_def hab_used_def hab_avail_def hab_visible_def hab_space_def)
  then show ?thesis using hab_pipe_fifo [of ?c "[[7, 8], [9]]"] by (simp add: numeral_2_eq_2 del: reads.simps)
qed

text \<open>
  C27: whatever the untrusted peer writes into the shared counters, a write from a local index inside
  the ring stays inside the ring, and keeps the local index inside.
\<close>

theorem hab_pipe_write_peer_safe:
  assumes "length (sb_data sb) = unat bs" "unat (tx_index ep) < unat bs" "length src = unat n"
  shows "\<exists>ret ep' sb'. hab_pipe_write ep sb bs (Some src) n = Some (ret, ep', sb') \<and>
     unat (tx_index ep') < unat bs \<and> length (sb_data sb') = unat bs"
proof (cases "bs < tx_wr_count ep - sb_rd_count sb \<or>
    bs - (tx_wr_count ep - sb_rd_count sb) < n \<or> n = 0 \<or> bs < n")
  case True
  then show ?thesis using assms by (auto simp: hab_pipe_write_def Let_def)
next
  case False
  then have n: "0 < length src" "length src \<le> length (sb_data sb)"
    using assms by (auto simp: unat_cmp unat_gt_0)
  have "\<not> bs < tx_index ep" using assms by (simp add: unat_cmp)
  with False show ?thesis
    using tx_copies_ring [of bs "sb_data sb" "tx_index ep" n src "tx_wr_count ep"] assms n
    by (auto simp: hab_pipe_write_def Let_def split: option.splits)
qed

theorem hab_pipe_write_peer_safe_witness:
  "\<exists>ret ep' sb'. hab_pipe_write ep_zero \<lparr>sb_rd_count = 0xFFFFFFFF, sb_wr_count = 9, sb_size = 77, sb_data = [0, 0, 0, 0]\<rparr> 4
       (Some [7, 8]) 2 = Some (ret, ep', sb') \<and> unat (tx_index ep') < 4 \<and> length (sb_data sb') = 4"
  using hab_pipe_write_peer_safe
    [of "\<lparr>sb_rd_count = 0xFFFFFFFF, sb_wr_count = 9, sb_size = 77, sb_data = [0, 0, 0, 0]\<rparr>" 4 ep_zero "[7, 8]" 2]
  by (simp add: ep_zero_def)


text \<open>
  The static \<^verbatim>\<open>signature_mismatch\<close> outlives the header read that set it: while it is set, any
  payload read, on whatever pipe and with consistent data, reports a mismatch and consumes a
  single byte.
\<close>

theorem hab_pipe_read_stale_mismatch:
  assumes inv: "hab_inv (w, r, sb)" and n: "0 < unat n" "unat n \<le> hab_avail (w, r, sb)"
    and view: "view 0 = sb_data sb"
  shows "\<exists>res. hab_pipe_read r sb (sb_size sb) (Some dst) n False True view = Some res \<and>
     pr_ret res = 0xFFFFFFFE \<and> pr_mismatch res \<and> sb_rd_count (pr_buf res) = sb_rd_count sb + 1"
proof -
  from hab_pipe_read_eq [where view = view and dst = dst and mm = True, OF assms]
  obtain ix where "hab_pipe_read r sb (sb_size sb) (Some dst) n False True view = Some
       \<lparr>pr_ret = 0xFFFFFFFE, pr_dst = buf_put dst 0 (take (unat n) (hab_visible (w, r, sb))),
        pr_ep = r\<lparr>rx_index := (if sb_size sb \<le> rx_index r + 1 then 0 else rx_index r + 1)\<rparr>,
        pr_buf = sb\<lparr>sb_rd_count := sb_rd_count sb + 1\<rparr>, pr_mismatch = True\<rparr>"
    by auto
  then show ?thesis by simp
qed

theorem hab_pipe_read_stale_mismatch_witness:
  "\<exists>res. hab_pipe_read hab_demo_ep hab_demo_buf (sb_size hab_demo_buf) (Some [0, 0]) 2 False True (\<lambda>_. sb_data hab_demo_buf) = Some res \<and>
     pr_ret res = 0xFFFFFFFE \<and> pr_mismatch res \<and> sb_rd_count (pr_buf res) = sb_rd_count hab_demo_buf + 1"
  using hab_pipe_read_stale_mismatch [OF hab_demo(1), of 2 "\<lambda>_. sb_data hab_demo_buf" "[0, 0]"]
  by (simp add: hab_demo)

end
