(* ===== verification/Hab_Comm.thy ===== *)
theory Hab_Comm
  imports Hab_Pipe
begin

text \<open>
  The shared-memory physical channel on top of the pipe (\<^verbatim>\<open>drivers/soc/qcom/hab/qvm_comm.c\<close>) and
  the packed message header with its accessor macros (\<^verbatim>\<open>hab.h\<close>).  Time sources are parameters;
  the hypervisor notification after a send is a Boolean of the result.
\<close>

unbundle bit_operations_syntax

section \<open>The message header\<close>

record hab_header =
  hh_id_type :: u32
  hh_payload_size :: u32
  hh_session_id :: u32
  hh_signature :: u32
  hh_sequence :: u32

definition hab_header_bytes :: "hab_header \<Rightarrow> byte list" where
  "hab_header_bytes h =
     nat_to_le 4 (unat (hh_id_type h)) @ nat_to_le 4 (unat (hh_payload_size h)) @
     nat_to_le 4 (unat (hh_session_id h)) @ nat_to_le 4 (unat (hh_signature h)) @
     nat_to_le 4 (unat (hh_sequence h))"

definition HAB_HEADER_TYPE_MASK :: u32 where "HAB_HEADER_TYPE_MASK = 0x000F0000"
definition HAB_HEADER_EXT_TYPE_MASK :: u32 where "HAB_HEADER_EXT_TYPE_MASK = 0x0000000F"
definition HAB_HEADER_ID_MASK :: u32 where "HAB_HEADER_ID_MASK = 0xFFF00000"
definition HAB_VCID_ID_MASK :: u32 where "HAB_VCID_ID_MASK = 0x00000FFF"

definition HAB_HEADER_SET_TYPE :: "hab_header \<Rightarrow> u32 \<Rightarrow> hab_header" where
  "HAB_HEADER_SET_TYPE h t = h\<lparr>hh_id_type :=
     (hh_id_type h AND NOT (HAB_HEADER_TYPE_MASK OR HAB_HEADER_EXT_TYPE_MASK)) OR
     (push_bit 16 t AND HAB_HEADER_TYPE_MASK) OR
     (push_bit 0 (drop_bit 4 t) AND HAB_HEADER_EXT_TYPE_MASK)\<rparr>"

definition HAB_HEADER_SET_ID :: "hab_header \<Rightarrow> u32 \<Rightarrow> hab_header" where
  "HAB_HEADER_SET_ID h i = h\<lparr>hh_id_type :=
     (hh_id_type h AND NOT HAB_HEADER_ID_MASK) OR
     (push_bit 20 (drop_bit 0 (i AND HAB_VCID_ID_MASK)) AND HAB_HEADER_ID_MASK)\<rparr>"

definition HAB_HEADER_GET_TYPE :: "hab_header \<Rightarrow> u32" where
  "HAB_HEADER_GET_TYPE h =
     drop_bit 16 (hh_id_type h AND HAB_HEADER_TYPE_MASK) OR
     push_bit 4 (hh_id_type h AND HAB_HEADER_EXT_TYPE_MASK)"

definition HAB_HEADER_GET_ID :: "hab_header \<Rightarrow> u32" where
  "HAB_HEADER_GET_ID h = drop_bit 20 (hh_id_type h AND HAB_HEADER_ID_MASK) AND HAB_VCID_ID_MASK"

text \<open>The payload types the channel treats specially.\<close>

definition HAB_PAYLOAD_TYPE_PROFILE :: u32 where "HAB_PAYLOAD_TYPE_PROFILE = 6"
definition HAB_PAYLOAD_TYPE_SCHE_MSG :: u32 where "HAB_PAYLOAD_TYPE_SCHE_MSG = 9"
definition HAB_PAYLOAD_TYPE_SCHE_MSG_ACK :: u32 where "HAB_PAYLOAD_TYPE_SCHE_MSG_ACK = 10"
definition HAB_PAYLOAD_TYPE_SCHE_RESULT_REQ :: u32 where "HAB_PAYLOAD_TYPE_SCHE_RESULT_REQ = 11"
definition HAB_PAYLOAD_TYPE_SCHE_RESULT_RSP :: u32 where "HAB_PAYLOAD_TYPE_SCHE_RESULT_RSP = 12"

section \<open>The channel\<close>

definition PIPE_SHMEM_SIZE :: u32 where "PIPE_SHMEM_SIZE = 512 * 1024"
definition DBG_ITEM_SIZE :: nat where "DBG_ITEM_SIZE = 20"

record dbg_item =
  it_rd_cnt :: u32
  it_wr_cnt :: u32
  it_index :: u32
  it_sz :: u32
  it_ret :: u32

record dbg_items =
  dbg_it :: "dbg_item list"
  dbg_idx :: nat

record qvm_channel =
  qc_pipe_ep :: hab_pipe_endpoint
  qc_tx_buf :: hab_shared_buf
  qc_rx_buf :: hab_shared_buf
  qc_dbg_itms :: dbg_items

record physical_channel =
  pc_hyp_data :: "qvm_channel option"
  pc_sequence_tx :: u32
  pc_sequence_rx :: u32

text \<open>Static data of the two files: the send-time pair and the pipe's mismatch flag.\<close>

record hab_statics =
  xvm_tv0 :: u64
  xvm_tv1 :: u64
  signature_mismatch :: bool

text \<open>The debug trace: one item per read in a ring of twenty (the item's \<^verbatim>\<open>va\<close> is an address of \<open>index\<close>).\<close>

definition pipe_read_trace :: "qvm_channel \<Rightarrow> u32 \<Rightarrow> u32 \<Rightarrow> qvm_channel" where
  "pipe_read_trace dev sz ret =
     (let its = qc_dbg_itms dev;
          it = \<lparr>it_rd_cnt = sb_rd_count (qc_rx_buf dev), it_wr_cnt = sb_wr_count (qc_rx_buf dev),
                it_index = rx_index (qc_pipe_ep dev), it_sz = sz, it_ret = ret\<rparr>;
          i = Suc (dbg_idx its)
      in dev\<lparr>qc_dbg_itms := \<lparr>dbg_it = (dbg_it its)[dbg_idx its := it],
                              dbg_idx = (if DBG_ITEM_SIZE \<le> i then 0 else i)\<rparr>\<rparr>)"

text \<open>Reading a payload into \<open>payload\<close>.  Without a device the result is 0.\<close>

definition shmem_physical_channel_read ::
  "physical_channel \<Rightarrow> hab_statics \<Rightarrow> byte list option \<Rightarrow> u32 \<Rightarrow> (nat \<Rightarrow> byte list) \<Rightarrow>
   (u32 \<times> byte list option \<times> physical_channel \<times> hab_statics) option" where
  "shmem_physical_channel_read pchan st payload read_size view =
     (case pc_hyp_data pchan of
        None \<Rightarrow> Some (0, payload, pchan, st)
      | Some dev \<Rightarrow>
          (case hab_pipe_read (qc_pipe_ep dev) (qc_rx_buf dev) PIPE_SHMEM_SIZE payload read_size False
                  (signature_mismatch st) view of
             None \<Rightarrow> None
           | Some res \<Rightarrow>
               let dev' = dev\<lparr>qc_pipe_ep := pr_ep res, qc_rx_buf := pr_buf res\<rparr> in
               Some (pr_ret res, map_option (\<lambda>_. pr_dst res) payload,
                     pchan\<lparr>pc_hyp_data := Some (pipe_read_trace dev' read_size (pr_ret res))\<rparr>,
                     st\<lparr>signature_mismatch := pr_mismatch res\<rparr>)))"

text \<open>
  The in-place edit of a payload before it is sent.  \<open>None\<close>: the code dereferences a null or too
  short payload; \<open>Some (Inl e)\<close>: it returns an error.
\<close>

definition send_stamp ::
  "u32 \<Rightarrow> hab_statics \<Rightarrow> u64 \<Rightarrow> u64 \<Rightarrow> byte list option \<Rightarrow> (errno + byte list option) option" where
  "send_stamp ty st tv_sec tv_usec payload =
     (if ty = HAB_PAYLOAD_TYPE_PROFILE then
        (case payload of
           None \<Rightarrow> Some (Inl EINVAL)
         | Some p \<Rightarrow> map_option (\<lambda>p'. Inr (Some p'))
                      (mem_put p 0 (nat_to_le 8 (unat tv_sec) @ nat_to_le 8 (unat tv_usec))))
      else if ty = HAB_PAYLOAD_TYPE_SCHE_RESULT_REQ then
        (case payload of
           None \<Rightarrow> None
         | Some p \<Rightarrow> map_option (\<lambda>p'. Inr (Some p')) (mem_put p 0 (nat_to_le 8 (unat (xvm_tv0 st)))))
      else if ty = HAB_PAYLOAD_TYPE_SCHE_RESULT_RSP then
        (case payload of
           None \<Rightarrow> None
         | Some p \<Rightarrow> map_option (\<lambda>p'. Inr (Some p')) (mem_put p 16 (nat_to_le 8 (unat (xvm_tv1 st)))))
      else Some (Inr payload))"

record send_result =
  sr_ret :: "errno + unit"
  sr_pchan :: physical_channel
  sr_header :: hab_header
  sr_payload :: "byte list option"
  sr_statics :: hab_statics
  sr_notified :: bool

definition shmem_physical_channel_send ::
  "physical_channel \<Rightarrow> hab_statics \<Rightarrow> hab_header \<Rightarrow> byte list option \<Rightarrow> u64 \<Rightarrow> u64 \<Rightarrow> u64 \<Rightarrow> send_result option" where
  "shmem_physical_channel_send pchan st header payload tv_sec tv_usec ticks =
     (let sizebytes = hh_payload_size header;
          total_size = 20 + unat sizebytes;
          buf_size = PIPE_SHMEM_SIZE;
          fail = (\<lambda>e pc h p. Some \<lparr>sr_ret = Inl e, sr_pchan = pc, sr_header = h, sr_payload = p,
                                   sr_statics = st, sr_notified = False\<rparr>)
      in if unat buf_size < total_size then fail EINVAL pchan header payload
      else case pc_hyp_data pchan of None \<Rightarrow> None
      | Some dev \<Rightarrow>
        if unat (buf_size - (tx_wr_count (qc_pipe_ep dev) - sb_rd_count (qc_tx_buf dev))) < total_size
        then fail EAGAIN pchan header payload
        else
          let header' = header\<lparr>hh_sequence := pc_sequence_tx pchan + 1, hh_signature := HAB_HEAD_SIGNATURE\<rparr>;
              ty = HAB_HEADER_GET_TYPE header'
          in case hab_pipe_write (qc_pipe_ep dev) (qc_tx_buf dev) buf_size (Some (hab_header_bytes header')) 20 of
            None \<Rightarrow> None
          | Some (n1, ep1, tx1) \<Rightarrow>
            let pc1 = pchan\<lparr>pc_hyp_data := Some (dev\<lparr>qc_pipe_ep := ep1, qc_tx_buf := tx1\<rparr>)\<rparr> in
            if n1 \<noteq> 20 then fail EIO pc1 header' payload
            else case send_stamp ty st tv_sec tv_usec payload of
              None \<Rightarrow> None
            | Some (Inl e) \<Rightarrow> fail e pc1 header' payload
            | Some (Inr payload') \<Rightarrow>
              (case (if sizebytes \<noteq> 0 then hab_pipe_write ep1 tx1 buf_size payload' sizebytes
                     else Some (0, ep1, tx1)) of
                 None \<Rightarrow> None
               | Some (n2, ep2, tx2) \<Rightarrow>
                 if n2 \<noteq> sizebytes
                 then fail EIO (pchan\<lparr>pc_hyp_data := Some (dev\<lparr>qc_pipe_ep := ep2, qc_tx_buf := tx2\<rparr>)\<rparr>) header' payload'
                 else Some
                   \<lparr>sr_ret = Inr (),
                    sr_pchan = pchan\<lparr>pc_hyp_data := Some (dev\<lparr>qc_pipe_ep := ep2,
                                       qc_tx_buf := hab_pipe_write_commit ep2 tx2\<rparr>),
                                     pc_sequence_tx := pc_sequence_tx pchan + 1\<rparr>,
                    sr_header = header', sr_payload = payload',
                    sr_statics = (if ty = HAB_PAYLOAD_TYPE_SCHE_MSG then st\<lparr>xvm_tv0 := ticks\<rparr>
                                  else if ty = HAB_PAYLOAD_TYPE_SCHE_MSG_ACK then st\<lparr>xvm_tv1 := ticks\<rparr>
                                  else st),
                    sr_notified = True\<rparr>))"

section \<open>The receive dispatcher\<close>

definition hab_header_of :: "byte list \<Rightarrow> hab_header" where
  "hab_header_of bs = \<lparr>hh_id_type = of_nat (le_to_nat (buf_get bs 0 4)),
     hh_payload_size = of_nat (le_to_nat (buf_get bs 4 4)), hh_session_id = of_nat (le_to_nat (buf_get bs 8 4)),
     hh_signature = of_nat (le_to_nat (buf_get bs 12 4)), hh_sequence = of_nat (le_to_nat (buf_get bs 16 4))\<rparr>"

text \<open>
  The loop of the dispatcher.  \<open>recv\<close> stands for \<^verbatim>\<open>hab_msg_recv\<close>, which reads the payload it wants
  from the channel and changes the client state \<open>s\<close>; \<open>peer k\<close> is what the other side does to the
  shared buffer before the \<open>k\<close>-th round.  \<open>hdr\<close> is the local variable \<^verbatim>\<open>header\<close>, \<open>side\<close> the debug
  copy \<^verbatim>\<open>side_buf\<close>.  \<open>None\<close>: an access outside an object, or the fuel is used up.
\<close>

fun shmem_physical_channel_rx_dispatch ::
  "nat \<Rightarrow> (hab_header \<Rightarrow> physical_channel \<times> hab_statics \<times> 's \<Rightarrow> (physical_channel \<times> hab_statics \<times> 's) option) \<Rightarrow>
   (nat \<Rightarrow> hab_shared_buf \<Rightarrow> hab_shared_buf) \<Rightarrow> nat \<Rightarrow>
   physical_channel \<times> hab_statics \<times> 's \<Rightarrow> byte list \<Rightarrow> byte list \<Rightarrow>
   ((physical_channel \<times> hab_statics \<times> 's) \<times> byte list \<times> byte list) option" where
  "shmem_physical_channel_rx_dispatch 0 recv peer k (pchan, st, s) hdr side = None"
| "shmem_physical_channel_rx_dispatch (Suc fuel) recv peer k (pchan, st, s) hdr side =
     (case pc_hyp_data pchan of None \<Rightarrow> None
      | Some dev \<Rightarrow>
        let rx = peer k (qc_rx_buf dev) in
        case hab_pipe_read (qc_pipe_ep dev) rx PIPE_SHMEM_SIZE (Some hdr) 20 True (signature_mismatch st)
               (\<lambda>_. sb_data rx) of
          None \<Rightarrow> None
        | Some res \<Rightarrow>
          let ret = pr_ret res;
              dev1 = pipe_read_trace (dev\<lparr>qc_pipe_ep := pr_ep res, qc_rx_buf := pr_buf res\<rparr>) 20 ret;
              pchan1 = pchan\<lparr>pc_hyp_data := Some dev1\<rparr>;
              st1 = st\<lparr>signature_mismatch := pr_mismatch res\<rparr>;
              header = hab_header_of (pr_dst res)
          in if ret = 0xFFFFFFFE then
               shmem_physical_channel_rx_dispatch fuel recv peer (Suc k) (pchan1, st1, s) (pr_dst res) side
             else if ret \<noteq> 0xFFFFFFFF \<and> ret \<noteq> 20 then Some ((pchan1, st1, s), pr_dst res, side)
             else
               case (if ret = 0xFFFFFFFF then mem_get (sb_data (qc_rx_buf dev1)) 0 (unat PIPE_SHMEM_SIZE)
                     else Some side) of
                 None \<Rightarrow> None
               | Some side1 \<Rightarrow>
                 (case recv header (pchan1\<lparr>pc_sequence_rx := hh_sequence header\<rparr>, st1, s) of
                    None \<Rightarrow> None
                  | Some t \<Rightarrow> shmem_physical_channel_rx_dispatch fuel recv peer (Suc k) t (pr_dst res) side1))"

section \<open>Header fields\<close>

lemma header_masks:
  "HAB_HEADER_TYPE_MASK = push_bit 16 (mask 4)" "HAB_HEADER_EXT_TYPE_MASK = mask 4"
  "HAB_HEADER_ID_MASK = push_bit 20 (mask 12)" "HAB_VCID_ID_MASK = mask 12"
  by (simp_all add: HAB_HEADER_TYPE_MASK_def HAB_HEADER_EXT_TYPE_MASK_def HAB_HEADER_ID_MASK_def
      HAB_VCID_ID_MASK_def mask_eq_exp_minus_1 push_bit_eq_mult)

lemma type_of_set_type: "HAB_HEADER_GET_TYPE (HAB_HEADER_SET_TYPE h t) = t AND mask 8"
proof (rule bit_word_eqI)
  fix n :: nat
  assume "n < LENGTH(32)"
  consider "n < 4" | "4 \<le> n" "n < 8" | "8 \<le> n" by linarith
  then show "bit (HAB_HEADER_GET_TYPE (HAB_HEADER_SET_TYPE h t)) n \<longleftrightarrow> bit (t AND mask 8) n"
    by cases (simp_all add: HAB_HEADER_GET_TYPE_def HAB_HEADER_SET_TYPE_def header_masks bit_simps less_diff_conv2 le_diff_conv2)
qed

lemma id_of_set_type: "HAB_HEADER_GET_ID (HAB_HEADER_SET_TYPE h t) = HAB_HEADER_GET_ID h"
proof (rule bit_word_eqI)
  fix n :: nat
  assume "n < LENGTH(32)"
  consider "n < 12" | "12 \<le> n" by linarith
  then show "bit (HAB_HEADER_GET_ID (HAB_HEADER_SET_TYPE h t)) n \<longleftrightarrow> bit (HAB_HEADER_GET_ID h) n"
    by cases (simp_all add: HAB_HEADER_GET_ID_def HAB_HEADER_SET_TYPE_def header_masks bit_simps less_diff_conv2 le_diff_conv2)
qed

lemma id_of_set_id: "HAB_HEADER_GET_ID (HAB_HEADER_SET_ID h i) = i AND mask 12"
proof (rule bit_word_eqI)
  fix n :: nat
  assume "n < LENGTH(32)"
  consider "n < 12" | "12 \<le> n" by linarith
  then show "bit (HAB_HEADER_GET_ID (HAB_HEADER_SET_ID h i)) n \<longleftrightarrow> bit (i AND mask 12) n"
    by cases (simp_all add: HAB_HEADER_GET_ID_def HAB_HEADER_SET_ID_def header_masks bit_simps less_diff_conv2 le_diff_conv2)
qed

lemma type_of_set_id: "HAB_HEADER_GET_TYPE (HAB_HEADER_SET_ID h i) = HAB_HEADER_GET_TYPE h"
proof (rule bit_word_eqI)
  fix n :: nat
  assume "n < LENGTH(32)"
  consider "n < 4" | "4 \<le> n" "n < 8" | "8 \<le> n" by linarith
  then show "bit (HAB_HEADER_GET_TYPE (HAB_HEADER_SET_ID h i)) n \<longleftrightarrow> bit (HAB_HEADER_GET_TYPE h) n"
    by cases (simp_all add: HAB_HEADER_GET_TYPE_def HAB_HEADER_SET_ID_def header_masks bit_simps less_diff_conv2 le_diff_conv2)
qed

text \<open>
  The type and identifier accessors of a header agree with the setters: the eight type bits
  (split over two bit ranges) and the twelve identifier bits are stored independently.
\<close>

lemma hab_header_fields:
  "HAB_HEADER_GET_TYPE (HAB_HEADER_SET_ID (HAB_HEADER_SET_TYPE h t) i) = t AND mask 8 \<and>
   HAB_HEADER_GET_ID (HAB_HEADER_SET_ID (HAB_HEADER_SET_TYPE h t) i) = i AND mask 12 \<and>
   HAB_HEADER_GET_ID (HAB_HEADER_SET_TYPE h t) = HAB_HEADER_GET_ID h"
  by (simp add: type_of_set_id type_of_set_type id_of_set_id id_of_set_type)

lemma length_hab_header_bytes [simp]: "length (hab_header_bytes h) = 20"
  by (simp add: hab_header_bytes_def)

section \<open>Sending\<close>

lemma get_type_unchanged [simp]:
  "HAB_HEADER_GET_TYPE (h\<lparr>hh_sequence := s, hh_signature := g\<rparr>) = HAB_HEADER_GET_TYPE h"
  by (simp add: HAB_HEADER_GET_TYPE_def)

lemma send_stamp_length:
  "send_stamp ty st sec us (Some p) = Some (Inr q) \<Longrightarrow> \<exists>p'. q = Some p' \<and> length p' = length p"
  by (auto simp: send_stamp_def mem_put_eq_Some split: if_splits)

text \<open>What the channel puts on the wire: the header with its sequence number and signature filled in.\<close>

definition sent_header :: "physical_channel \<Rightarrow> hab_header \<Rightarrow> hab_header" where
  "sent_header pchan h = h\<lparr>hh_sequence := pc_sequence_tx pchan + 1, hh_signature := HAB_HEAD_SIGNATURE\<rparr>"

lemma hab_space_unat:
  assumes "hab_inv (w, r, sb)"
  shows "unat (sb_size sb - (tx_wr_count w - sb_rd_count sb)) = hab_space (w, r, sb)"
  using assms by (simp add: hab_inv_def hab_used_def hab_space_def unat_minus_le unat_cmp)

lemma hab_space_le: "hab_inv (w, r, sb) \<Longrightarrow> hab_space (w, r, sb) \<le> unat (sb_size sb)"
  by (simp add: hab_inv_def hab_space_def)

text \<open>
  The two writes of a send, without the commit: both succeed when header and payload fit.
\<close>

lemma send_writes:
  assumes inv: "hab_inv (w, r, sb)" and fit: "20 + length p \<le> hab_space (w, r, sb)" and n: "unat n = length p"
  obtains w1 sb1 w2 sb2 where
    "hab_pipe_write w sb (sb_size sb) (Some (hab_header_bytes h)) 20 = Some (20, w1, sb1)"
    "(if n \<noteq> 0 then hab_pipe_write w1 sb1 (sb_size sb) (Some p) n else Some (0, w1, sb1)) = Some (n, w2, sb2)"
    "hab_inv (w1, r, sb1)" "hab_inv (w2, r, sb2)"
    "hab_pending (w1, r, sb1) = hab_pending (w, r, sb) @ hab_header_bytes h"
    "hab_visible (w1, r, sb1) = hab_visible (w, r, sb)"
    "hab_space (w1, r, sb1) = hab_space (w, r, sb) - 20"
    "sb_size sb1 = sb_size sb" "sb_size sb2 = sb_size sb"
    "hab_pending (w2, r, sb2) = hab_pending (w, r, sb) @ hab_header_bytes h @ p"
    "hab_space (w2, r, sb2) = hab_space (w, r, sb) - (20 + length p)"
proof -
  obtain w1 sb1 where one: "hab_pipe_write w sb (sb_size sb) (Some (hab_header_bytes h)) 20 = Some (20, w1, sb1)"
    "hab_inv (w1, r, sb1)" "hab_pending (w1, r, sb1) = hab_pending (w, r, sb) @ hab_header_bytes h"
    "hab_visible (w1, r, sb1) = hab_visible (w, r, sb)"
    "hab_space (w1, r, sb1) = hab_space (w, r, sb) - 20" "sb1 = sb\<lparr>sb_data := sb_data sb1\<rparr>"
    using hab_pipe_write_ok [OF inv, of 20 "hab_header_bytes h"] fit by auto
  have sz: "sb_size sb1 = sb_size sb" by (subst one(6)) simp
  show thesis
  proof (cases "p = []")
    case True
    then have "n = 0" using n by (simp add: unat_eq_0)
    with one sz True show thesis by (intro that [of w1 sb1 w1 sb1]) auto
  next
    case False
    then have "n \<noteq> 0" "length p \<le> hab_space (w1, r, sb1)"
      using n one fit by (auto simp: unat_eq_0 [symmetric])
    with hab_pipe_write_ok [OF one(2) n] False sz obtain w2 sb2 where
      "hab_pipe_write w1 sb1 (sb_size sb) (Some p) n = Some (n, w2, sb2)" "hab_inv (w2, r, sb2)"
      "hab_pending (w2, r, sb2) = hab_pending (w1, r, sb1) @ p" "sb2 = sb1\<lparr>sb_data := sb_data sb2\<rparr>"
      "hab_space (w2, r, sb2) = hab_space (w1, r, sb1) - length p"
      by auto
    moreover from this(4) have "sb_size sb2 = sb_size sb1" by (rule ssubst) simp
    ultimately show thesis using one sz \<open>n \<noteq> 0\<close> by (intro that [of w1 sb1 w2 sb2]) auto
  qed
qed

lemma send_appends:
  assumes dev: "pc_hyp_data pchan = Some dev" and inv: "hab_inv (qc_pipe_ep dev, r, qc_tx_buf dev)"
    and sz: "sb_size (qc_tx_buf dev) = PIPE_SHMEM_SIZE" and len: "length p = unat (hh_payload_size h)"
    and fit: "20 + length p \<le> hab_space (qc_pipe_ep dev, r, qc_tx_buf dev)"
    and stamp: "send_stamp (HAB_HEADER_GET_TYPE h) st sec us (Some p) = Some (Inr (Some p'))"
  shows "\<exists>res dev'. shmem_physical_channel_send pchan st h (Some p) sec us ticks = Some res \<and>
     sr_ret res = Inr () \<and> sr_notified res \<and> pc_hyp_data (sr_pchan res) = Some dev' \<and>
     pc_sequence_tx (sr_pchan res) = pc_sequence_tx pchan + 1 \<and> sb_size (qc_tx_buf dev') = PIPE_SHMEM_SIZE \<and>
     hab_synced (qc_pipe_ep dev', r, qc_tx_buf dev') \<and>
     hab_visible (qc_pipe_ep dev', r, qc_tx_buf dev') =
       hab_pending (qc_pipe_ep dev, r, qc_tx_buf dev) @ hab_header_bytes (sent_header pchan h) @ p' \<and>
     hab_space (qc_pipe_ep dev', r, qc_tx_buf dev') = hab_space (qc_pipe_ep dev, r, qc_tx_buf dev) - (20 + length p)"
proof -
  let ?w = "qc_pipe_ep dev" and ?sb = "qc_tx_buf dev"
  have len': "length p' = length p" using send_stamp_length [OF stamp] by auto
  have n: "unat (hh_payload_size h) = length p'" using len len' by simp
  have fit': "20 + length p' \<le> hab_space (?w, r, ?sb)" using fit len' by simp
  obtain w1 sb1 w2 sb2 where wr:
    "hab_pipe_write ?w ?sb (sb_size ?sb) (Some (hab_header_bytes (sent_header pchan h))) 20 = Some (20, w1, sb1)"
    "(if hh_payload_size h \<noteq> 0 then hab_pipe_write w1 sb1 (sb_size ?sb) (Some p') (hh_payload_size h)
      else Some (0, w1, sb1)) = Some (hh_payload_size h, w2, sb2)"
    and inv2: "hab_inv (w2, r, sb2)" and sz2: "sb_size sb2 = sb_size ?sb"
    and pend: "hab_pending (w2, r, sb2) = hab_pending (?w, r, ?sb) @ hab_header_bytes (sent_header pchan h) @ p'"
    and sp: "hab_space (w2, r, sb2) = hab_space (?w, r, ?sb) - (20 + length p')"
    by (rule send_writes [OF inv fit' n]) blast
  have c1: "\<not> unat PIPE_SHMEM_SIZE < 20 + unat (hh_payload_size h)"
    using fit hab_space_le [OF inv] len sz by simp
  have c2: "\<not> unat (PIPE_SHMEM_SIZE - (tx_wr_count ?w - sb_rd_count ?sb)) < 20 + unat (hh_payload_size h)"
    using fit hab_space_unat [OF inv] len sz by simp
  have "shmem_physical_channel_send pchan st h (Some p) sec us ticks = Some
     \<lparr>sr_ret = Inr (),
      sr_pchan = pchan\<lparr>pc_hyp_data := Some (dev\<lparr>qc_pipe_ep := w2, qc_tx_buf := hab_pipe_write_commit w2 sb2\<rparr>),
                       pc_sequence_tx := pc_sequence_tx pchan + 1\<rparr>,
      sr_header = sent_header pchan h, sr_payload = Some p',
      sr_statics = (if HAB_HEADER_GET_TYPE h = HAB_PAYLOAD_TYPE_SCHE_MSG then st\<lparr>xvm_tv0 := ticks\<rparr>
                    else if HAB_HEADER_GET_TYPE h = HAB_PAYLOAD_TYPE_SCHE_MSG_ACK then st\<lparr>xvm_tv1 := ticks\<rparr>
                    else st),
      sr_notified = True\<rparr>"
    using wr c1 c2 stamp dev
    by (cases "hh_payload_size h = 0")
      (simp_all add: shmem_physical_channel_send_def Let_def sz sent_header_def)
  then show ?thesis
    using hab_commit [OF inv2] pend sp sz sz2 len' by (simp add: hab_synced_visible hab_pipe_write_commit_def)
qed

lemma sent_header_signature: "hh_signature (sent_header pchan h) = HAB_HEAD_SIGNATURE"
  by (simp add: sent_header_def)

lemma hab_header_of_bytes [simp]: "hab_header_of (hab_header_bytes h) = h"
  by (simp add: hab_header_of_def hab_header_bytes_def buf_get_def le_roundtrip unat_u32_less [simplified])

lemma head_signature_bytes: "head_signature (hab_header_bytes h) = hh_signature h"
  using hab_header_of_bytes [of h] by (cases h) (simp add: hab_header_of_def head_signature_def)

text \<open>
  The receiving side: the dispatcher reads the header with the signature check on, then the
  payload with \<^verbatim>\<open>shmem_physical_channel_read\<close>.
\<close>

lemma receive_header:
  assumes sy: "hab_synced (w, r, sb)" and vis: "hab_visible (w, r, sb) = hab_header_bytes h @ rest"
    and sig: "hh_signature h = HAB_HEAD_SIGNATURE" and dst: "length dst = 20"
  shows "\<exists>res. hab_pipe_read r sb (sb_size sb) (Some dst) 20 True mm (\<lambda>_. sb_data sb) = Some res \<and>
     pr_ret res = 20 \<and> pr_dst res = hab_header_bytes h \<and> \<not> pr_mismatch res \<and>
     hab_synced (w, pr_ep res, pr_buf res) \<and> hab_visible (w, pr_ep res, pr_buf res) = rest \<and>
     sb_size (pr_buf res) = sb_size sb \<and> sb_data (pr_buf res) = sb_data sb"
proof -
  have inv: "hab_inv (w, r, sb)" using sy by (simp add: hab_synced_def)
  have "length (hab_visible (w, r, sb)) = hab_avail (w, r, sb)" by (simp add: hab_visible_def)
  then have av: "20 \<le> hab_avail (w, r, sb)" using vis by simp
  obtain r' sb' where rd: "hab_pipe_read r sb (sb_size sb) (Some dst) 20 False False (\<lambda>_. sb_data sb) =
       Some \<lparr>pr_ret = 20, pr_dst = buf_put dst 0 (take 20 (hab_visible (w, r, sb))),
             pr_ep = r', pr_buf = sb', pr_mismatch = False\<rparr>"
    and post: "hab_inv (w, r', sb')" "hab_visible (w, r', sb') = drop 20 (hab_visible (w, r, sb))"
    "sb_wr_count sb' = sb_wr_count sb" "sb_size sb' = sb_size sb" "sb_data sb' = sb_data sb"
    using hab_pipe_read_ok [OF inv, of 20 "\<lambda>_. sb_data sb" dst] av by auto
  have put: "buf_put dst 0 (take 20 (hab_visible (w, r, sb))) = hab_header_bytes h"
    using dst by (simp add: vis buf_put_def)
  have "0 < sb_wr_count sb - sb_rd_count sb" "rx_index r \<le> sb_size sb"
    using av inv by (auto simp: hab_avail_def hab_inv_def word_less_unat word_less_eq_unat)
  with hab_pipe_read_head [OF rd, where mm = mm]
  have "hab_pipe_read r sb (sb_size sb) (Some dst) 20 True mm (\<lambda>_. sb_data sb) =
       Some \<lparr>pr_ret = 20, pr_dst = hab_header_bytes h, pr_ep = r', pr_buf = sb', pr_mismatch = False\<rparr>"
    by (simp add: put head_signature_bytes sig HAB_HEADER_BYTES_def)
  then show ?thesis using post sy vis by (simp add: hab_synced_def)
qed

lemma receive_payload:
  assumes sy: "hab_synced (w, qc_pipe_ep dev, qc_rx_buf dev)" and vis: "hab_visible (w, qc_pipe_ep dev, qc_rx_buf dev) = p @ rest"
    and dev: "pc_hyp_data pchan = Some dev" "sb_size (qc_rx_buf dev) = PIPE_SHMEM_SIZE" "\<not> signature_mismatch st"
    and n: "unat n = length p" "p \<noteq> []"
  shows "\<exists>pchan' dev'. shmem_physical_channel_read pchan st (Some (replicate (length p) 0)) n (\<lambda>_. sb_data (qc_rx_buf dev)) =
       Some (n, Some p, pchan', st) \<and> pc_hyp_data pchan' = Some dev' \<and>
       hab_synced (w, qc_pipe_ep dev', qc_rx_buf dev') \<and> hab_visible (w, qc_pipe_ep dev', qc_rx_buf dev') = rest \<and>
       sb_size (qc_rx_buf dev') = PIPE_SHMEM_SIZE \<and> pc_sequence_rx pchan' = pc_sequence_rx pchan"
proof -
  let ?r = "qc_pipe_ep dev" and ?sb = "qc_rx_buf dev"
  have inv: "hab_inv (w, ?r, ?sb)" using sy by (simp add: hab_synced_def)
  have "length (hab_visible (w, ?r, ?sb)) = hab_avail (w, ?r, ?sb)" by (simp add: hab_visible_def)
  then have av: "0 < unat n" "unat n \<le> hab_avail (w, ?r, ?sb)" using vis n by auto
  obtain r' sb' where rd: "hab_pipe_read ?r ?sb PIPE_SHMEM_SIZE (Some (replicate (length p) 0)) n False False (\<lambda>_. sb_data ?sb) =
       Some \<lparr>pr_ret = n, pr_dst = buf_put (replicate (length p) 0) 0 (take (length p) (hab_visible (w, ?r, ?sb))),
             pr_ep = r', pr_buf = sb', pr_mismatch = False\<rparr>"
    and post: "hab_inv (w, r', sb')" "hab_visible (w, r', sb') = drop (length p) (hab_visible (w, ?r, ?sb))"
    "sb_wr_count sb' = sb_wr_count ?sb" "sb_size sb' = sb_size ?sb"
    using hab_pipe_read_ok [OF inv av, of "\<lambda>_. sb_data ?sb" "replicate (length p) 0"] dev(2) n(1) by auto
  then show ?thesis
    using dev sy vis by (auto simp: shmem_physical_channel_read_def Let_def pipe_read_trace_def hab_synced_def buf_put_def)
qed

section \<open>Dispatching a batch of messages\<close>

text \<open>
  What the dispatcher needs of the message handler, for a client state that logs messages: given
  a channel whose next bytes are the payload the header announces, it takes exactly these bytes.
\<close>

definition recv_takes_payload ::
  "hab_pipe_endpoint \<Rightarrow>
   (hab_header \<Rightarrow> physical_channel \<times> hab_statics \<times> (hab_header \<times> byte list) list \<Rightarrow>
     (physical_channel \<times> hab_statics \<times> (hab_header \<times> byte list) list) option) \<Rightarrow> bool" where
  "recv_takes_payload w recv = (\<forall>h p rest pchan dev st log.
     pc_hyp_data pchan = Some dev \<and> hab_synced (w, qc_pipe_ep dev, qc_rx_buf dev) \<and>
     sb_size (qc_rx_buf dev) = PIPE_SHMEM_SIZE \<and> \<not> signature_mismatch st \<and>
     hab_visible (w, qc_pipe_ep dev, qc_rx_buf dev) = p @ rest \<and> length p = unat (hh_payload_size h) \<longrightarrow>
     (\<exists>pchan' dev'. recv h (pchan, st, log) = Some (pchan', st, log @ [(h, p)]) \<and>
        pc_hyp_data pchan' = Some dev' \<and> hab_synced (w, qc_pipe_ep dev', qc_rx_buf dev') \<and>
        sb_size (qc_rx_buf dev') = PIPE_SHMEM_SIZE \<and> pc_sequence_rx pchan' = pc_sequence_rx pchan \<and>
        hab_visible (w, qc_pipe_ep dev', qc_rx_buf dev') = rest))"

definition on_wire :: "(hab_header \<times> byte list) list \<Rightarrow> byte list" where
  "on_wire msgs = concat (map (\<lambda>(h, p). hab_header_bytes h @ p) msgs)"

definition well_framed :: "hab_header \<times> byte list \<Rightarrow> bool" where
  "well_framed m = (hh_signature (fst m) = HAB_HEAD_SIGNATURE \<and> length (snd m) = unat (hh_payload_size (fst m)))"

lemma trace_keeps [simp]:
  "qc_pipe_ep (pipe_read_trace dev n r) = qc_pipe_ep dev" "qc_rx_buf (pipe_read_trace dev n r) = qc_rx_buf dev"
  by (simp_all add: pipe_read_trace_def Let_def)

lemma dispatch_idle:
  assumes "pc_hyp_data pchan = Some dev" "hab_synced (w, qc_pipe_ep dev, qc_rx_buf dev)"
    and "hab_visible (w, qc_pipe_ep dev, qc_rx_buf dev) = []"
  shows "\<exists>dev'. shmem_physical_channel_rx_dispatch (Suc fuel) recv (\<lambda>_ b. b) k (pchan, st, s) hdr side =
       Some ((pchan\<lparr>pc_hyp_data := Some dev'\<rparr>, st, s), hdr, side) \<and>
     qc_pipe_ep dev' = qc_pipe_ep dev \<and> qc_rx_buf dev' = qc_rx_buf dev"
proof -
  have "hab_avail (w, qc_pipe_ep dev, qc_rx_buf dev) = 0"
    using arg_cong [OF assms(3), of length] by (simp add: hab_visible_def)
  then have "sb_wr_count (qc_rx_buf dev) - sb_rd_count (qc_rx_buf dev) = 0"
    by (simp add: hab_avail_def unat_eq_0)
  then show ?thesis
    using assms(1) by (auto simp: hab_pipe_read_def Let_def intro!: exI [of _ "pipe_read_trace dev 20 0"])
qed

lemma dispatch_batch:
  assumes "recv_takes_payload w recv" "\<forall>m \<in> set msgs. well_framed m"
    and "pc_hyp_data pchan = Some dev" "hab_synced (w, qc_pipe_ep dev, qc_rx_buf dev)"
    and "sb_size (qc_rx_buf dev) = PIPE_SHMEM_SIZE" "length hdr = 20"
    and "hab_visible (w, qc_pipe_ep dev, qc_rx_buf dev) = on_wire msgs" "length msgs < fuel"
  shows "\<exists>pchan' dev' st' hdr'.
     shmem_physical_channel_rx_dispatch fuel recv (\<lambda>_ b. b) k (pchan, st, log) hdr side =
       Some ((pchan', st', log @ msgs), hdr', side) \<and>
     pc_hyp_data pchan' = Some dev' \<and> hab_synced (w, qc_pipe_ep dev', qc_rx_buf dev') \<and>
     hab_visible (w, qc_pipe_ep dev', qc_rx_buf dev') = [] \<and>
     pc_sequence_rx pchan' = (if msgs = [] then pc_sequence_rx pchan else hh_sequence (fst (last msgs)))"
  using assms
proof (induction msgs arbitrary: fuel k pchan dev st log hdr)
  case Nil
  then obtain f where "fuel = Suc f" by (cases fuel) auto
  with Nil dispatch_idle [OF Nil.prems(3,4), of f recv k st log hdr side] show ?case
    by (auto simp: on_wire_def)
next
  case (Cons m msgs)
  obtain h p where m: "m = (h, p)" by (cases m)
  obtain f where f: "fuel = Suc f" "length msgs < f" using Cons.prems(8) by (cases fuel) auto
  have wf: "hh_signature h = HAB_HEAD_SIGNATURE" "length p = unat (hh_payload_size h)"
    using Cons.prems(2) by (auto simp: m well_framed_def)
  have vis: "hab_visible (w, qc_pipe_ep dev, qc_rx_buf dev) = hab_header_bytes h @ p @ on_wire msgs"
    using Cons.prems(7) by (simp add: m on_wire_def)
  obtain res where rd: "hab_pipe_read (qc_pipe_ep dev) (qc_rx_buf dev) PIPE_SHMEM_SIZE (Some hdr) 20 True
       (signature_mismatch st) (\<lambda>_. sb_data (qc_rx_buf dev)) = Some res"
    and res: "pr_ret res = 20" "pr_dst res = hab_header_bytes h" "\<not> pr_mismatch res"
      "hab_synced (w, pr_ep res, pr_buf res)" "hab_visible (w, pr_ep res, pr_buf res) = p @ on_wire msgs"
      "sb_size (pr_buf res) = PIPE_SHMEM_SIZE"
    using receive_header [OF Cons.prems(4) vis wf(1) Cons.prems(6), of "signature_mismatch st"] Cons.prems(5) by auto
  define dev1 where "dev1 = pipe_read_trace (dev\<lparr>qc_pipe_ep := pr_ep res, qc_rx_buf := pr_buf res\<rparr>) 20 20"
  define pchan1 where "pchan1 = pchan\<lparr>pc_hyp_data := Some dev1, pc_sequence_rx := hh_sequence h\<rparr>"
  obtain pchan2 dev2 where rec: "recv h (pchan1, st\<lparr>signature_mismatch := False\<rparr>, log) =
       Some (pchan2, st\<lparr>signature_mismatch := False\<rparr>, log @ [(h, p)])"
    and d2: "pc_hyp_data pchan2 = Some dev2" "hab_synced (w, qc_pipe_ep dev2, qc_rx_buf dev2)"
      "sb_size (qc_rx_buf dev2) = PIPE_SHMEM_SIZE" "pc_sequence_rx pchan2 = hh_sequence h"
      "hab_visible (w, qc_pipe_ep dev2, qc_rx_buf dev2) = on_wire msgs"
    using Cons.prems(1) [unfolded recv_takes_payload_def, rule_format,
        of pchan1 dev1 "st\<lparr>signature_mismatch := False\<rparr>" p "on_wire msgs" h log] res wf(2)
    by (auto simp: pchan1_def dev1_def)
  have step: "shmem_physical_channel_rx_dispatch fuel recv (\<lambda>_ b. b) k (pchan, st, log) hdr side =
    shmem_physical_channel_rx_dispatch f recv (\<lambda>_ b. b) (Suc k)
      (pchan2, st\<lparr>signature_mismatch := False\<rparr>, log @ [(h, p)]) (hab_header_bytes h) side"
    using rd res Cons.prems(3) rec by (simp add: f Let_def dev1_def [symmetric] pchan1_def)
  show ?case
    using Cons.IH [OF Cons.prems(1) _ d2(1,2,3) _ d2(5) f(2), of "hab_header_bytes h" "Suc k"
        "st\<lparr>signature_mismatch := False\<rparr>" "log @ [(h, p)]"] Cons.prems(2) d2(4)
    unfolding step by (auto simp: m)
qed

lemma send_keeps_rx:
  assumes "shmem_physical_channel_send pchan st h p sec us ticks = Some res" "pc_hyp_data pchan = Some dev"
    and "pc_hyp_data (sr_pchan res) = Some dev'"
  shows "qc_rx_buf dev' = qc_rx_buf dev"
  using assms by (auto simp: shmem_physical_channel_send_def Let_def split: if_splits option.splits sum.splits prod.splits)

text \<open>A sender that queues a batch, with what the channel makes of each header.\<close>

fun send_all :: "hab_statics \<Rightarrow> (hab_header \<times> byte list) list \<Rightarrow> physical_channel \<Rightarrow> physical_channel option" where
  "send_all st [] pchan = Some pchan"
| "send_all st ((h, p) # ms) pchan =
     (case shmem_physical_channel_send pchan st h (Some p) 0 0 0 of
        Some res \<Rightarrow> (if sr_ret res = Inr () then send_all st ms (sr_pchan res) else None)
      | None \<Rightarrow> None)"

fun stamped :: "u32 \<Rightarrow> (hab_header \<times> byte list) list \<Rightarrow> (hab_header \<times> byte list) list" where
  "stamped s [] = []"
| "stamped s ((h, p) # ms) = (h\<lparr>hh_sequence := s + 1, hh_signature := HAB_HEAD_SIGNATURE\<rparr>, p) # stamped (s + 1) ms"

definition plain_msg :: "hab_header \<times> byte list \<Rightarrow> bool" where
  "plain_msg m = (length (snd m) = unat (hh_payload_size (fst m)) \<and>
     HAB_HEADER_GET_TYPE (fst m) \<notin> {HAB_PAYLOAD_TYPE_PROFILE, HAB_PAYLOAD_TYPE_SCHE_RESULT_REQ, HAB_PAYLOAD_TYPE_SCHE_RESULT_RSP})"

lemma stamped_laws:
  "length (stamped s ms) = length ms"
  "\<forall>m \<in> set ms. plain_msg m \<Longrightarrow> \<forall>m \<in> set (stamped s ms). well_framed m"
  by (induction s ms rule: stamped.induct) (auto simp: plain_msg_def well_framed_def)

lemma send_all_ok:
  assumes "\<forall>m \<in> set ms. plain_msg m" "pc_hyp_data pchan = Some dev"
    and "hab_synced (qc_pipe_ep dev, r, qc_tx_buf dev)" "sb_size (qc_tx_buf dev) = PIPE_SHMEM_SIZE"
    and "length (on_wire ms) \<le> hab_space (qc_pipe_ep dev, r, qc_tx_buf dev)"
  shows "\<exists>pchan' dev'. send_all st ms pchan = Some pchan' \<and> pc_hyp_data pchan' = Some dev' \<and>
     sb_size (qc_tx_buf dev') = PIPE_SHMEM_SIZE \<and> hab_synced (qc_pipe_ep dev', r, qc_tx_buf dev') \<and>
     hab_visible (qc_pipe_ep dev', r, qc_tx_buf dev') =
       hab_visible (qc_pipe_ep dev, r, qc_tx_buf dev) @ on_wire (stamped (pc_sequence_tx pchan) ms)"
  using assms
proof (induction ms arbitrary: pchan dev)
  case Nil
  then show ?case by (simp add: on_wire_def)
next
  case (Cons m ms)
  obtain h p where m: "m = (h, p)" by (cases m)
  have len: "length p = unat (hh_payload_size h)" "20 + length p \<le> hab_space (qc_pipe_ep dev, r, qc_tx_buf dev)"
    "20 + length p + length (on_wire ms) \<le> hab_space (qc_pipe_ep dev, r, qc_tx_buf dev)"
    using Cons.prems(1,5) by (auto simp: m plain_msg_def on_wire_def)
  have stamp: "send_stamp (HAB_HEADER_GET_TYPE h) st 0 0 (Some p) = Some (Inr (Some p))"
    using Cons.prems(1) by (auto simp: m plain_msg_def send_stamp_def)
  have inv: "hab_inv (qc_pipe_ep dev, r, qc_tx_buf dev)" using Cons.prems(3) by (simp add: hab_synced_def)
  obtain res dev1 where s: "shmem_physical_channel_send pchan st h (Some p) 0 0 0 = Some res" "sr_ret res = Inr ()"
    "pc_hyp_data (sr_pchan res) = Some dev1" "pc_sequence_tx (sr_pchan res) = pc_sequence_tx pchan + 1"
    "sb_size (qc_tx_buf dev1) = PIPE_SHMEM_SIZE" "hab_synced (qc_pipe_ep dev1, r, qc_tx_buf dev1)"
    "hab_visible (qc_pipe_ep dev1, r, qc_tx_buf dev1) =
       hab_visible (qc_pipe_ep dev, r, qc_tx_buf dev) @ hab_header_bytes (sent_header pchan h) @ p"
    "hab_space (qc_pipe_ep dev1, r, qc_tx_buf dev1) = hab_space (qc_pipe_ep dev, r, qc_tx_buf dev) - (20 + length p)"
    using send_appends [where ticks = 0, OF Cons.prems(2) inv Cons.prems(4) len(1,2) stamp]
    unfolding hab_synced_visible [OF Cons.prems(3), symmetric] by blast
  have sp: "length (on_wire ms) \<le> hab_space (qc_pipe_ep dev1, r, qc_tx_buf dev1)"
    using len(3) s(8) by simp
  show ?case
    using Cons.IH [OF _ s(3,6,5) sp] Cons.prems(1) s
    by (auto simp: m on_wire_def sent_header_def)
qed

text \<open>The simplest message handler: read the payload, append it to the log.\<close>

definition recv_log ::
  "hab_header \<Rightarrow> physical_channel \<times> hab_statics \<times> (hab_header \<times> byte list) list \<Rightarrow>
   (physical_channel \<times> hab_statics \<times> (hab_header \<times> byte list) list) option" where
  "recv_log h = (\<lambda>(pchan, st, log).
     if hh_payload_size h = 0 then Some (pchan, st, log @ [(h, [])])
     else case pc_hyp_data pchan of None \<Rightarrow> None
     | Some dev \<Rightarrow>
       (case shmem_physical_channel_read pchan st (Some (replicate (unat (hh_payload_size h)) 0)) (hh_payload_size h)
               (\<lambda>_. sb_data (qc_rx_buf dev)) of
          Some (_, Some p, pchan', st') \<Rightarrow> Some (pchan', st', log @ [(h, p)])
        | _ \<Rightarrow> None))"

lemma recv_log_takes: "recv_takes_payload w recv_log"
  unfolding recv_takes_payload_def
proof (intro allI impI, elim conjE)
  fix h :: hab_header and p rest :: "byte list" and pchan :: physical_channel and dev :: qvm_channel
    and st :: hab_statics and log
  assume a: "pc_hyp_data pchan = Some dev" "hab_synced (w, qc_pipe_ep dev, qc_rx_buf dev)"
    "sb_size (qc_rx_buf dev) = PIPE_SHMEM_SIZE" "\<not> signature_mismatch st"
    "hab_visible (w, qc_pipe_ep dev, qc_rx_buf dev) = p @ rest" "length p = unat (hh_payload_size h)"
  show "\<exists>pchan' dev'. recv_log h (pchan, st, log) = Some (pchan', st, log @ [(h, p)]) \<and>
        pc_hyp_data pchan' = Some dev' \<and> hab_synced (w, qc_pipe_ep dev', qc_rx_buf dev') \<and>
        sb_size (qc_rx_buf dev') = PIPE_SHMEM_SIZE \<and> pc_sequence_rx pchan' = pc_sequence_rx pchan \<and>
        hab_visible (w, qc_pipe_ep dev', qc_rx_buf dev') = rest"
  proof (cases "p = []")
    case True
    then show ?thesis using a by (auto simp: recv_log_def unat_eq_0)
  next
    case False
    then have "hh_payload_size h \<noteq> 0" using a(6) by auto
    with receive_payload [OF a(2,5,1,3,4) a(6) [symmetric] False] a(1,6) show ?thesis
      by (auto simp: recv_log_def)
  qed
qed

section \<open>Properties\<close>


text \<open>An idle channel as the two sides set it up, for the witnesses.\<close>

definition idle_dev :: qvm_channel where
  "idle_dev = \<lparr>qc_pipe_ep = ep_zero,
     qc_tx_buf = \<lparr>sb_rd_count = 0, sb_wr_count = 0, sb_size = PIPE_SHMEM_SIZE, sb_data = replicate 524288 0\<rparr>,
     qc_rx_buf = \<lparr>sb_rd_count = 0, sb_wr_count = 0, sb_size = PIPE_SHMEM_SIZE, sb_data = replicate 524288 0\<rparr>,
     qc_dbg_itms = \<lparr>dbg_it = replicate 20 \<lparr>it_rd_cnt = 0, it_wr_cnt = 0, it_index = 0, it_sz = 0, it_ret = 0\<rparr>, dbg_idx = 0\<rparr>\<rparr>"

definition idle_pchan :: physical_channel where
  "idle_pchan = \<lparr>pc_hyp_data = Some idle_dev, pc_sequence_tx = 6, pc_sequence_rx = 0\<rparr>"

definition demo_statics :: hab_statics where
  "demo_statics = \<lparr>xvm_tv0 = 0, xvm_tv1 = 0, signature_mismatch = True\<rparr>"

definition demo_header :: "u32 \<Rightarrow> u32 \<Rightarrow> hab_header" where
  "demo_header ty n = \<lparr>hh_id_type = push_bit 16 ty, hh_payload_size = n, hh_session_id = 1, hh_signature = 0, hh_sequence = 0\<rparr>"

lemma idle_dev_laws:
  "pc_hyp_data idle_pchan = Some idle_dev" "sb_size (qc_tx_buf idle_dev) = PIPE_SHMEM_SIZE"
  "hab_synced (qc_pipe_ep idle_dev, qc_pipe_ep idle_dev, qc_tx_buf idle_dev)"
  "hab_visible (qc_pipe_ep idle_dev, qc_pipe_ep idle_dev, qc_tx_buf idle_dev) = []"
  "hab_space (qc_pipe_ep idle_dev, qc_pipe_ep idle_dev, qc_tx_buf idle_dev) = 524288"
  by (simp_all add: idle_pchan_def idle_dev_def ep_zero_def hab_synced_def hab_inv_def hab_used_def hab_avail_def
      hab_space_def hab_visible_def PIPE_SHMEM_SIZE_def ring_get_def)

lemma idle_ep: "qc_pipe_ep idle_dev = ep_zero" "pc_sequence_tx idle_pchan = 6" "signature_mismatch demo_statics"
  by (simp_all add: idle_dev_def idle_pchan_def demo_statics_def)

lemmas idle_simps = idle_ep idle_dev_laws [unfolded idle_ep(1)]

lemma demo_stamp:
  "HAB_HEADER_GET_TYPE (demo_header 1 n) = 1" "hh_payload_size (demo_header ty n) = n"
  "send_stamp 1 st sec us (Some p) = Some (Inr (Some p))"
  by (simp_all add: demo_header_def HAB_HEADER_GET_TYPE_def HAB_HEADER_TYPE_MASK_def HAB_HEADER_EXT_TYPE_MASK_def
      send_stamp_def HAB_PAYLOAD_TYPE_PROFILE_def HAB_PAYLOAD_TYPE_SCHE_RESULT_REQ_def HAB_PAYLOAD_TYPE_SCHE_RESULT_RSP_def)




text \<open>
  C34: a header whose signature stays wrong is handled like a message: when the first mismatch is
  found after all retries, the dispatcher takes over its sequence number and passes it to the
  message handler before it resynchronises.
\<close>

theorem dispatch_handles_bad_header:
  assumes dev: "pc_hyp_data pchan = Some dev" and st: "\<not> signature_mismatch st"
    and sy: "hab_synced (w, qc_pipe_ep dev, qc_rx_buf dev)" and sz: "sb_size (qc_rx_buf dev) = PIPE_SHMEM_SIZE"
    and vis: "hab_visible (w, qc_pipe_ep dev, qc_rx_buf dev) = hab_header_bytes h @ rest"
    and bad: "hh_signature h \<noteq> HAB_HEAD_SIGNATURE" and hdr: "length hdr = 20"
  shows "\<exists>pchan1. pc_sequence_rx pchan1 = hh_sequence h \<and>
     shmem_physical_channel_rx_dispatch (Suc fuel) recv (\<lambda>_ b. b) k (pchan, st, s) hdr side =
       (case recv h (pchan1, st\<lparr>signature_mismatch := True\<rparr>, s) of
          None \<Rightarrow> None
        | Some t \<Rightarrow> shmem_physical_channel_rx_dispatch fuel recv (\<lambda>_ b. b) (Suc k) t (hab_header_bytes h)
                      (sb_data (qc_rx_buf dev)))"
proof -
  let ?r = "qc_pipe_ep dev" and ?sb = "qc_rx_buf dev"
  have inv: "hab_inv (w, ?r, ?sb)" using sy by (simp add: hab_synced_def)
  have L: "length (sb_data ?sb) = 524288" using inv sz by (simp add: hab_inv_def PIPE_SHMEM_SIZE_def)
  have "length (hab_visible (w, ?r, ?sb)) = hab_avail (w, ?r, ?sb)" by (simp add: hab_visible_def)
  then have av: "20 \<le> hab_avail (w, ?r, ?sb)" using vis by simp
  obtain res where rd: "hab_pipe_read ?r ?sb (sb_size ?sb) (Some hdr) 20 False True (\<lambda>_. sb_data ?sb) = Some res"
    and res: "pr_dst res = hab_header_bytes h" "pr_mismatch res" "sb_data (pr_buf res) = sb_data ?sb"
    using hab_pipe_read_eq [where mm = True and view = "\<lambda>_. sb_data ?sb" and dst = hdr, OF inv, of 20] av hdr
    by (auto simp: vis buf_put_def)
  have g: "0 < sb_wr_count ?sb - sb_rd_count ?sb" "rx_index ?r \<le> sb_size ?sb"
    using av inv by (auto simp: hab_avail_def hab_inv_def word_less_unat word_less_eq_unat)
  have "hab_pipe_read ?r ?sb PIPE_SHMEM_SIZE (Some hdr) 20 True False (\<lambda>_. sb_data ?sb) = Some (res\<lparr>pr_ret := 0xFFFFFFFF\<rparr>)"
    using hab_pipe_read_bad_head [OF rd _ g] res bad sz by (simp add: head_signature_bytes HAB_HEADER_BYTES_def)
  then show ?thesis
    using dev st res L
    by (intro exI [of _ "pchan\<lparr>pc_hyp_data := Some (pipe_read_trace (dev\<lparr>qc_pipe_ep := pr_ep res, qc_rx_buf := pr_buf res\<rparr>) 20 0xFFFFFFFF),
        pc_sequence_rx := hh_sequence h\<rparr>"])
      (simp add: Let_def PIPE_SHMEM_SIZE_def buf_get_def cong: option.case_cong)
qed

lemma nat_to_le_0: "nat_to_le n 0 = replicate n 0"
  by (induction n) simp_all

lemma ring_get_replicate: "0 < n \<Longrightarrow> ring_get (replicate n x) i k = replicate k x"
  by (rule nth_equalityI) (simp_all add: ring_get_def)

theorem dispatch_handles_bad_header_witness:
  "\<exists>pchan1. pc_sequence_rx pchan1 = 0 \<and>
     shmem_physical_channel_rx_dispatch 1 recv_log (\<lambda>_ b. b) 0
       (idle_pchan\<lparr>pc_hyp_data := Some (idle_dev\<lparr>qc_rx_buf := (qc_rx_buf idle_dev)\<lparr>sb_wr_count := 20\<rparr>\<rparr>)\<rparr>,
        demo_statics\<lparr>signature_mismatch := False\<rparr>, []) (replicate 20 0) [] =
       (case recv_log \<lparr>hh_id_type = 0, hh_payload_size = 0, hh_session_id = 0, hh_signature = 0, hh_sequence = 0\<rparr>
               (pchan1, demo_statics, []) of
          None \<Rightarrow> None
        | Some t \<Rightarrow> shmem_physical_channel_rx_dispatch 0 recv_log (\<lambda>_ b. b) 1 t (replicate 20 0) (replicate 524288 0))"
proof -
  let ?dev = "idle_dev\<lparr>qc_rx_buf := (qc_rx_buf idle_dev)\<lparr>sb_wr_count := 20\<rparr>\<rparr>"
  let ?h = "\<lparr>hh_id_type = 0, hh_payload_size = 0, hh_session_id = 0, hh_signature = 0, hh_sequence = 0\<rparr>"
  let ?w = "ep_zero\<lparr>tx_wr_count := 20, tx_index := 20\<rparr>"
  have hb: "hab_header_bytes ?h = replicate 20 0"
    by (simp add: hab_header_bytes_def nat_to_le_0 replicate_add [symmetric])
  have sb: "sb_data (qc_rx_buf idle_dev) = replicate 524288 0" "sb_rd_count (qc_rx_buf idle_dev) = 0"
    "sb_size (qc_rx_buf idle_dev) = PIPE_SHMEM_SIZE"
    by (simp_all add: idle_dev_def)
  have sy: "hab_synced (?w, qc_pipe_ep ?dev, qc_rx_buf ?dev)"
    by (simp add: idle_ep sb ep_zero_def hab_synced_def hab_inv_def hab_used_def hab_avail_def PIPE_SHMEM_SIZE_def)
  have vis: "hab_visible (?w, qc_pipe_ep ?dev, qc_rx_buf ?dev) = hab_header_bytes ?h @ []"
    unfolding hb by (simp add: idle_ep sb ep_zero_def hab_visible_def hab_avail_def ring_get_replicate)
  have st: "demo_statics\<lparr>signature_mismatch := False, signature_mismatch := True\<rparr> = demo_statics" by (simp add: demo_statics_def)
  have "pc_hyp_data (idle_pchan\<lparr>pc_hyp_data := Some ?dev\<rparr>) = Some ?dev"
    "\<not> signature_mismatch (demo_statics\<lparr>signature_mismatch := False\<rparr>)"
    "sb_size (qc_rx_buf ?dev) = PIPE_SHMEM_SIZE" "hh_signature ?h \<noteq> HAB_HEAD_SIGNATURE" "length (replicate 20 0) = 20"
    by (simp_all add: sb HAB_HEAD_SIGNATURE_def)
  note dispatch_handles_bad_header [OF this(1,2) sy this(3) vis this(4,5), of 0 recv_log 0 "[]" "[]"]
  moreover have "sb_data (qc_rx_buf ?dev) = replicate 524288 0" by (simp add: sb)
  ultimately show ?thesis by (simp only: hb st hab_header.simps hab_statics.simps One_nat_def)
qed

text \<open>
  C30: the rejections of a send: a message that can never fit is \<^verbatim>\<open>EINVAL\<close>, one that does not fit
  now is \<^verbatim>\<open>EAGAIN\<close>, and both leave the channel, the header, the payload and the statics as they were
  and ring no doorbell.
\<close>

theorem shmem_send_rejects:
  assumes dev: "pc_hyp_data pchan = Some dev" and inv: "hab_inv (qc_pipe_ep dev, r, qc_tx_buf dev)"
    and sz: "sb_size (qc_tx_buf dev) = PIPE_SHMEM_SIZE"
    and big: "hab_space (qc_pipe_ep dev, r, qc_tx_buf dev) < 20 + unat (hh_payload_size h)"
  shows "shmem_physical_channel_send pchan st h p sec us ticks = Some
     \<lparr>sr_ret = Inl (if 512 * 1024 < 20 + unat (hh_payload_size h) then EINVAL else EAGAIN),
      sr_pchan = pchan, sr_header = h, sr_payload = p, sr_statics = st, sr_notified = False\<rparr>"
proof -
  have "unat (PIPE_SHMEM_SIZE - (tx_wr_count (qc_pipe_ep dev) - sb_rd_count (qc_tx_buf dev))) < 20 + unat (hh_payload_size h)"
    using big hab_space_unat [OF inv] sz by simp
  moreover have "unat PIPE_SHMEM_SIZE = 512 * 1024" by (simp add: PIPE_SHMEM_SIZE_def)
  ultimately show ?thesis
    using dev by (simp add: shmem_physical_channel_send_def Let_def)
qed

theorem shmem_send_rejects_witness:
  "shmem_physical_channel_send idle_pchan demo_statics (demo_header 1 524269) (Some []) 0 0 0 = Some
     \<lparr>sr_ret = Inl EINVAL, sr_pchan = idle_pchan, sr_header = demo_header 1 524269, sr_payload = Some [],
      sr_statics = demo_statics, sr_notified = False\<rparr>"
proof -
  have "hab_inv (qc_pipe_ep idle_dev, qc_pipe_ep idle_dev, qc_tx_buf idle_dev)"
    using idle_dev_laws(3) by (simp add: hab_synced_def)
  from shmem_send_rejects [OF idle_dev_laws(1) this idle_dev_laws(2), of "demo_header 1 524269" demo_statics "Some []" 0 0 0]
  show ?thesis by (simp add: idle_simps demo_stamp)
qed

text \<open>
  C33: a send that fails after its header went into the ring does not take it back: a profiling
  message without a payload returns \<^verbatim>\<open>EINVAL\<close> with the header pending, and the commit of the next
  successful send publishes that orphan header in front of its own message.
\<close>

theorem shmem_send_orphan_header:
  assumes dev: "pc_hyp_data pchan = Some dev" and inv: "hab_inv (qc_pipe_ep dev, r, qc_tx_buf dev)"
    and sz: "sb_size (qc_tx_buf dev) = PIPE_SHMEM_SIZE"
    and prof: "HAB_HEADER_GET_TYPE h = HAB_PAYLOAD_TYPE_PROFILE" "hh_payload_size h = 0"
    and stamp: "send_stamp (HAB_HEADER_GET_TYPE g) st sec us (Some p) = Some (Inr (Some p'))"
    and len: "length p = unat (hh_payload_size g)"
    and fit: "40 + length p \<le> hab_space (qc_pipe_ep dev, r, qc_tx_buf dev)"
  shows "\<exists>res res' dev'. shmem_physical_channel_send pchan st h None sec us ticks = Some res \<and>
     sr_ret res = Inl EINVAL \<and> pc_sequence_tx (sr_pchan res) = pc_sequence_tx pchan \<and>
     shmem_physical_channel_send (sr_pchan res) st g (Some p) sec us ticks = Some res' \<and>
     sr_ret res' = Inr () \<and> pc_hyp_data (sr_pchan res') = Some dev' \<and>
     hab_visible (qc_pipe_ep dev', r, qc_tx_buf dev') = hab_pending (qc_pipe_ep dev, r, qc_tx_buf dev) @
       hab_header_bytes (sent_header pchan h) @ hab_header_bytes (sent_header pchan g) @ p'"
proof -
  let ?w = "qc_pipe_ep dev" and ?sb = "qc_tx_buf dev"
  have fit0: "20 + length [] \<le> hab_space (?w, r, ?sb)" using fit by simp
  obtain w1 sb1 where wr:
    "hab_pipe_write ?w ?sb (sb_size ?sb) (Some (hab_header_bytes (sent_header pchan h))) 20 = Some (20, w1, sb1)"
    "hab_inv (w1, r, sb1)" "hab_pending (w1, r, sb1) = hab_pending (?w, r, ?sb) @ hab_header_bytes (sent_header pchan h)"
    "hab_space (w1, r, sb1) = hab_space (?w, r, ?sb) - 20" "sb_size sb1 = sb_size ?sb"
    by (rule send_writes [OF inv fit0, of 0 "sent_header pchan h"]) auto
  define pc1 where "pc1 = pchan\<lparr>pc_hyp_data := Some (dev\<lparr>qc_pipe_ep := w1, qc_tx_buf := sb1\<rparr>)\<rparr>"
  have "\<not> unat PIPE_SHMEM_SIZE < 20" by (simp add: PIPE_SHMEM_SIZE_def)
  moreover have "\<not> unat (PIPE_SHMEM_SIZE - (tx_wr_count ?w - sb_rd_count ?sb)) < 20"
    using fit hab_space_unat [OF inv] sz by simp
  ultimately have one: "shmem_physical_channel_send pchan st h None sec us ticks = Some
     \<lparr>sr_ret = Inl EINVAL, sr_pchan = pc1, sr_header = sent_header pchan h, sr_payload = None,
      sr_statics = st, sr_notified = False\<rparr>"
    using wr(1) dev prof
    by (simp add: shmem_physical_channel_send_def Let_def sz sent_header_def send_stamp_def pc1_def)
  have "sent_header pc1 g = sent_header pchan g" by (simp add: sent_header_def pc1_def)
  with send_appends [where ticks = ticks, of pc1 "dev\<lparr>qc_pipe_ep := w1, qc_tx_buf := sb1\<rparr>" r p g st sec us p']
    wr fit stamp len sz one
  show ?thesis by (fastforce simp: pc1_def)
qed

theorem shmem_send_orphan_header_witness:
  "\<exists>res res' dev'. shmem_physical_channel_send idle_pchan demo_statics (demo_header 6 0) None 0 0 0 = Some res \<and>
     sr_ret res = Inl EINVAL \<and>
     shmem_physical_channel_send (sr_pchan res) demo_statics (demo_header 1 1) (Some [9]) 0 0 0 = Some res' \<and>
     pc_hyp_data (sr_pchan res') = Some dev' \<and>
     hab_visible (qc_pipe_ep dev', ep_zero, qc_tx_buf dev') =
       hab_header_bytes (sent_header idle_pchan (demo_header 6 0)) @
       hab_header_bytes (sent_header idle_pchan (demo_header 1 1)) @ [9]"
proof -
  have inv: "hab_inv (qc_pipe_ep idle_dev, qc_pipe_ep idle_dev, qc_tx_buf idle_dev)"
    using idle_dev_laws(3) by (simp add: hab_synced_def)
  have prof: "HAB_HEADER_GET_TYPE (demo_header 6 0) = HAB_PAYLOAD_TYPE_PROFILE"
    by (simp add: demo_header_def HAB_HEADER_GET_TYPE_def HAB_HEADER_TYPE_MASK_def HAB_HEADER_EXT_TYPE_MASK_def
        HAB_PAYLOAD_TYPE_PROFILE_def)
  show ?thesis
    using shmem_send_orphan_header [OF idle_dev_laws(1) inv idle_dev_laws(2) prof,
        of "demo_header 1 1" demo_statics 0 0 "[9]" "[9]" 0]
    by (auto simp: idle_simps demo_stamp hab_synced_visible [OF idle_dev_laws(3), symmetric, unfolded idle_ep(1)])
qed

end
