(* ===== verification/Glink_Smem.thy ===== *)
theory Glink_Smem
  imports Ring
begin

text \<open>
  The G-Link transport over shared-memory FIFOs (\<^verbatim>\<open>drivers/rpmsg/qcom_glink_smem.c\<close>).  Head and
  tail are 32-bit values in shared memory that the remote processor can write; lengths are of type
  \<^verbatim>\<open>size_t\<close>, so the mixed expressions of the source are computed at 64 bits and truncated where
  the source assigns them to a 32-bit variable.
\<close>

unbundle bit_operations_syntax

section \<open>The pipe\<close>

definition FIFO_FULL_RESERVE :: u32 where "FIFO_FULL_RESERVE = 8"
definition TX_BLOCKED_CMD_RESERVE :: u32 where "TX_BLOCKED_CMD_RESERVE = 8"

record glink_smem_pipe =
  gp_length :: u64
  gp_tail :: u32
  gp_head :: u32
  gp_fifo :: "byte list option"

text \<open>
  \<open>smem_get\<close> is the outcome of \<^verbatim>\<open>qcom_smem_get\<close> for the receive FIFO, which is looked up on first
  use.
\<close>

definition glink_smem_rx_avail ::
  "errno + (byte list \<times> u64) \<Rightarrow> glink_smem_pipe \<Rightarrow> u64 \<times> glink_smem_pipe" where
  "glink_smem_rx_avail smem_get pipe =
     (let count = (\<lambda>pipe.
        let head = gp_head pipe; tail = gp_tail pipe;
            len = (if head < tail then gp_length pipe - ucast tail + ucast head else ucast (head - tail))
        in (if gp_length pipe < len then 0 else len, pipe))
      in case gp_fifo pipe of
           Some _ \<Rightarrow> count pipe
         | None \<Rightarrow>
             (case smem_get of
                Inl e \<Rightarrow> (0, pipe)
              | Inr (fifo, len) \<Rightarrow> count (pipe\<lparr>gp_fifo := Some fifo, gp_length := len\<rparr>)))"

text \<open>
  The bytes a peek leaves in \<open>data\<close>.  \<open>None\<close>: the copy reads outside the FIFO, or there is none.
\<close>

definition glink_smem_rx_peek :: "glink_smem_pipe \<Rightarrow> byte list \<Rightarrow> u32 \<Rightarrow> u64 \<Rightarrow> byte list option" where
  "glink_smem_rx_peek pipe data offset count =
     (let tail0 = gp_tail pipe in
      if gp_length pipe < ucast tail0 then Some data
      else
        let tail1 = tail0 + offset;
            tail = (if gp_length pipe \<le> ucast tail1 then ucast (ucast tail1 - gp_length pipe) else tail1);
            len = min count (gp_length pipe - ucast tail)
        in case gp_fifo pipe of
             None \<Rightarrow> if count = 0 then Some data else None
           | Some fifo \<Rightarrow>
               (case (if len \<noteq> 0 then mem_get fifo (unat tail) (unat len) else Some [],
                      if len \<noteq> count then mem_get fifo 0 (unat (count - len)) else Some []) of
                  (Some a, Some b) \<Rightarrow> Some (buf_put data 0 (a @ b))
                | _ \<Rightarrow> None))"

definition glink_smem_rx_advance :: "glink_smem_pipe \<Rightarrow> u64 \<Rightarrow> glink_smem_pipe" where
  "glink_smem_rx_advance pipe count =
     (let tail1 = ucast (ucast (gp_tail pipe) + count) :: u32;
          tail = (if gp_length pipe \<le> ucast tail1 then ucast (ucast tail1 mod gp_length pipe) else tail1)
      in pipe\<lparr>gp_tail := tail\<rparr>)"

definition glink_smem_tx_avail :: "glink_smem_pipe \<Rightarrow> u64" where
  "glink_smem_tx_avail pipe =
     (let head = gp_head pipe; tail = gp_tail pipe;
          avail1 = (if tail \<le> head then ucast (gp_length pipe - ucast head + ucast tail) else tail - head) :: u32;
          reserve = FIFO_FULL_RESERVE + TX_BLOCKED_CMD_RESERVE;
          avail = (if avail1 < reserve then 0 else avail1 - reserve)
      in if gp_length pipe < ucast avail then 0 else ucast avail)"

text \<open>One copy into the FIFO: the new head and the FIFO.  \<open>count\<close> is the length of \<open>data\<close>.\<close>

definition glink_smem_tx_write_one :: "u64 \<Rightarrow> byte list \<Rightarrow> u32 \<Rightarrow> byte list \<Rightarrow> (u32 \<times> byte list) option" where
  "glink_smem_tx_write_one plen fifo head data =
     (if plen < ucast head then Some (head, fifo)
      else
        let count = of_nat (length data) :: u64;
            len = min count (plen - ucast head);
            head1 = ucast (ucast head + count) :: u32;
            head2 = (if plen \<le> ucast head1 then ucast (ucast head1 - plen) else head1)
        in case (if len \<noteq> 0 then mem_put fifo (unat head) (take (unat len) data) else Some fifo) of
             None \<Rightarrow> None
           | Some fifo1 \<Rightarrow>
               (case (if len \<noteq> count then mem_put fifo1 0 (drop (unat len) data) else Some fifo1) of
                  None \<Rightarrow> None
                | Some fifo2 \<Rightarrow> Some (head2, fifo2)))"

definition glink_align8 :: "u32 \<Rightarrow> u32" where
  "glink_align8 x = (x + 7) AND NOT 7"

definition glink_smem_tx_write :: "glink_smem_pipe \<Rightarrow> byte list \<Rightarrow> byte list \<Rightarrow> glink_smem_pipe option" where
  "glink_smem_tx_write pipe hdr data =
     (case gp_fifo pipe of None \<Rightarrow> None
      | Some fifo \<Rightarrow>
        (case glink_smem_tx_write_one (gp_length pipe) fifo (gp_head pipe) hdr of
           None \<Rightarrow> None
         | Some (head1, fifo1) \<Rightarrow>
           (case glink_smem_tx_write_one (gp_length pipe) fifo1 head1 data of
              None \<Rightarrow> None
            | Some (head2, fifo2) \<Rightarrow>
              let head3 = glink_align8 head2;
                  head = (if gp_length pipe \<le> ucast head3 then ucast (ucast head3 - gp_length pipe) else head3)
              in Some (pipe\<lparr>gp_head := head, gp_fifo := Some fifo2\<rparr>))))"


section \<open>Copies into the FIFO\<close>

text \<open>An index step: a 32-bit index plus a count, reduced once by the length.\<close>

lemma index_step:
  fixes plen count :: u64 and i :: u32
  assumes L: "unat plen < 2 ^ 31" and i: "unat i < unat plen" and c: "unat count \<le> unat plen"
  defines "j \<equiv> ucast (ucast i + count) :: u32"
  shows "unat (if plen \<le> ucast j then ucast (ucast j - plen) else j) = (unat i + unat count) mod unat plen"
proof -
  have s: "unat (ucast i + count) = unat i + unat count"
    using assms by (subst unat64_plus) auto
  then have j: "unat j = unat i + unat count"
    using assms unfolding j_def by (subst unat_down) auto
  show ?thesis
  proof (cases "plen \<le> ucast j")
    case True
    then have "unat plen \<le> unat j" by (simp add: word_nat)
    then have "unat (ucast j - plen) = unat j - unat plen" by (simp add: unat64_minus)
    moreover have "unat j - unat plen < 2 ^ 32" using j i c L by simp
    ultimately have "unat (ucast (ucast j - plen) :: u32) = unat j - unat plen" by (simp add: unat_down)
    then show ?thesis
      using True j i c \<open>unat plen \<le> unat j\<close> mod_once [of "unat i + unat count" "unat plen"] by simp
  next
    case False
    then have "unat j < unat plen" by (simp add: word_nat)
    then show ?thesis using False j by simp
  qed
qed

lemma tx_write_one_ring:
  assumes L: "unat plen = length fifo" "length fifo < 2 ^ 31" and h: "unat head < length fifo"
    and d: "length data \<le> length fifo"
  shows "\<exists>head'. glink_smem_tx_write_one plen fifo head data = Some (head', ring_put fifo (unat head) data) \<and>
     unat head' = (unat head + length data) mod length fifo"
proof -
  let ?count = "of_nat (length data) :: u64"
  let ?len = "min ?count (plen - ucast head)"
  have c: "unat ?count = length data" using d L by (simp add: unat_of_nat)
  have m: "unat (plen - ucast head) = length fifo - unat head" using L h by (simp add: unat64_minus)
  have len: "unat ?len = min (length data) (length fifo - unat head)" by (simp add: unat64_min c m)
  have "?len = ?count \<longleftrightarrow> length data \<le> length fifo - unat head" "?len = 0 \<longleftrightarrow> length data = 0"
    using len c h by (auto simp: word_eq_unat min_def split: if_splits)
  then have copies: "(case (if ?len \<noteq> 0 then mem_put fifo (unat head) (take (unat ?len) data) else Some fifo) of
             None \<Rightarrow> None
           | Some fifo1 \<Rightarrow>
               (case (if ?len \<noteq> ?count then mem_put fifo1 0 (drop (unat ?len) data) else Some fifo1) of
                  None \<Rightarrow> None
                | Some fifo2 \<Rightarrow> Some (x, fifo2))) = Some (x, ring_put fifo (unat head) data)" for x :: u32
    using len L h d by (subst ring_put_two_part) (auto simp: min_def)
  have g: "\<not> plen < ucast head" using L h by (simp add: word_nat)
  have step: "unat (if plen \<le> ucast (ucast (ucast head + ?count) :: u32) then ucast (ucast (ucast (ucast head + ?count) :: u32) - plen)
      else ucast (ucast head + ?count) :: u32) = (unat head + length data) mod length fifo"
    using index_step [of plen head ?count] L h d c by simp
  show ?thesis
    unfolding glink_smem_tx_write_one_def if_not_P [OF g] Let_def copies using step by blast
qed

section \<open>Alignment\<close>

lemma unat_align8:
  assumes "unat x + 7 < 2 ^ 32"
  shows "unat (glink_align8 x) = pad8 (unat x)"
proof -
  have "unat (x + 7) = unat x + 7" using assms by (subst unat32_plus) auto
  then show ?thesis unfolding glink_align8_def unat_and_not7 by (simp add: pad8_def)
qed

lemma pad8_index:
  assumes "8 dvd L" "8 dvd h" "h < L" "n \<le> L"
  shows "pad8 ((h + n) mod L) mod L = (h + pad8 n) mod L" and "pad8 ((h + n) mod L) \<le> L"
proof -
  show "pad8 ((h + n) mod L) \<le> L"
    using assms pad8_mono [of "(h + n) mod L" L] pad8_laws(4) [OF assms(1)] by simp
  show "pad8 ((h + n) mod L) mod L = (h + pad8 n) mod L"
  proof (cases "h + n < L")
    case True
    then show ?thesis by (simp add: pad8_add assms(2))
  next
    case False
    then have "(h + n) mod L + L = h + n" using assms(3,4) by (simp add: mod_once)
    then have "L + pad8 ((h + n) mod L) = h + pad8 n"
      using pad8_add [OF assms(1), of "(h + n) mod L"] pad8_add [OF assms(2), of n] by (simp add: add.commute)
    then show ?thesis by (metis mod_add_self1)
  qed
qed

section \<open>The FIFO as a byte sequence\<close>

definition glink_used :: "glink_smem_pipe \<Rightarrow> nat" where
  "glink_used p = (if unat (gp_head p) < unat (gp_tail p)
     then unat (gp_length p) - unat (gp_tail p) + unat (gp_head p) else unat (gp_head p) - unat (gp_tail p))"

definition glink_contents :: "glink_smem_pipe \<Rightarrow> byte list" where
  "glink_contents p = (case gp_fifo p of None \<Rightarrow> [] | Some fifo \<Rightarrow> ring_get fifo (unat (gp_tail p)) (glink_used p))"

definition glink_inv :: "glink_smem_pipe \<Rightarrow> bool" where
  "glink_inv p = (case gp_fifo p of None \<Rightarrow> False | Some fifo \<Rightarrow>
     unat (gp_length p) = length fifo \<and> length fifo < 2 ^ 31 \<and> 16 \<le> length fifo \<and> 8 dvd length fifo \<and>
     unat (gp_tail p) < length fifo \<and> unat (gp_head p) < length fifo \<and> 8 dvd unat (gp_head p))"

lemma length_glink_contents: "glink_inv p \<Longrightarrow> length (glink_contents p) = glink_used p"
  by (simp add: glink_inv_def glink_contents_def split: option.splits)

lemma used_of_index:
  fixes L :: nat
  assumes "t < L" "u < L"
  shows "(if (t + u) mod L < t then L - t + (t + u) mod L else (t + u) mod L - t) = u"
  using assms by (auto simp: mod_once)

lemma glink_usedI:
  assumes "unat (gp_length p) = L" "unat (gp_tail p) < L" "u < L" "unat (gp_head p) = (unat (gp_tail p) + u) mod L"
  shows "glink_used p = u"
  unfolding glink_used_def assms(1,4) by (rule used_of_index [OF assms(2,3)])

lemma glink_head_index:
  assumes "glink_inv p" "gp_fifo p = Some fifo"
  shows "unat (gp_head p) = (unat (gp_tail p) + glink_used p) mod length fifo" "glink_used p < length fifo"
  using assms by (auto simp: glink_inv_def glink_used_def mod_once)

lemma glink_tx_write_ok:
  assumes inv: "glink_inv p" and fifo: "gp_fifo p = Some fifo"
    and fit: "glink_used p + pad8 (length hdr + length data) < length fifo"
  shows "\<exists>p'. glink_smem_tx_write p hdr data = Some p' \<and> glink_inv p' \<and> gp_tail p' = gp_tail p \<and>
     gp_length p' = gp_length p \<and> glink_used p' = glink_used p + pad8 (length hdr + length data) \<and>
     take (glink_used p + length hdr + length data) (glink_contents p') = glink_contents p @ hdr @ data"
proof -
  let ?L = "length fifo" and ?t = "unat (gp_tail p)" and ?h = "unat (gp_head p)" and ?u = "glink_used p"
  let ?n = "length hdr + length data"
  have I: "unat (gp_length p) = ?L" "?L < 2 ^ 31" "16 \<le> ?L" "8 dvd ?L" "?t < ?L" "?h < ?L" "8 dvd ?h"
    using inv fifo by (simp_all add: glink_inv_def)
  have h: "?h = (?t + ?u) mod ?L" using glink_head_index [OF inv fifo] by simp
  have n: "?n \<le> ?L" "?u + ?n < ?L" using fit pad8_laws(1) [of ?n] by auto
  obtain h1 where w1: "glink_smem_tx_write_one (gp_length p) fifo (gp_head p) hdr = Some (h1, ring_put fifo ?h hdr)"
    and h1: "unat h1 = (?h + length hdr) mod ?L"
    using tx_write_one_ring [of "gp_length p" fifo "gp_head p" hdr] I n by auto
  define f1 where "f1 = ring_put fifo ?h hdr"
  have l1: "length f1 = ?L" by (simp add: f1_def)
  have pos: "0 < ?L" using I by linarith
  have h1L: "unat h1 < ?L" using pos by (simp add: h1)
  obtain h2 where w2: "glink_smem_tx_write_one (gp_length p) f1 h1 data = Some (h2, ring_put f1 (unat h1) data)"
    and h2: "unat h2 = (unat h1 + length data) mod ?L"
    using tx_write_one_ring [of "gp_length p" f1 h1 data] I n h1L l1 by auto
  define f2 where "f2 = ring_put f1 (unat h1) data"
  have h2': "unat h2 = (?h + ?n) mod ?L" using h2 h1 by (simp add: mod_simps add.assoc)
  have h2L: "unat h2 < ?L" using pos by (simp add: h2')
  have al: "unat (glink_align8 h2) = pad8 (unat h2)"
    using I h2L by (intro unat_align8) auto
  have le: "pad8 (unat h2) \<le> ?L" using pad8_index(2) [OF I(4,7,6) n(1)] h2' by simp
  define hd where "hd = (if gp_length p \<le> ucast (glink_align8 h2) then ucast (ucast (glink_align8 h2) - gp_length p)
      else glink_align8 h2 :: u32)"
  have "unat hd = pad8 (unat h2) mod ?L"
    using le al I(1) unfolding hd_def by (auto simp: word_nat unat64_minus unat_down)
  then have hd: "unat hd = (?h + pad8 ?n) mod ?L"
    using pad8_index(1) [OF I(4,7,6) n(1)] h2' by simp
  then have hd': "unat hd = (?t + (?u + pad8 ?n)) mod ?L" using h by (simp add: mod_simps add.assoc)
  have run: "glink_smem_tx_write p hdr data = Some (p\<lparr>gp_head := hd, gp_fifo := Some f2\<rparr>)"
    by (simp add: glink_smem_tx_write_def fifo w1 f1_def [symmetric] w2 f2_def [symmetric] Let_def hd_def)
  have c1: "ring_get f1 ?t (?u + length hdr) = ring_get fifo ?t ?u @ hdr"
    unfolding f1_def h ring_put_mod using I n by (intro ring_get_put) auto
  have "f2 = ring_put f1 (?t + (?u + length hdr)) data"
    unfolding f2_def h1 h l1 [symmetric] by (simp add: ring_put_mod mod_simps add.assoc)
  then have c2: "ring_get f2 ?t (?u + length hdr + length data) = ring_get f1 ?t (?u + length hdr) @ data"
    using ring_get_put [of f1 "?u + length hdr" data ?t] l1 pos n by auto
  have used: "glink_used (p\<lparr>gp_head := hd, gp_fifo := Some f2\<rparr>) = ?u + pad8 ?n"
    by (rule glink_usedI [OF _ _ fit]) (simp_all add: I hd')
  have "glink_inv (p\<lparr>gp_head := hd, gp_fifo := Some f2\<rparr>)"
    using I hd pad8_laws(3) [of ?n] by (auto simp: glink_inv_def f2_def l1 dvd_mod)
  moreover have "take (?u + length hdr + length data) (glink_contents (p\<lparr>gp_head := hd, gp_fifo := Some f2\<rparr>)) =
      glink_contents p @ hdr @ data"
    using c1 c2 pad8_laws(1) [of ?n] by (simp add: glink_contents_def used fifo take_ring_get)
  ultimately show ?thesis using run used by auto
qed

lemma glink_rx_avail_used:
  assumes inv: "glink_inv p"
  shows "fst (glink_smem_rx_avail g p) = of_nat (glink_used p)" "snd (glink_smem_rx_avail g p) = p"
    "unat (fst (glink_smem_rx_avail g p)) = glink_used p"
proof -
  obtain fifo where f: "gp_fifo p = Some fifo" using inv by (auto simp: glink_inv_def split: option.splits)
  let ?len = "if gp_head p < gp_tail p then gp_length p - ucast (gp_tail p) + ucast (gp_head p)
      else ucast (gp_head p - gp_tail p)"
  have I: "unat (gp_length p) = length fifo" "length fifo < 2 ^ 31" "unat (gp_tail p) < length fifo" "unat (gp_head p) < length fifo"
    using inv f by (simp_all add: glink_inv_def)
  have "unat ?len = glink_used p"
    using I by (auto simp: glink_used_def word_nat unat64_minus unat64_plus unat32_minus)
  moreover have "glink_used p \<le> length fifo" using glink_head_index [OF inv f] by simp
  ultimately show u: "unat (fst (glink_smem_rx_avail g p)) = glink_used p" and "snd (glink_smem_rx_avail g p) = p"
    using f I(1) by (auto simp: glink_smem_rx_avail_def Let_def word_nat)
  show "fst (glink_smem_rx_avail g p) = of_nat (glink_used p)"
    unfolding u [symmetric] by simp
qed

lemma glink_tx_avail_used:
  assumes inv: "glink_inv p"
  shows "unat (glink_smem_tx_avail p) = unat (gp_length p) - glink_used p - 16"
proof -
  obtain fifo where f: "gp_fifo p = Some fifo" using inv by (auto simp: glink_inv_def split: option.splits)
  let ?a = "if gp_tail p \<le> gp_head p then ucast (gp_length p - ucast (gp_head p) + ucast (gp_tail p))
      else gp_tail p - gp_head p :: u32"
  have I: "unat (gp_length p) = length fifo" "length fifo < 2 ^ 31" "unat (gp_tail p) < length fifo" "unat (gp_head p) < length fifo"
    using inv f by (simp_all add: glink_inv_def)
  have u: "glink_used p < length fifo" using glink_head_index [OF inv f] by simp
  have a: "unat ?a = length fifo - glink_used p"
    using I by (auto simp: glink_used_def word_nat unat64_minus unat64_plus unat32_minus unat_down)
  show ?thesis
    using a I(1) unfolding glink_smem_tx_avail_def Let_def
    by (auto simp: FIFO_FULL_RESERVE_def TX_BLOCKED_CMD_RESERVE_def word_nat unat32_minus)
qed

text \<open>The two-part read of a peek, at the level of indices.\<close>

lemma glink_rx_peek_ok:
  assumes inv: "glink_inv p" and fifo: "gp_fifo p = Some fifo"
    and n: "unat offset + unat count \<le> glink_used p"
  shows "glink_smem_rx_peek p data offset count =
     Some (buf_put data 0 (ring_get fifo (unat (gp_tail p) + unat offset) (unat count)))"
proof -
  have I: "unat (gp_length p) = length fifo" "length fifo < 2 ^ 31" "unat (gp_tail p) < length fifo"
    using inv fifo by (simp_all add: glink_inv_def)
  have u: "glink_used p < length fifo" using glink_head_index [OF inv fifo] by simp
  let ?t1 = "gp_tail p + offset"
  define t where "t = (if gp_length p \<le> ucast ?t1 then ucast (ucast ?t1 - gp_length p) else ?t1)"
  have t1: "unat ?t1 = unat (gp_tail p) + unat offset" using I u n by (subst unat32_plus) auto
  have t: "unat t = (unat (gp_tail p) + unat offset) mod length fifo"
    using t1 I u n by (auto simp: t_def word_nat mod_once unat64_minus unat_down)
  have "0 < length fifo" using u by linarith
  then have tL: "unat t < length fifo" by (simp add: t)
  define len where "len = min count (gp_length p - ucast t)"
  have len: "unat len = min (unat count) (length fifo - unat t)"
    using tL I(1) by (simp add: len_def unat64_min unat64_minus)
  have "len = 0 \<longleftrightarrow> unat count = 0" "len = count \<longleftrightarrow> unat count \<le> length fifo - unat t"
    using len tL by (auto simp: word_eq_unat min_def split: if_splits)
  moreover have "unat (count - len) = unat count - unat len" using len by (intro unat64_minus) simp
  moreover have "ring_get fifo (unat (gp_tail p) + unat offset) (unat count) = ring_get fifo (unat t) (unat count)"
    by (simp add: t)
  moreover have "\<not> gp_length p < ucast (gp_tail p)" using I by (simp add: word_nat)
  ultimately show ?thesis
    using tL len u n fifo ring_get_two_part [of "unat t" fifo "unat count"]
    unfolding glink_smem_rx_peek_def Let_def t_def [symmetric] len_def [symmetric]
    by (auto simp: min_def split: if_splits)
qed

lemma glink_rx_advance_ok:
  assumes inv: "glink_inv p" and n: "unat count \<le> glink_used p"
  shows "glink_inv (glink_smem_rx_advance p count)"
    and "glink_used (glink_smem_rx_advance p count) = glink_used p - unat count"
    and "glink_contents (glink_smem_rx_advance p count) = drop (unat count) (glink_contents p)"
proof -
  obtain fifo where f: "gp_fifo p = Some fifo" using inv by (auto simp: glink_inv_def split: option.splits)
  let ?p = "glink_smem_rx_advance p count"
  have I: "unat (gp_length p) = length fifo" "length fifo < 2 ^ 31" "unat (gp_tail p) < length fifo"
    using inv f by (simp_all add: glink_inv_def)
  have u: "glink_used p < length fifo" and h: "unat (gp_head p) = (unat (gp_tail p) + glink_used p) mod length fifo"
    using glink_head_index [OF inv f] by auto
  let ?j = "ucast (ucast (gp_tail p) + count) :: u32"
  have "unat (ucast (gp_tail p) + count) = unat (gp_tail p) + unat count"
    using I u n by (subst unat64_plus) auto
  then have j: "unat ?j = unat (gp_tail p) + unat count" using I u n by (subst unat_down) auto
  have "unat (ucast ?j mod gp_length p) < 2 ^ 32"
    using I u by (simp add: unat_mod) (rule order.strict_trans [OF mod_less_divisor], auto)
  then have t: "unat (gp_tail ?p) = (unat (gp_tail p) + unat count) mod length fifo"
    using j I by (auto simp: glink_smem_rx_advance_def Let_def word_nat unat_down unat_mod)
  have same: "gp_head ?p = gp_head p" "gp_fifo ?p = Some fifo" "gp_length ?p = gp_length p"
    using f by (simp_all add: glink_smem_rx_advance_def Let_def)
  have pos: "0 < length fifo" using u by linarith
  then show i: "glink_inv ?p" using inv f t by (simp add: glink_inv_def same)
  have "(unat (gp_tail ?p) + (glink_used p - unat count)) mod length fifo =
      (unat (gp_tail p) + unat count + (glink_used p - unat count)) mod length fifo"
    unfolding t by (rule mod_add_left_eq)
  then have "unat (gp_head ?p) = (unat (gp_tail ?p) + (glink_used p - unat count)) mod length fifo"
    using n h same by simp
  then show us: "glink_used ?p = glink_used p - unat count"
    using i same I(1) u by (intro glink_usedI [of _ "length fifo"]) (simp_all add: glink_inv_def)
  show "glink_contents ?p = drop (unat count) (glink_contents p)"
    using n f by (simp add: glink_contents_def same us t drop_ring_get)
qed

section \<open>The FIFO implements the transport contract\<close>

text \<open>A write into the FIFO, and a peek followed by an advance; writers send multiples of eight bytes.\<close>

definition glink_ok :: "glink_smem_pipe \<Rightarrow> bool" where
  "glink_ok p = (glink_inv p \<and> glink_used p + 16 \<le> unat (gp_length p))"

definition glink_space :: "glink_smem_pipe \<Rightarrow> nat" where
  "glink_space p = unat (glink_smem_tx_avail p)"

definition glink_msg :: "byte list \<Rightarrow> bool" where
  "glink_msg ys = (ys \<noteq> [] \<and> length ys mod 8 = 0)"

definition glink_put :: "byte list \<Rightarrow> glink_smem_pipe \<Rightarrow> glink_smem_pipe" where
  "glink_put ys p = (case glink_smem_tx_write p ys [] of Some p' \<Rightarrow> p' | None \<Rightarrow> p)"

definition glink_get :: "nat \<Rightarrow> glink_smem_pipe \<Rightarrow> byte list \<times> glink_smem_pipe" where
  "glink_get n p = (case glink_smem_rx_peek p (replicate n 0) 0 (of_nat n) of
     Some d \<Rightarrow> (d, glink_smem_rx_advance p (of_nat n))
   | None \<Rightarrow> ([], p))"

lemma glink_put_laws:
  assumes "glink_ok p" "glink_msg ys" "length ys \<le> glink_space p"
  shows "glink_contents (glink_put ys p) = glink_contents p @ ys" and "glink_ok (glink_put ys p)"
    and "glink_space (glink_put ys p) = glink_space p - length ys"
proof -
  have inv: "glink_inv p" and u: "glink_used p + 16 \<le> unat (gp_length p)"
    using assms(1) by (auto simp: glink_ok_def)
  obtain fifo where f: "gp_fifo p = Some fifo" using inv by (auto simp: glink_inv_def split: option.splits)
  have L: "unat (gp_length p) = length fifo" using inv f by (simp add: glink_inv_def)
  have pad: "pad8 (length ys) = length ys" using assms(2) by (intro pad8_laws(4)) (auto simp: glink_msg_def)
  have fit: "glink_used p + length ys + 16 \<le> length fifo"
    using assms(3) u L glink_tx_avail_used [OF inv] by (simp add: glink_space_def)
  obtain p' where p': "glink_smem_tx_write p ys [] = Some p'" "glink_inv p'" "gp_length p' = gp_length p"
    "glink_used p' = glink_used p + length ys" "take (glink_used p + length ys) (glink_contents p') = glink_contents p @ ys"
    using glink_tx_write_ok [OF inv f, of ys "[]"] fit pad by auto
  then have e: "glink_put ys p = p'" by (simp add: glink_put_def)
  show "glink_contents (glink_put ys p) = glink_contents p @ ys"
    using p' length_glink_contents [OF p'(2)] e by simp
  show "glink_ok (glink_put ys p)" using p' fit L e by (simp add: glink_ok_def)
  show "glink_space (glink_put ys p) = glink_space p - length ys"
    using p' L fit e by (simp add: glink_space_def glink_tx_avail_used inv)
qed

lemma glink_get_laws:
  assumes "glink_ok p" "0 < n" "n \<le> length (glink_contents p)"
  shows "fst (glink_get n p) = take n (glink_contents p)"
    and "glink_contents (snd (glink_get n p)) = drop n (glink_contents p)"
    and "glink_ok (snd (glink_get n p))" and "glink_space (snd (glink_get n p)) = glink_space p + n"
proof -
  have inv: "glink_inv p" and u: "glink_used p + 16 \<le> unat (gp_length p)"
    using assms(1) by (auto simp: glink_ok_def)
  obtain fifo where f: "gp_fifo p = Some fifo" using inv by (auto simp: glink_inv_def split: option.splits)
  have L: "unat (gp_length p) = length fifo" "length fifo < 2 ^ 31" using inv f by (simp_all add: glink_inv_def)
  have n: "n \<le> glink_used p" using assms(3) length_glink_contents [OF inv] by simp
  then have w: "unat (of_nat n :: u64) = n" using u L by (simp add: unat_of_nat)
  have get: "glink_get n p = (ring_get fifo (unat (gp_tail p)) n, glink_smem_rx_advance p (of_nat n))"
    using glink_rx_peek_ok [OF inv f, of 0 "of_nat n" "replicate n 0"] n w by (simp add: glink_get_def buf_put_def)
  note adv = glink_rx_advance_ok [OF inv, of "of_nat n", unfolded w, OF n]
  have len: "gp_length (glink_smem_rx_advance p (of_nat n)) = gp_length p" by (simp add: glink_smem_rx_advance_def Let_def)
  show "fst (glink_get n p) = take n (glink_contents p)"
    using n f by (simp add: get glink_contents_def take_ring_get)
  show "glink_contents (snd (glink_get n p)) = drop n (glink_contents p)" using adv by (simp add: get)
  show "glink_ok (snd (glink_get n p))" using adv u len by (simp add: get glink_ok_def)
  show "glink_space (snd (glink_get n p)) = glink_space p + n"
    using adv u n len by (simp add: get glink_space_def glink_tx_avail_used inv)
qed

interpretation glink: byte_fifo glink_ok glink_contents glink_space glink_msg glink_put glink_get
  by unfold_locales (simp_all add: glink_put_laws glink_get_laws, simp add: glink_msg_def)

section \<open>Shared indices written by the other side\<close>

lemma tx_write_one_safe:
  assumes L: "unat plen = length fifo" "length fifo < 2 ^ 31" and d: "length data \<le> length fifo"
  shows "\<exists>head' fifo'. glink_smem_tx_write_one plen fifo head data = Some (head', fifo') \<and> length fifo' = length fifo"
proof (cases "plen < ucast head")
  case False
  let ?count = "of_nat (length data) :: u64"
  let ?len = "min ?count (plen - ucast head)"
  have h: "unat head \<le> length fifo" using False L by (simp add: word_nat)
  have c: "unat ?count = length data" using d L by (simp add: unat_of_nat)
  have "unat ?len = min (length data) (length fifo - unat head)"
    using L h c by (simp add: unat64_min unat64_minus)
  then show ?thesis
    using h d False by (auto simp: glink_smem_tx_write_one_def Let_def)
qed (simp add: glink_smem_tx_write_one_def)

lemma tx_write_shape:
  assumes f: "gp_fifo p = Some fifo" and L: "unat (gp_length p) = length fifo" "length fifo < 2 ^ 31"
    and w: "length hdr \<le> length fifo" "length data \<le> length fifo"
  shows "\<exists>h fifo'. glink_smem_tx_write p hdr data = Some (p\<lparr>gp_head := h, gp_fifo := Some fifo'\<rparr>) \<and> length fifo' = length fifo"
proof -
  obtain h1 f1 where one: "glink_smem_tx_write_one (gp_length p) fifo (gp_head p) hdr = Some (h1, f1)" "length f1 = length fifo"
    using tx_write_one_safe [OF L w(1)] by blast
  obtain h2 f2 where "glink_smem_tx_write_one (gp_length p) f1 h1 data = Some (h2, f2)" "length f2 = length fifo"
    using tx_write_one_safe [of "gp_length p" f1 data h1] L w(2) one(2) by auto
  then show ?thesis using f one(1) by (auto simp: glink_smem_tx_write_def Let_def)
qed

lemma rx_peek_safe:
  assumes f: "gp_fifo p = Some fifo" and L: "unat (gp_length p) = length fifo" "length fifo < 2 ^ 31"
    and n: "unat offset \<le> length fifo" "unat count \<le> length fifo"
  shows "glink_smem_rx_peek p data offset count \<noteq> None"
proof (cases "gp_length p < ucast (gp_tail p)")
  case False
  then have t0: "unat (gp_tail p) \<le> length fifo" using L by (simp add: word_nat)
  let ?t1 = "gp_tail p + offset"
  define t where "t = (if gp_length p \<le> ucast ?t1 then ucast (ucast ?t1 - gp_length p) else ?t1)"
  have "unat ?t1 = unat (gp_tail p) + unat offset" using L t0 n by (subst unat32_plus) auto
  then have t: "unat t \<le> length fifo"
    using t0 L n by (auto simp: t_def word_nat unat64_minus unat_down)
  define len where "len = min count (gp_length p - ucast t)"
  have len: "unat len = min (unat count) (length fifo - unat t)"
    using t L(1) by (simp add: len_def unat64_min unat64_minus)
  then have "unat (count - len) = unat count - unat len" by (intro unat64_minus) simp
  then show ?thesis
    using False f t len n unfolding glink_smem_rx_peek_def Let_def t_def [symmetric] len_def [symmetric] by auto
qed (simp add: glink_smem_rx_peek_def)

section \<open>Properties\<close>

text \<open>
  C11: a write of at most \<^verbatim>\<open>glink_smem_tx_avail\<close> bytes stores header and payload behind everything
  unread, followed by fewer than eight bytes of padding, keeps the invariant (so a full FIFO is
  never taken for an empty one), and still leaves room for an eight-byte command.
\<close>

theorem glink_tx_write_refines:
  assumes inv: "glink_inv p" and n: "0 < length hdr + length data"
    and fit: "length hdr + length data \<le> unat (glink_smem_tx_avail p)"
  shows "\<exists>p' pad. glink_smem_tx_write p hdr data = Some p' \<and> glink_inv p' \<and>
     glink_contents p' = glink_contents p @ hdr @ data @ pad \<and> length pad < 8 \<and>
     (\<forall>cmd. length cmd = 8 \<longrightarrow> (\<exists>q. glink_smem_tx_write p' cmd [] = Some q \<and> glink_inv q \<and>
        glink_contents q = glink_contents p' @ cmd))"
proof -
  let ?n = "length hdr + length data"
  obtain fifo where f: "gp_fifo p = Some fifo" using inv by (auto simp: glink_inv_def split: option.splits)
  have L: "unat (gp_length p) = length fifo" using inv f by (simp add: glink_inv_def)
  have u: "glink_used p + ?n + 16 \<le> length fifo" using fit n glink_tx_avail_used [OF inv] L by linarith
  then have "glink_used p + pad8 ?n < length fifo" using pad8_laws(2) [of ?n] by simp
  then obtain p' where p': "glink_smem_tx_write p hdr data = Some p'" "glink_inv p'" "gp_length p' = gp_length p"
    "glink_used p' = glink_used p + pad8 ?n" "take (glink_used p + length hdr + length data) (glink_contents p') = glink_contents p @ hdr @ data"
    using glink_tx_write_ok [OF inv f, of hdr data] by auto
  obtain fifo' where f': "gp_fifo p' = Some fifo'" using p'(2) by (auto simp: glink_inv_def split: option.splits)
  have L': "length fifo' = length fifo" using p'(2,3) f' L by (simp add: glink_inv_def)
  let ?pad = "drop (glink_used p + length hdr + length data) (glink_contents p')"
  have "glink_contents p' = glink_contents p @ hdr @ data @ ?pad"
    using append_take_drop_id [of "glink_used p + length hdr + length data" "glink_contents p'"] p'(5) by simp
  moreover have "length ?pad < 8"
    using length_glink_contents [OF p'(2)] p'(4) pad8_laws(2) [of ?n] by simp
  moreover have "\<exists>q. glink_smem_tx_write p' cmd [] = Some q \<and> glink_inv q \<and> glink_contents q = glink_contents p' @ cmd"
    if c: "length cmd = 8" for cmd
  proof -
    have pc: "pad8 (length cmd) = 8" using c by (simp add: pad8_def)
    then have "glink_used p' + pad8 (length cmd + length ([] :: byte list)) < length fifo'"
      using u p'(4) pad8_laws(2) [of ?n] L' by simp
    then obtain q where "glink_smem_tx_write p' cmd [] = Some q" "glink_inv q" "glink_used q = glink_used p' + 8"
      "take (glink_used p' + 8) (glink_contents q) = glink_contents p' @ cmd"
      using glink_tx_write_ok [OF p'(2) f', of cmd "[]"] c pc by auto
    with length_glink_contents [of q] show ?thesis by auto
  qed
  ultimately show ?thesis using p' by blast
qed

definition glink_empty :: glink_smem_pipe where
  "glink_empty = \<lparr>gp_length = 32, gp_tail = 24, gp_head = 24, gp_fifo = Some (replicate 32 0)\<rparr>"

lemma glink_empty_laws: "glink_inv glink_empty" "glink_ok glink_empty" "glink_space glink_empty = 16" "glink_contents glink_empty = []"
proof -
  show i: "glink_inv glink_empty" by (simp add: glink_inv_def glink_empty_def)
  show "glink_ok glink_empty" using i by (simp add: glink_ok_def glink_used_def glink_empty_def)
  show "glink_space glink_empty = 16"
    using glink_tx_avail_used [OF i] by (simp add: glink_space_def glink_used_def glink_empty_def)
  show "glink_contents glink_empty = []" by (simp add: glink_contents_def glink_used_def glink_empty_def)
qed

theorem glink_tx_write_refines_witness:
  "\<exists>p' pad. glink_smem_tx_write glink_empty [1, 2, 3, 4] [5, 6, 7, 8, 9] = Some p' \<and>
     glink_contents p' = [1, 2, 3, 4] @ [5, 6, 7, 8, 9] @ pad \<and> length pad < 8"
  using glink_tx_write_refines [OF glink_empty_laws(1), of "[1, 2, 3, 4]" "[5, 6, 7, 8, 9]"] glink_empty_laws(3,4)
  by (auto simp: glink_space_def)

text \<open>
  C26: messages of whole eight-byte words that fit into an empty FIFO are read back whole, in order
  and unchanged by peek and advance, across the end of the ring, and their space is free again.
\<close>

theorem glink_fifo:
  assumes "glink_ok p" "glink_contents p = []" "\<forall>m \<in> set ms. glink_msg m" "length (concat ms) \<le> glink_space p"
  shows "fst (reads glink_get (map length ms) (fold glink_put ms p)) = ms \<and>
     glink_contents (snd (reads glink_get (map length ms) (fold glink_put ms p))) = [] \<and>
     glink_space (snd (reads glink_get (map length ms) (fold glink_put ms p))) = glink_space p"
  by (rule glink.fifo_delivery [OF assms])

theorem glink_fifo_witness:
  "fst (reads glink_get [8, 8] (fold glink_put [[1, 2, 3, 4, 5, 6, 7, 8], [9, 10, 11, 12, 13, 14, 15, 16]] glink_empty)) =
     [[1, 2, 3, 4, 5, 6, 7, 8], [9, 10, 11, 12, 13, 14, 15, 16]]"
proof -
  let ?ms = "[[1, 2, 3, 4, 5, 6, 7, 8], [9, 10, 11, 12, 13, 14, 15, 16]] :: byte list list"
  have ml: "map length ?ms = [8, 8]" by simp
  have "length (concat ?ms) \<le> glink_space glink_empty" "\<forall>m \<in> set ?ms. glink_msg m"
    by (simp_all add: glink_msg_def glink_empty_laws)
  from glink_fifo [OF glink_empty_laws(2,4) this(2,1), unfolded ml] show ?thesis by blast
qed

text \<open>
  The two availability counts complement each other: the reader sees the bytes in the FIFO, the
  writer the rest of it minus the sixteen reserved bytes.
\<close>

theorem glink_avail_complement:
  assumes "glink_inv p"
  shows "unat (fst (glink_smem_rx_avail g p)) = length (glink_contents p) \<and> snd (glink_smem_rx_avail g p) = p \<and>
     unat (glink_smem_tx_avail p) = unat (gp_length p) - length (glink_contents p) - 16"
  using glink_rx_avail_used [OF assms] glink_tx_avail_used [OF assms] length_glink_contents [OF assms] by simp

theorem glink_avail_complement_witness:
  "unat (fst (glink_smem_rx_avail (Inl EIO) glink_empty)) = 0 \<and> unat (glink_smem_tx_avail glink_empty) = 16"
  using glink_avail_complement [OF glink_empty_laws(1), of "Inl EIO"] by (simp add: glink_empty_laws) (simp add: glink_empty_def)

text \<open>
  C28: whatever head and tail the other processor has written, a write of a header and a payload no
  longer than the FIFO, and a peek of bytes that \<^verbatim>\<open>glink_smem_rx_avail\<close> reports, stay inside the
  FIFO.
\<close>

theorem glink_peer_safe:
  assumes f: "gp_fifo p = Some fifo" and L: "unat (gp_length p) = length fifo" "length fifo < 2 ^ 31"
    and w: "length hdr \<le> length fifo" "length data \<le> length fifo"
    and r: "unat offset + unat count \<le> unat (fst (glink_smem_rx_avail g p))"
  shows "glink_smem_tx_write p hdr data \<noteq> None \<and> glink_smem_rx_peek p dst offset count \<noteq> None"
proof -
  have "glink_smem_tx_write p hdr data \<noteq> None" using tx_write_shape [OF f L w] by auto
  moreover have "unat (fst (glink_smem_rx_avail g p)) \<le> length fifo"
    using f L by (auto simp: glink_smem_rx_avail_def Let_def word_nat)
  ultimately show ?thesis using rx_peek_safe [OF f L] r by simp
qed

theorem glink_peer_safe_witness:
  "glink_smem_tx_write (glink_empty\<lparr>gp_head := 0xFFFFFFFC\<rparr>) [1] [2] \<noteq> None \<and>
   glink_smem_rx_peek (glink_empty\<lparr>gp_head := 0xFFFFFFFC\<rparr>) [0] 0 0 \<noteq> None"
  using glink_peer_safe [of "glink_empty\<lparr>gp_head := 0xFFFFFFFC\<rparr>" "replicate 32 0" "[1]" "[2]" 0 0 "Inl EIO" "[0]"]
  by (simp add: glink_empty_def)

end
