(* ===== verification/Memory.thy ===== *)
theory Memory
  imports Prelude
begin

text \<open>
  A byte-addressed 64-bit memory for the code that works with pointers into mapped regions.  Reads
  and writes are little-endian; the lemmas say when a write is seen by a read, in terms of the
  addresses as natural numbers.
\<close>

type_synonym mem = "u64 \<Rightarrow> byte"

definition mrd :: "mem \<Rightarrow> u64 \<Rightarrow> nat \<Rightarrow> byte list" where
  "mrd m a n = map (\<lambda>k. m (a + of_nat k)) [0..<n]"

definition mwr :: "mem \<Rightarrow> u64 \<Rightarrow> byte list \<Rightarrow> mem" where
  "mwr m a bs = (\<lambda>x. if unat (x - a) < length bs then bs ! unat (x - a) else m x)"

definition rd16 :: "mem \<Rightarrow> u64 \<Rightarrow> u16" where
  "rd16 m a = of_nat (le_to_nat (mrd m a 2))"

definition rd32 :: "mem \<Rightarrow> u64 \<Rightarrow> u32" where
  "rd32 m a = of_nat (le_to_nat (mrd m a 4))"

definition wr16 :: "mem \<Rightarrow> u64 \<Rightarrow> u16 \<Rightarrow> mem" where
  "wr16 m a v = mwr m a (nat_to_le 2 (unat v))"

definition wr32 :: "mem \<Rightarrow> u64 \<Rightarrow> u32 \<Rightarrow> mem" where
  "wr32 m a v = mwr m a (nat_to_le 4 (unat v))"

lemma length_mrd [simp]: "length (mrd m a n) = n"
  by (simp add: mrd_def)

lemma unat64_lt: "unat (a :: u64) < 2 ^ 64"
  by (rule order.strict_trans2 [OF unsigned_less]) simp

lemma unat_plus_nat: "unat (a :: u64) + k < 2 ^ 64 \<Longrightarrow> unat (a + of_nat k) = unat a + k"
  by (subst unat64_plus) (auto simp: unat_of_nat)

lemma unat_minus_wrap:
  fixes a b :: u64
  assumes "unat b < unat a"
  shows "unat (b - a) = 2 ^ 64 + unat b - unat a"
proof -
  let ?d = "b - a"
  have "unat (?d + a) = (unat ?d + unat a) mod 2 ^ 64" by (simp only: unat_word_ariths) simp
  then have b: "unat b = (unat ?d + unat a) mod 2 ^ 64" by simp
  have "unat ?d + unat a < 2 ^ 64 + 2 ^ 64" using unat64_lt [of ?d] unat64_lt [of a] by linarith
  moreover have "(x :: nat) mod l = (if x < l then x else x - l)" if "x < l + l" for x l
    using that by (simp add: le_mod_geq)
  ultimately have "(unat ?d + unat a) mod 2 ^ 64 = (if unat ?d + unat a < 2 ^ 64 then unat ?d + unat a else unat ?d + unat a - 2 ^ 64)"
    by blast
  with b assms show ?thesis by (simp split: if_splits)
qed

lemma mwr_outside:
  assumes "unat a + length bs \<le> 2 ^ 64" "unat x < unat a \<or> unat a + length bs \<le> unat x"
  shows "mwr m a bs x = m x"
proof (cases "unat x < unat a")
  case True
  then have "unat (x - a) = 2 ^ 64 + unat x - unat a" by (rule unat_minus_wrap)
  then have "\<not> unat (x - a) < length bs" using assms(1) True by linarith
  then show ?thesis by (simp add: mwr_def)
next
  case False
  then have "unat (x - a) = unat x - unat a" by (simp add: unat64_minus)
  then have "\<not> unat (x - a) < length bs" using assms False by linarith
  then show ?thesis by (simp add: mwr_def)
qed

lemma mwr_inside:
  assumes "unat a \<le> unat x" "unat x < unat a + length bs"
  shows "mwr m a bs x = bs ! (unat x - unat a)"
proof -
  have "unat (x - a) = unat x - unat a" using assms by (simp add: unat64_minus)
  moreover from this have "unat (x - a) < length bs" using assms by linarith
  ultimately show ?thesis by (simp add: mwr_def)
qed

text \<open>A read that a write does not touch, and a read inside a write.\<close>

lemma mrd_mwr_other:
  assumes "unat a + length bs \<le> 2 ^ 64" "unat b + n < 2 ^ 64" "unat b + n \<le> unat a \<or> unat a + length bs \<le> unat b"
  shows "mrd (mwr m a bs) b n = mrd m b n"
proof -
  have "mwr m a bs (b + of_nat k) = m (b + of_nat k)" if "k < n" for k
    using assms that unat_plus_nat [of b k] by (intro mwr_outside) auto
  then show ?thesis by (simp add: mrd_def)
qed

lemma mrd_mwr_same:
  assumes "unat a \<le> unat b" "unat b + n \<le> unat a + length bs" "unat a + length bs < 2 ^ 64"
  shows "mrd (mwr m a bs) b n = buf_get bs (unat b - unat a) n"
proof (rule nth_equalityI)
  fix k assume k: "k < length (mrd (mwr m a bs) b n)"
  then have "unat (b + of_nat k) = unat b + k" using assms unat_plus_nat [of b k] by simp
  then show "mrd (mwr m a bs) b n ! k = buf_get bs (unat b - unat a) n ! k"
    using assms k by (simp add: mrd_def nth_buf_get mwr_inside [of a "b + of_nat k" bs])
qed (use assms in simp)

lemma rd16_wr16_same: "unat a + 2 < 2 ^ 64 \<Longrightarrow> rd16 (wr16 m a v) a = v"
proof -
  assume "unat a + 2 < 2 ^ 64"
  then have "mrd (mwr m a (nat_to_le 2 (unat v))) a 2 = nat_to_le 2 (unat v)"
    by (subst mrd_mwr_same) (auto simp: buf_get_def)
  moreover have "unat v < 256 ^ 2" by (rule order.strict_trans2 [OF unsigned_less]) simp
  ultimately show ?thesis by (simp only: rd16_def wr16_def le_roundtrip) simp
qed

lemma rd32_wr32_same: "unat a + 4 < 2 ^ 64 \<Longrightarrow> rd32 (wr32 m a v) a = v"
proof -
  assume "unat a + 4 < 2 ^ 64"
  then have "mrd (mwr m a (nat_to_le 4 (unat v))) a 4 = nat_to_le 4 (unat v)"
    by (subst mrd_mwr_same) (auto simp: buf_get_def)
  moreover have "unat v < 256 ^ 4" by (rule order.strict_trans2 [OF unsigned_less]) simp
  ultimately show ?thesis by (simp only: rd32_def wr32_def le_roundtrip) simp
qed

text \<open>Reads of one field after the write of another.\<close>

definition apart :: "u64 \<Rightarrow> nat \<Rightarrow> u64 \<Rightarrow> nat \<Rightarrow> bool" where
  "apart a k b n = (unat a + k \<le> 2 ^ 64 \<and> unat b + n < 2 ^ 64 \<and> (unat b + n \<le> unat a \<or> unat a + k \<le> unat b))"

lemma rd_wr_other:
  "apart a 2 b 2 \<Longrightarrow> rd16 (wr16 m a v) b = rd16 m b"
  "apart a 4 b 2 \<Longrightarrow> rd16 (wr32 m a w) b = rd16 m b"
  "apart a 2 b 4 \<Longrightarrow> rd32 (wr16 m a v) b = rd32 m b"
  "apart a 4 b 4 \<Longrightarrow> rd32 (wr32 m a w) b = rd32 m b"
  by (simp_all add: rd16_def rd32_def wr16_def wr32_def apart_def mrd_mwr_other)

lemma wr_outside:
  "unat a + 2 \<le> 2 ^ 64 \<Longrightarrow> unat x < unat a \<or> unat a + 2 \<le> unat x \<Longrightarrow> wr16 m a v x = m x"
  "unat a + 4 \<le> 2 ^ 64 \<Longrightarrow> unat x < unat a \<or> unat a + 4 \<le> unat x \<Longrightarrow> wr32 m a w x = m x"
  by (simp_all add: wr16_def wr32_def mwr_outside)

text \<open>Reads depend only on the bytes they cover.\<close>

lemma mrd_cong: "unat b + n < 2 ^ 64 \<Longrightarrow> (\<And>x. unat b \<le> unat x \<Longrightarrow> unat x < unat b + n \<Longrightarrow> m x = m' x) \<Longrightarrow> mrd m b n = mrd m' b n"
  by (auto simp: mrd_def unat_plus_nat)

end
