(* ===== verification/Heap_Spec.thy ===== *)
theory Heap_Spec
  imports Prelude
begin

text \<open>
  The contract of a heap of numbered items, as the shared-memory driver offers it: an item is
  allocated once with a size, is found from then on, and no later allocation changes what a lookup
  of another item returns.
\<close>

locale item_heap =
  fixes invar :: "'s \<Rightarrow> bool"
    and valid :: "'s \<Rightarrow> u32 \<Rightarrow> u64 \<Rightarrow> bool"
    and space :: "'s \<Rightarrow> nat"
    and cost granted :: "u64 \<Rightarrow> nat"
    and alloc :: "'s \<Rightarrow> u32 \<Rightarrow> u64 \<Rightarrow> (errno + unit) \<times> 's"
    and get :: "'s \<Rightarrow> u32 \<Rightarrow> errno + u64 \<times> u64"
  assumes alloc_ok: "invar s \<Longrightarrow> valid s i n \<Longrightarrow> isl (get s i) \<Longrightarrow> cost n \<le> space s \<Longrightarrow> fst (alloc s i n) = Inr ()"
    and alloc_invar: "invar s \<Longrightarrow> valid s i n \<Longrightarrow> isl (get s i) \<Longrightarrow> cost n \<le> space s \<Longrightarrow> invar (snd (alloc s i n))"
    and alloc_space: "invar s \<Longrightarrow> valid s i n \<Longrightarrow> isl (get s i) \<Longrightarrow> cost n \<le> space s \<Longrightarrow>
      space (snd (alloc s i n)) = space s - cost n"
    and alloc_get: "invar s \<Longrightarrow> valid s i n \<Longrightarrow> isl (get s i) \<Longrightarrow> cost n \<le> space s \<Longrightarrow>
      \<exists>p q. get (snd (alloc s i n)) i = Inr (p, q) \<and> unat q = granted n"
    and alloc_other: "invar s \<Longrightarrow> valid s i n \<Longrightarrow> isl (get s i) \<Longrightarrow> cost n \<le> space s \<Longrightarrow>
      valid s j k \<Longrightarrow> j \<noteq> i \<Longrightarrow> get (snd (alloc s i n)) j = get s j"
    and alloc_valid: "invar s \<Longrightarrow> valid s i n \<Longrightarrow> isl (get s i) \<Longrightarrow> cost n \<le> space s \<Longrightarrow>
      valid (snd (alloc s i n)) j k = valid s j k"
    and alloc_dup: "invar s \<Longrightarrow> valid s i n \<Longrightarrow> \<not> isl (get s i) \<Longrightarrow> alloc s i n = (Inl EEXIST, s)"
begin

text \<open>Allocating a list of items one after the other.\<close>

lemma alloc_all:
  assumes "invar s" "distinct (map fst rs)" "\<forall>(i, n) \<in> set rs. valid s i n \<and> isl (get s i)"
    and "sum_list (map (\<lambda>r. cost (snd r)) rs) \<le> space s"
  defines "step \<equiv> \<lambda>(i, n) s. snd (alloc s i n)"
  shows "invar (fold step rs s) \<and> space (fold step rs s) = space s - sum_list (map (\<lambda>r. cost (snd r)) rs) \<and>
     (\<forall>(i, n) \<in> set rs. \<exists>p q. get (fold step rs s) i = Inr (p, q) \<and> unat q = granted n) \<and>
     (\<forall>j k. valid s j k \<longrightarrow> j \<notin> fst ` set rs \<longrightarrow> get (fold step rs s) j = get s j)"
  using assms(1-4)
proof (induction rs arbitrary: s)
  case (Cons r rs)
  obtain i n where r: "r = (i, n)" by (cases r)
  have v: "valid s i n" "isl (get s i)" "cost n \<le> space s" using Cons.prems by (auto simp: r)
  note a = alloc_invar [OF Cons.prems(1) v] alloc_space [OF Cons.prems(1) v] alloc_get [OF Cons.prems(1) v]
    alloc_other [OF Cons.prems(1) v] alloc_valid [OF Cons.prems(1) v]
  define s1 where "s1 = snd (alloc s i n)"
  have d: "i \<notin> fst ` set rs" "distinct (map fst rs)" using Cons.prems(2) by (auto simp: r)
  have p: "\<forall>(j, k) \<in> set rs. valid s1 j k \<and> isl (get s1 j)"
  proof (intro ballI, clarify)
    fix j k assume j: "(j, k) \<in> set rs"
    then have "j \<noteq> i" "valid s j k" "isl (get s j)" using d Cons.prems(3) by force+
    then show "valid s1 j k \<and> isl (get s1 j)" using a(4) [of j k] a(5) by (simp add: s1_def)
  qed
  have sp: "sum_list (map (\<lambda>r. cost (snd r)) rs) \<le> space s1" using Cons.prems(4) a(2) by (simp add: s1_def r)
  note IH = Cons.IH [OF a(1) [folded s1_def] d(2) p sp]
  have e: "fold step (r # rs) s = fold step rs s1" by (simp add: step_def r s1_def)
  obtain p q where "get s1 i = Inr (p, q)" "unat q = granted n" using a(3) by (auto simp: s1_def)
  then have "get (fold step rs s1) i = Inr (p, q)" using IH d(1) v(1) a(5) by (auto simp: s1_def)
  moreover have "get (fold step rs s1) j = get s j" if "valid s j k" "j \<notin> fst ` set (r # rs)" for j k
  proof -
    have j: "j \<noteq> i" "j \<notin> fst ` set rs" using that(2) by (auto simp: r)
    have "valid s1 j k" using that(1) a(5) by (simp add: s1_def)
    then have "get (fold step rs s1) j = get s1 j" using IH j(2) by blast
    also have "\<dots> = get s j" unfolding s1_def by (rule a(4) [OF that(1) j(1)])
    finally show ?thesis .
  qed
  ultimately show ?case
    unfolding e using IH a(2) \<open>unat q = granted n\<close> by (auto simp: r s1_def)
qed simp

end

text \<open>
  What a client may rely on when it stores into its items: items lie apart, a store inside an item
  keeps the heap and every lookup, and a read sees the last store to its bytes.
\<close>

locale item_store = item_heap invar valid space cost granted alloc get
  for invar :: "'s \<Rightarrow> bool" and valid space cost granted alloc get +
  fixes load :: "'s \<Rightarrow> u64 \<Rightarrow> nat \<Rightarrow> byte list"
    and store :: "'s \<Rightarrow> u64 \<Rightarrow> byte list \<Rightarrow> 's"
  assumes alloc_found: "invar s \<Longrightarrow> valid s i n \<Longrightarrow> isl (get s i) \<Longrightarrow> cost n \<le> space s \<Longrightarrow> get s j = Inr (p, q) \<Longrightarrow>
      get (snd (alloc s i n)) j = Inr (p, q)"
    and alloc_load: "invar s \<Longrightarrow> valid s i n \<Longrightarrow> isl (get s i) \<Longrightarrow> cost n \<le> space s \<Longrightarrow> get s j = Inr (p, q) \<Longrightarrow>
      load (snd (alloc s i n)) p (unat q) = load s p (unat q)"
    and item_bound: "invar s \<Longrightarrow> get s i = Inr (p, q) \<Longrightarrow> unat p + unat q < 2 ^ 64"
    and items_apart: "invar s \<Longrightarrow> get s i = Inr (p, q) \<Longrightarrow> get s j = Inr (p', q') \<Longrightarrow> i \<noteq> j \<Longrightarrow>
      unat p + unat q \<le> unat p' \<or> unat p' + unat q' \<le> unat p"
    and store_invar: "invar s \<Longrightarrow> get s i = Inr (p, q) \<Longrightarrow> unat p \<le> unat a \<Longrightarrow> unat a + length bs \<le> unat p + unat q \<Longrightarrow>
      invar (store s a bs)"
    and store_get: "invar s \<Longrightarrow> get s i = Inr (p, q) \<Longrightarrow> unat p \<le> unat a \<Longrightarrow> unat a + length bs \<le> unat p + unat q \<Longrightarrow>
      get (store s a bs) j = get s j"
    and load_store: "unat a + length bs < 2 ^ 64 \<Longrightarrow> load (store s a bs) a (length bs) = bs"
    and load_other: "unat a + length bs < 2 ^ 64 \<Longrightarrow> unat b + k < 2 ^ 64 \<Longrightarrow>
      unat b + k \<le> unat a \<or> unat a + length bs \<le> unat b \<Longrightarrow> load (store s a bs) b k = load s b k"
begin

text \<open>An item that is allocated unless it is there already.\<close>

lemma ensure_item:
  assumes "invar s" "valid s i n" "isl (get s i) \<Longrightarrow> cost n \<le> space s"
  defines "t \<equiv> snd (alloc s i n)"
  shows "fst (alloc s i n) = (if isl (get s i) then Inr () else Inl EEXIST)" "invar t"
    "space t = space s - (if isl (get s i) then cost n else 0)"
    "\<exists>p q. get t i = Inr (p, q) \<and> (if isl (get s i) then unat q = granted n else get s i = Inr (p, q))"
    "get s j = Inr (p, q) \<Longrightarrow> get t j = Inr (p, q) \<and> load t p (unat q) = load s p (unat q)"
    "valid s j k \<Longrightarrow> j \<noteq> i \<Longrightarrow> get t j = get s j" "valid t j k = valid s j k"
proof -
  consider (new) "isl (get s i)" "cost n \<le> space s" | (old) p q where "get s i = Inr (p, q)" "alloc s i n = (Inl EEXIST, s)"
    using assms(3) alloc_dup [OF assms(1,2)] by (cases "get s i") auto
  note c = this
  show "fst (alloc s i n) = (if isl (get s i) then Inr () else Inl EEXIST)" "invar t"
    "space t = space s - (if isl (get s i) then cost n else 0)" "valid t j k = valid s j k"
    using c assms(1,2) by (cases; simp add: t_def alloc_ok alloc_invar alloc_space alloc_valid)+
  show "\<exists>p q. get t i = Inr (p, q) \<and> (if isl (get s i) then unat q = granted n else get s i = Inr (p, q))"
    using c alloc_get [OF assms(1,2)] by (cases; simp add: t_def)
  show "get t j = get s j" if "valid s j k" "j \<noteq> i"
    using c alloc_other [OF assms(1,2) _ _ that] by (cases; simp add: t_def)
  show "get t j = Inr (p, q) \<and> load t p (unat q) = load s p (unat q)" if "get s j = Inr (p, q)"
    using c alloc_found [OF assms(1,2) _ _ that] alloc_load [OF assms(1,2) _ _ that] that by (cases; simp add: t_def)
qed

text \<open>A store inside one item leaves all bytes of every other item as they are.\<close>

lemma item_isolated:
  assumes "invar s" "get s i = Inr (p, q)" "unat p \<le> unat a" "unat a + length bs \<le> unat p + unat q"
    and "get s j = Inr (p', q')" "j \<noteq> i"
  shows "load (store s a bs) p' (unat q') = load s p' (unat q')"
  using items_apart [OF assms(1,2,5)] item_bound [OF assms(1,2)] item_bound [OF assms(1,5)] assms(3,4,6)
  by (intro load_other) auto

text \<open>A payload stored in one item and an index published in another: the way a queue is filled.\<close>

definition publish :: "'s \<Rightarrow> u64 \<Rightarrow> byte list \<Rightarrow> u64 \<Rightarrow> byte list \<Rightarrow> 's" where
  "publish s a bs b cs = store (store s a bs) b cs"

lemma publish_laws:
  assumes "invar s" "get s i = Inr (p, q)" "unat p \<le> unat a" "unat a + length bs \<le> unat p + unat q"
    and "get s j = Inr (p', q')" "unat p' \<le> unat b" "unat b + length cs \<le> unat p' + unat q'" "i \<noteq> j"
  shows "invar (publish s a bs b cs)" "get (publish s a bs b cs) k = get s k"
    "load (publish s a bs b cs) a (length bs) = bs" "load (publish s a bs b cs) b (length cs) = cs"
    "get s k = Inr (r, l) \<Longrightarrow> k \<noteq> i \<Longrightarrow> k \<noteq> j \<Longrightarrow> load (publish s a bs b cs) r (unat l) = load s r (unat l)"
    "unat c + n < 2 ^ 64 \<Longrightarrow> unat c + n \<le> unat a \<or> unat a + length bs \<le> unat c \<Longrightarrow>
     unat c + n \<le> unat b \<or> unat b + length cs \<le> unat c \<Longrightarrow> load (publish s a bs b cs) c n = load s c n"
proof -
  define t where "t = store s a bs"
  have t: "invar t" "\<And>k. get t k = get s k"
    using store_invar [OF assms(1-4)] store_get [OF assms(1-4)] by (auto simp: t_def)
  have j: "get t j = Inr (p', q')" using t(2) assms(5) by simp
  note b = item_bound [OF assms(1,2)] item_bound [OF assms(1,5)]
  show "invar (publish s a bs b cs)" "get (publish s a bs b cs) k = get s k"
    using store_invar [OF t(1) j assms(6,7)] store_get [OF t(1) j assms(6,7)] t(2) by (auto simp: publish_def t_def)
  show "load (publish s a bs b cs) b (length cs) = cs"
    using b assms(7) by (simp add: publish_def load_store)
  have "load (publish s a bs b cs) a (length bs) = load t a (length bs)"
    unfolding publish_def t_def using b items_apart [OF assms(1,2,5,8)] assms(3,4,6,7) by (intro load_other) auto
  also have "\<dots> = bs" unfolding t_def using b assms(4) by (simp add: load_store)
  finally show "load (publish s a bs b cs) a (length bs) = bs" .
  show "load (publish s a bs b cs) r (unat l) = load s r (unat l)" if "get s k = Inr (r, l)" "k \<noteq> i" "k \<noteq> j"
    using item_isolated [OF t(1) j assms(6,7), of k r l] item_isolated [OF assms(1-4) that(1,2)] that t(2)
    by (simp add: publish_def t_def)
  show "load (publish s a bs b cs) c n = load s c n" if "unat c + n < 2 ^ 64"
    "unat c + n \<le> unat a \<or> unat a + length bs \<le> unat c" "unat c + n \<le> unat b \<or> unat b + length cs \<le> unat c"
    using that b assms(4,7) by (simp add: publish_def load_other)
qed

end

end
