(* ===== verification/Smem.thy ===== *)
theory Smem
  imports Memory Heap_Spec
begin

text \<open>
  The shared-memory heap (\<^verbatim>\<open>drivers/soc/qcom/smem.c\<close>): items in private partitions, linked by their
  headers, and items of the global heap, listed in a table of contents.  The shared regions are
  bytes of a 64-bit memory, since other processors can write them; the driver's own structures are
  records.  Pointer arithmetic is word arithmetic.
\<close>

unbundle bit_operations_syntax

section \<open>Constants and driver state\<close>

definition SMEM_ITEM_LAST_FIXED :: u32 where "SMEM_ITEM_LAST_FIXED = 8"
definition SMEM_ITEM_COUNT :: u32 where "SMEM_ITEM_COUNT = 512"
definition SMEM_HOST_APPS :: u32 where "SMEM_HOST_APPS = 0"
definition SMEM_GLOBAL_HOST :: u16 where "SMEM_GLOBAL_HOST = 0xfffe"
definition SMEM_HOST_COUNT :: u32 where "SMEM_HOST_COUNT = 25"
definition SMEM_PRIVATE_CANARY :: u16 where "SMEM_PRIVATE_CANARY = 0xa5a5"
definition AUX_BASE_MASK :: u32 where "AUX_BASE_MASK = 0xfffffffc"

definition IN_PARTITION_RANGE :: "u64 \<Rightarrow> u64 \<Rightarrow> u64 \<Rightarrow> u64 \<Rightarrow> bool" where
  "IN_PARTITION_RANGE p sz start fin = (start \<le> p \<and> p \<le> p + sz \<and> p + sz \<le> fin)"

record smem_partition =
  sp_virt_base :: u64
  sp_phys_base :: u64
  sp_cacheline :: u64
  sp_size :: u64

record smem_region =
  sr_aux_base :: u64
  sr_virt_base :: u64
  sr_size :: u64

record qcom_smem =
  sm_item_count :: u32
  sm_ptable :: u64
  sm_global_partition :: smem_partition
  sm_partitions :: "smem_partition list"
  sm_regions :: "smem_region list"

text \<open>The kernel's \<^verbatim>\<open>ALIGN\<close> at the width of \<^verbatim>\<open>size_t\<close>.\<close>

definition align64 :: "u64 \<Rightarrow> u64 \<Rightarrow> u64" where
  "align64 x a = (x + (a - 1)) AND NOT (a - 1)"

section \<open>Fields of the shared structures\<close>

text \<open>\<^verbatim>\<open>struct smem_partition_header\<close> is 32 bytes, \<^verbatim>\<open>struct smem_private_entry\<close> 16 bytes.\<close>

definition phdr_size :: "mem \<Rightarrow> u64 \<Rightarrow> u32" where "phdr_size m p = rd32 m (p + 8)"
definition phdr_free_uncached :: "mem \<Rightarrow> u64 \<Rightarrow> u32" where "phdr_free_uncached m p = rd32 m (p + 12)"
definition phdr_free_cached :: "mem \<Rightarrow> u64 \<Rightarrow> u32" where "phdr_free_cached m p = rd32 m (p + 16)"

definition pe_canary :: "mem \<Rightarrow> u64 \<Rightarrow> u16" where "pe_canary m e = rd16 m e"
definition pe_item :: "mem \<Rightarrow> u64 \<Rightarrow> u16" where "pe_item m e = rd16 m (e + 2)"
definition pe_size :: "mem \<Rightarrow> u64 \<Rightarrow> u32" where "pe_size m e = rd32 m (e + 4)"
definition pe_padding_data :: "mem \<Rightarrow> u64 \<Rightarrow> u16" where "pe_padding_data m e = rd16 m (e + 8)"
definition pe_padding_hdr :: "mem \<Rightarrow> u64 \<Rightarrow> u16" where "pe_padding_hdr m e = rd16 m (e + 10)"

definition phdr_to_last_uncached_entry :: "mem \<Rightarrow> u64 \<Rightarrow> u64" where
  "phdr_to_last_uncached_entry m p = p + ucast (phdr_free_uncached m p)"

definition phdr_to_first_cached_entry :: "mem \<Rightarrow> u64 \<Rightarrow> u64 \<Rightarrow> u64" where
  "phdr_to_first_cached_entry m p cacheline = p + ucast (phdr_size m p) - align64 16 cacheline"

definition phdr_to_last_cached_entry :: "mem \<Rightarrow> u64 \<Rightarrow> u64" where
  "phdr_to_last_cached_entry m p = p + ucast (phdr_free_cached m p)"

definition phdr_to_first_uncached_entry :: "u64 \<Rightarrow> u64" where
  "phdr_to_first_uncached_entry p = p + 32"

definition uncached_entry_next :: "mem \<Rightarrow> u64 \<Rightarrow> u64" where
  "uncached_entry_next m e = e + 16 + ucast (pe_padding_hdr m e) + ucast (pe_size m e)"

definition cached_entry_next :: "mem \<Rightarrow> u64 \<Rightarrow> u64 \<Rightarrow> u64" where
  "cached_entry_next m e cacheline = e - ucast (pe_size m e) - align64 16 cacheline"

definition uncached_entry_to_item :: "mem \<Rightarrow> u64 \<Rightarrow> u64" where
  "uncached_entry_to_item m e = e + 16 + ucast (pe_padding_hdr m e)"

definition cached_entry_to_item :: "mem \<Rightarrow> u64 \<Rightarrow> u64" where
  "cached_entry_to_item m e = e - ucast (pe_size m e)"

section \<open>Private partitions\<close>

text \<open>
  The two list walks.  A walk stops at the entry of the item, at a broken entry, or at the entry
  where the loop condition fails.
\<close>

datatype walk = Walk_Found u64 | Walk_Bad_Canary | Walk_Bad_Next | Walk_End u64

function uncached_walk :: "mem \<Rightarrow> u32 \<Rightarrow> u64 \<Rightarrow> u64 \<Rightarrow> walk" where
  "uncached_walk m item e fin =
     (if e < fin \<and> e + 16 < fin then
        if pe_canary m e \<noteq> SMEM_PRIVATE_CANARY then Walk_Bad_Canary
        else if ucast (pe_item m e) = item then Walk_Found e
        else let next_e = uncached_entry_next m e in
             if next_e \<le> e then Walk_Bad_Next else uncached_walk m item next_e fin
      else Walk_End e)"
  by pat_completeness auto
termination
  by (relation "measure (\<lambda>(_, _, e, fin). unat fin - unat e)") (auto simp: word_less_nat_alt word_le_nat_alt)

function cached_walk :: "mem \<Rightarrow> u64 \<Rightarrow> u32 \<Rightarrow> u64 \<Rightarrow> u64 \<Rightarrow> walk" where
  "cached_walk m cacheline item e fin =
     (if fin < e then
        if pe_canary m e \<noteq> SMEM_PRIVATE_CANARY then Walk_Bad_Canary
        else if ucast (pe_item m e) = item then Walk_Found e
        else let next_e = cached_entry_next m e cacheline in
             if e \<le> next_e then Walk_Bad_Next else cached_walk m cacheline item next_e fin
      else Walk_End e)"
  by pat_completeness auto
termination
  by (relation "measure (\<lambda>(_, _, _, e, _). unat e)") (auto simp: word_less_nat_alt word_le_nat_alt)

declare uncached_walk.simps [simp del] cached_walk.simps [simp del]

definition qcom_smem_alloc_private :: "mem \<Rightarrow> smem_partition \<Rightarrow> u32 \<Rightarrow> u64 \<Rightarrow> (errno + unit) \<times> mem" where
  "qcom_smem_alloc_private m part item sz =
     (let phdr = sp_virt_base part;
          p_end = phdr + sp_size part;
          fin = phdr_to_last_uncached_entry m phdr;
          cached = phdr_to_last_cached_entry m phdr
      in if \<not> IN_PARTITION_RANGE fin 0 phdr cached \<or> p_end < cached then (Inl EINVAL, m)
      else case uncached_walk m item (phdr_to_first_uncached_entry phdr) fin of
        Walk_Bad_Canary \<Rightarrow> (Inl EINVAL, m)
      | Walk_Found _ \<Rightarrow> (Inl EEXIST, m)
      | Walk_Bad_Next \<Rightarrow> (Inl EINVAL, m)
      | Walk_End hdr \<Rightarrow>
          if fin < hdr then (Inl EINVAL, m)
          else
            let alloc_size = 16 + align64 sz 8 in
            if cached < hdr + alloc_size then (Inl ENOSPC, m)
            else
              let m1 = wr16 m hdr SMEM_PRIVATE_CANARY;
                  m2 = wr16 m1 (hdr + 2) (ucast item);
                  m3 = wr32 m2 (hdr + 4) (ucast (align64 sz 8));
                  m4 = wr16 m3 (hdr + 8) (ucast (ucast (pe_size m3 hdr) - sz));
                  m5 = wr16 m4 (hdr + 10) 0;
                  m6 = wr32 m5 (phdr + 12) (phdr_free_uncached m5 phdr + ucast alloc_size)
              in (Inr (), m6))"

text \<open>The common tail of both branches of the lookup: size check and range check of one entry.\<close>

definition private_item :: "mem \<Rightarrow> smem_partition \<Rightarrow> u64 \<Rightarrow> u64 \<Rightarrow> u64 \<Rightarrow> u64 \<Rightarrow> errno + u64 \<times> u64" where
  "private_item m part e item_ptr lo hi =
     (let e_size = pe_size m e;
          padding_data = ucast (pe_padding_data m e) :: u32
      in if ucast e_size < sp_size part \<and> padding_data < e_size then
           let entry_size = ucast (e_size - padding_data) in
           if \<not> IN_PARTITION_RANGE item_ptr entry_size lo hi then Inl EINVAL
           else Inr (item_ptr, entry_size)
         else Inl EINVAL)"

definition qcom_smem_get_private :: "mem \<Rightarrow> smem_partition \<Rightarrow> u32 \<Rightarrow> errno + u64 \<times> u64" where
  "qcom_smem_get_private m part item =
     (let phdr = sp_virt_base part;
          p_end = phdr + sp_size part;
          uncached_end = phdr_to_last_uncached_entry m phdr;
          cached_end = phdr_to_last_cached_entry m phdr
      in if \<not> IN_PARTITION_RANGE uncached_end 0 phdr cached_end \<or> p_end < cached_end then Inl EINVAL
      else case uncached_walk m item (phdr_to_first_uncached_entry phdr) uncached_end of
        Walk_Bad_Canary \<Rightarrow> Inl EINVAL
      | Walk_Bad_Next \<Rightarrow> Inl EINVAL
      | Walk_Found e \<Rightarrow> private_item m part e (uncached_entry_to_item m e) e uncached_end
      | Walk_End e \<Rightarrow>
          if uncached_end < e then Inl EINVAL
          else if cached_end = p_end then Inl ENOENT
          else
            let c = phdr_to_first_cached_entry m phdr (sp_cacheline part) in
            if \<not> IN_PARTITION_RANGE cached_end 0 uncached_end p_end \<or> \<not> IN_PARTITION_RANGE c 16 cached_end p_end
            then Inl EINVAL
            else case cached_walk m (sp_cacheline part) item c cached_end of
              Walk_Bad_Canary \<Rightarrow> Inl EINVAL
            | Walk_Bad_Next \<Rightarrow> Inl EINVAL
            | Walk_Found e' \<Rightarrow> private_item m part e' (cached_entry_to_item m e') cached_end e'
            | Walk_End e' \<Rightarrow> if e' < phdr then Inl EINVAL else Inl ENOENT)"

section \<open>The global heap\<close>

text \<open>\<^verbatim>\<open>struct smem_header\<close>: free offset at 196, available bytes at 200, table of contents at 208.\<close>

definition toc_entry :: "u64 \<Rightarrow> u32 \<Rightarrow> u64" where "toc_entry header item = header + 208 + 16 * ucast item"
definition hd_free_offset :: "mem \<Rightarrow> u64 \<Rightarrow> u32" where "hd_free_offset m h = rd32 m (h + 196)"
definition hd_available :: "mem \<Rightarrow> u64 \<Rightarrow> u32" where "hd_available m h = rd32 m (h + 200)"
definition ge_allocated :: "mem \<Rightarrow> u64 \<Rightarrow> u32" where "ge_allocated m e = rd32 m e"
definition ge_offset :: "mem \<Rightarrow> u64 \<Rightarrow> u32" where "ge_offset m e = rd32 m (e + 4)"
definition ge_size :: "mem \<Rightarrow> u64 \<Rightarrow> u32" where "ge_size m e = rd32 m (e + 8)"
definition ge_aux_base :: "mem \<Rightarrow> u64 \<Rightarrow> u32" where "ge_aux_base m e = rd32 m (e + 12)"

definition qcom_smem_alloc_global :: "mem \<Rightarrow> qcom_smem \<Rightarrow> u32 \<Rightarrow> u64 \<Rightarrow> (errno + unit) \<times> mem" where
  "qcom_smem_alloc_global m smem item sz0 =
     (let header = sr_virt_base (sm_regions smem ! 0);
          entry = toc_entry header item
      in if ge_allocated m entry \<noteq> 0 then (Inl EEXIST, m)
      else
        let sz = align64 sz0 8 in
        if ucast (hd_available m header) < sz then (Inl ENOMEM, m)
        else
          let m1 = wr32 m (entry + 4) (hd_free_offset m header);
              m2 = wr32 m1 (entry + 8) (ucast sz);
              m3 = wr32 m2 entry 1;
              m4 = wr32 m3 (header + 196) (hd_free_offset m3 header + ucast sz);
              m5 = wr32 m4 (header + 200) (hd_available m4 header + ucast (- sz))
          in (Inr (), m5))"

fun get_global_loop :: "u32 \<Rightarrow> u32 \<Rightarrow> u32 \<Rightarrow> smem_region list \<Rightarrow> errno + u64 \<times> u64" where
  "get_global_loop aux_base e_size offset [] = Inl ENOENT"
| "get_global_loop aux_base e_size offset (region # regions) =
     (if ucast (sr_aux_base region) = aux_base \<or> aux_base = 0 then
        let entry_offset = ucast offset :: u64 in
        if sr_size region < ucast e_size + entry_offset then Inl EINVAL
        else Inr (sr_virt_base region + entry_offset, ucast e_size)
      else get_global_loop aux_base e_size offset regions)"

definition qcom_smem_get_global :: "mem \<Rightarrow> qcom_smem \<Rightarrow> u32 \<Rightarrow> errno + u64 \<times> u64" where
  "qcom_smem_get_global m smem item =
     (let entry = toc_entry (sr_virt_base (sm_regions smem ! 0)) item in
      if ge_allocated m entry = 0 then Inl ENXIO
      else get_global_loop (ge_aux_base m entry AND AUX_BASE_MASK) (ge_size m entry) (ge_offset m entry) (sm_regions smem))"

section \<open>The interface\<close>

text \<open>
  \<open>smem\<close> is the static \<^verbatim>\<open>__smem\<close>; \<open>lock\<close> is the outcome of taking the hardware spinlock.
\<close>

definition smem_part :: "qcom_smem \<Rightarrow> u32 \<Rightarrow> smem_partition option" where
  "smem_part smem host =
     (if host < SMEM_HOST_COUNT \<and> sp_virt_base (sm_partitions smem ! unat host) \<noteq> 0
      then Some (sm_partitions smem ! unat host)
      else if sp_virt_base (sm_global_partition smem) \<noteq> 0 then Some (sm_global_partition smem)
      else None)"

definition qcom_smem_alloc ::
  "errno option \<Rightarrow> qcom_smem option \<Rightarrow> mem \<Rightarrow> u32 \<Rightarrow> u32 \<Rightarrow> u64 \<Rightarrow> (errno + unit) \<times> mem" where
  "qcom_smem_alloc lock smem m host item sz =
     (case smem of None \<Rightarrow> (Inl EPROBE_DEFER, m)
      | Some s \<Rightarrow>
        if item < SMEM_ITEM_LAST_FIXED then (Inl EINVAL, m)
        else if sm_item_count s \<le> item then (Inl EINVAL, m)
        else case lock of Some e \<Rightarrow> (Inl e, m)
        | None \<Rightarrow>
          (case smem_part s host of
             Some part \<Rightarrow> qcom_smem_alloc_private m part item sz
           | None \<Rightarrow> qcom_smem_alloc_global m s item sz))"

definition qcom_smem_get :: "qcom_smem option \<Rightarrow> mem \<Rightarrow> u32 \<Rightarrow> u32 \<Rightarrow> errno + u64 \<times> u64" where
  "qcom_smem_get smem m host item =
     (case smem of None \<Rightarrow> Inl EPROBE_DEFER
      | Some s \<Rightarrow>
        if sm_item_count s \<le> item then Inl EINVAL
        else case smem_part s host of
          Some part \<Rightarrow> qcom_smem_get_private m part item
        | None \<Rightarrow> qcom_smem_get_global m s item)"

definition qcom_smem_get_free_space :: "qcom_smem option \<Rightarrow> mem \<Rightarrow> u32 \<Rightarrow> errno + u32" where
  "qcom_smem_get_free_space smem m host =
     (case smem of None \<Rightarrow> Inl EPROBE_DEFER
      | Some s \<Rightarrow>
        (case smem_part s host of
           Some part \<Rightarrow>
             let ret = phdr_free_cached m (sp_virt_base part) - phdr_free_uncached m (sp_virt_base part) in
             if ucast (sp_size part) < ret then Inl EINVAL else Inr ret
         | None \<Rightarrow>
             let ret = hd_available m (sr_virt_base (sm_regions s ! 0)) in
             if sr_size (sm_regions s ! 0) < ucast ret then Inl EINVAL else Inr ret))"

definition addr_in_range :: "u64 \<Rightarrow> u64 \<Rightarrow> u64 \<Rightarrow> bool" where
  "addr_in_range base sz addr = (base \<noteq> 0 \<and> base \<le> addr \<and> addr < base + sz)"

definition qcom_smem_virt_to_phys :: "qcom_smem \<Rightarrow> u64 \<Rightarrow> u64" where
  "qcom_smem_virt_to_phys smem p =
     (case find (\<lambda>part. addr_in_range (sp_virt_base part) (sp_size part) p)
             (take (unat SMEM_HOST_COUNT) (sm_partitions smem) @ [sm_global_partition smem]) of
        Some part \<Rightarrow> sp_phys_base part + (p - sp_virt_base part)
      | None \<Rightarrow>
        (case find (\<lambda>area. addr_in_range (sr_virt_base area) (sr_size area) p) (sm_regions smem) of
           Some area \<Rightarrow> sr_aux_base area + (p - sr_virt_base area)
         | None \<Rightarrow> 0))"

text \<open>The build information item: format at 0, identifier at 4, feature code at 176.\<close>

definition SMEM_HW_SW_BUILD_ID :: u32 where "SMEM_HW_SW_BUILD_ID = 137"

definition qcom_smem_get_soc_id :: "qcom_smem option \<Rightarrow> mem \<Rightarrow> errno + u32" where
  "qcom_smem_get_soc_id smem m =
     (case qcom_smem_get smem m (- 1) SMEM_HW_SW_BUILD_ID of
        Inl e \<Rightarrow> Inl e
      | Inr (info, _) \<Rightarrow> Inr (rd32 m (info + 4)))"

definition qcom_smem_get_feature_code :: "qcom_smem option \<Rightarrow> mem \<Rightarrow> errno + u32" where
  "qcom_smem_get_feature_code smem m =
     (case qcom_smem_get smem m (- 1) SMEM_HW_SW_BUILD_ID of
        Inl e \<Rightarrow> Inl e
      | Inr (info, _) \<Rightarrow>
          if rd32 m info < 16 then Inl EOPNOTSUPP
          else let raw_code = rd32 m (info + 176) in
               Inr (if 0xf1 + 0xf < raw_code then 0 else raw_code))"

definition qcom_smem_bust_hwspin_lock_by_host :: "(u32 \<Rightarrow> errno + unit) \<Rightarrow> u32 \<Rightarrow> errno + unit" where
  "qcom_smem_bust_hwspin_lock_by_host bust host =
     (if host = SMEM_HOST_APPS \<or> SMEM_HOST_COUNT \<le> host then Inl EINVAL else bust (host + 1))"

definition qcom_smem_is_available :: "qcom_smem option \<Rightarrow> bool" where
  "qcom_smem_is_available smem = (smem \<noteq> None)"


section \<open>Private partitions as lists of items\<close>

lemma unat_align64: "unat x + 7 < 2 ^ 64 \<Longrightarrow> unat (align64 x 8) = pad8 (unat x)"
proof -
  assume "unat x + 7 < 2 ^ 64"
  then have "unat (x + 7) = unat x + 7" by (subst unat64_plus) auto
  moreover have "align64 x 8 = (x + 7) AND NOT 7" by (simp add: align64_def)
  ultimately show ?thesis by (simp only: unat_and_not7 pad8_def)
qed

type_synonym entry = "u16 \<times> u32 \<times> u16"

text \<open>The entries between \<open>a\<close> and \<open>fin\<close>, each item with its padded size and the padding.\<close>

fun smem_entries :: "mem \<Rightarrow> u64 \<Rightarrow> entry list \<Rightarrow> u64 \<Rightarrow> bool" where
  "smem_entries m a [] fin = (a = fin)"
| "smem_entries m a ((it, s, pd) # es) fin =
     (pe_canary m a = SMEM_PRIVATE_CANARY \<and> pe_item m a = it \<and> pe_size m a = s \<and> pe_padding_data m a = pd \<and>
      pe_padding_hdr m a = 0 \<and> 8 \<le> unat s \<and> unat pd < 8 \<and> unat a + 16 + unat s \<le> unat fin \<and>
      smem_entries m (a + 16 + ucast s) es fin)"

fun entry_at :: "entry list \<Rightarrow> u32 \<Rightarrow> u64 \<Rightarrow> (u64 \<times> u32 \<times> u16) option" where
  "entry_at [] item a = None"
| "entry_at ((it, s, pd) # es) item a =
     (if ucast it = item then Some (a, s, pd) else entry_at es item (a + 16 + ucast s))"

lemma unat_add_num:
  "unat (a :: u64) + numeral k < 2 ^ 64 \<Longrightarrow> unat (a + numeral k) = unat a + numeral k"
  by (metis unat_plus_nat of_nat_numeral)

lemma entry_step:
  assumes "unat (a :: u64) + 16 + unat s \<le> unat (fin :: u64)"
  shows "unat (a + 16 + ucast (s :: u32)) = unat a + 16 + unat s"
proof -
  have "unat fin < 2 ^ 64" by (rule unat64_lt)
  then have "unat (a + 16) = unat a + 16" using assms by (intro unat_add_num) simp
  moreover have "unat (a + 16) + unat (ucast s :: u64) < 2 ^ 64" using calculation assms \<open>unat fin < 2 ^ 64\<close> by simp
  ultimately show ?thesis by (simp add: unat64_plus)
qed

lemma entries_le: "smem_entries m a es fin \<Longrightarrow> unat a \<le> unat fin"
  by (cases "(m, a, es, fin)" rule: smem_entries.cases) auto

lemma walk_entries:
  assumes "smem_entries m a es fin"
  shows "uncached_walk m item a fin = (case entry_at es item a of None \<Rightarrow> Walk_End fin | Some (e, _, _) \<Rightarrow> Walk_Found e)"
  using assms
proof (induction m a es fin rule: smem_entries.induct)
  case (1 m a fin)
  then show ?case by (simp add: uncached_walk.simps)
next
  case (2 m a it s pd es fin)
  then have a: "unat a + 16 + unat s \<le> unat fin" "8 \<le> unat s" by auto
  have "unat (a + 16) = unat a + 16" using a unat64_lt [of fin] by (intro unat_add_num) simp
  then have "a < fin \<and> a + 16 < fin" using a by (simp add: word_less_nat_alt)
  moreover have "\<not> uncached_entry_next m a \<le> a" "uncached_entry_next m a = a + 16 + ucast s"
    using 2 a entry_step [OF a(1)] by (simp_all add: uncached_entry_next_def word_le_nat_alt)
  ultimately show ?case
    using 2 by (subst uncached_walk.simps) (auto simp: Let_def)
qed

lemma entry_at_sound:
  assumes "smem_entries m a es fin" "entry_at es item a = Some (e, s, pd)"
  shows "pe_size m e = s \<and> pe_padding_data m e = pd \<and> pe_padding_hdr m e = 0 \<and> 8 \<le> unat s \<and> unat pd < 8 \<and>
     unat a \<le> unat e \<and> unat e + 16 + unat s \<le> unat fin"
  using assms
proof (induction m a es fin rule: smem_entries.induct)
  case (2 m a it s' pd' es fin)
  show ?case
  proof (cases "ucast it = item")
    case True
    then show ?thesis using 2 by auto
  next
    case False
    moreover have "unat (a + 16 + ucast s') = unat a + 16 + unat s'" using 2 entry_step by auto
    ultimately show ?thesis using 2 by auto
  qed
qed simp

lemma entry_at_append:
  "entry_at (es @ fs) item a = (case entry_at es item a of Some r \<Rightarrow> Some r
     | None \<Rightarrow> entry_at fs item (foldl (\<lambda>a (it, s, pd). a + 16 + ucast s) a es))"
  by (induction es item a rule: entry_at.induct) (auto split: option.splits)

lemma entries_end: "smem_entries m a es fin \<Longrightarrow> foldl (\<lambda>a (it, s, pd). a + 16 + ucast s) a es = fin"
  by (induction m a es fin rule: smem_entries.induct) auto

lemma entries_append:
  "smem_entries m a es mid \<Longrightarrow> smem_entries m mid [x] fin \<Longrightarrow> smem_entries m a (es @ [x]) fin"
proof (induction m a es mid rule: smem_entries.induct)
  case (2 m a it s pd es mid)
  then show ?case using entries_le [OF 2(3)] by (cases x) auto
qed simp

text \<open>The fields of an entry depend on its first twelve bytes.\<close>

lemma pe_cong:
  assumes "\<And>x. unat e \<le> unat x \<Longrightarrow> unat x < unat e + 12 \<Longrightarrow> m x = m' x" "unat e + 12 < 2 ^ 64"
  shows "pe_canary m e = pe_canary m' e" "pe_item m e = pe_item m' e" "pe_size m e = pe_size m' e"
    "pe_padding_data m e = pe_padding_data m' e" "pe_padding_hdr m e = pe_padding_hdr m' e"
proof -
  have u: "unat (e + 2) = unat e + 2" "unat (e + 4) = unat e + 4" "unat (e + 8) = unat e + 8" "unat (e + 10) = unat e + 10"
    by (rule unat_add_num, use assms(2) in simp)+
  show "pe_canary m e = pe_canary m' e" "pe_item m e = pe_item m' e" "pe_size m e = pe_size m' e"
    "pe_padding_data m e = pe_padding_data m' e" "pe_padding_hdr m e = pe_padding_hdr m' e"
    unfolding pe_canary_def pe_item_def pe_size_def pe_padding_data_def pe_padding_hdr_def rd16_def rd32_def
    using assms u by (auto intro!: mrd_cong [THEN arg_cong, of _ _ _ _ "\<lambda>b. of_nat (le_to_nat b)"])
qed

lemma entries_cong:
  assumes "smem_entries m a es fin" "\<And>x. unat a \<le> unat x \<Longrightarrow> unat x < unat fin \<Longrightarrow> m x = m' x"
  shows "smem_entries m' a es fin"
  using assms
proof (induction m a es fin rule: smem_entries.induct)
  case (2 m a it s pd es fin)
  then have a: "unat a + 16 + unat s \<le> unat fin" by simp
  have u: "unat (a + 16 + ucast s) = unat a + 16 + unat s" by (rule entry_step [OF a])
  have "unat a + 12 < 2 ^ 64" using a unat64_lt [of fin] by simp
  moreover have "m x = m' x" if "unat a \<le> unat x" "unat x < unat a + 12" for x
    using 2(3) that a by simp
  ultimately have "pe_canary m a = pe_canary m' a" "pe_item m a = pe_item m' a" "pe_size m a = pe_size m' a"
    "pe_padding_data m a = pe_padding_data m' a" "pe_padding_hdr m a = pe_padding_hdr m' a"
    using pe_cong [of a m m'] by blast+
  moreover have "smem_entries m' (a + 16 + ucast s) es fin"
    using 2 u by auto
  ultimately show ?case using 2(2) by simp
qed simp

text \<open>Writing an entry header: the five stores of the allocation.\<close>

definition entry_write :: "mem \<Rightarrow> u64 \<Rightarrow> u16 \<Rightarrow> u32 \<Rightarrow> u16 \<Rightarrow> mem" where
  "entry_write m h it s pd =
     wr16 (wr16 (wr32 (wr16 (wr16 m h SMEM_PRIVATE_CANARY) (h + 2) it) (h + 4) s) (h + 8) pd) (h + 10) 0"

lemma field_addr:
  assumes "unat (h :: u64) + 12 < 2 ^ 64"
  shows "unat (h + 2) = unat h + 2" "unat (h + 4) = unat h + 4" "unat (h + 8) = unat h + 8" "unat (h + 10) = unat h + 10"
  by (rule unat_add_num, use assms in simp)+

lemma entry_write_fields:
  assumes h: "unat h + 12 < 2 ^ 64"
  shows "pe_canary (entry_write m h it s pd) h = SMEM_PRIVATE_CANARY" "pe_item (entry_write m h it s pd) h = it"
    "pe_size (entry_write m h it s pd) h = s" "pe_padding_data (entry_write m h it s pd) h = pd"
    "pe_padding_hdr (entry_write m h it s pd) h = 0"
proof -
  note u = field_addr [OF h]
  have ap: "apart (h + 10) 2 (h + 8) 2" "apart (h + 10) 2 (h + 4) 4" "apart (h + 10) 2 (h + 2) 2" "apart (h + 10) 2 h 2"
    "apart (h + 8) 2 (h + 4) 4" "apart (h + 8) 2 (h + 2) 2" "apart (h + 8) 2 h 2" "apart (h + 4) 4 (h + 2) 2"
    "apart (h + 4) 4 h 2" "apart (h + 2) 2 h 2"
    unfolding apart_def u using h by simp_all
  have lim: "unat h + 2 < 2 ^ 64" "unat (h + 2) + 2 < 2 ^ 64" "unat (h + 4) + 4 < 2 ^ 64" "unat (h + 8) + 2 < 2 ^ 64"
    "unat (h + 10) + 2 < 2 ^ 64"
    unfolding u using h by simp_all
  show "pe_canary (entry_write m h it s pd) h = SMEM_PRIVATE_CANARY" "pe_item (entry_write m h it s pd) h = it"
    "pe_size (entry_write m h it s pd) h = s" "pe_padding_data (entry_write m h it s pd) h = pd"
    "pe_padding_hdr (entry_write m h it s pd) h = 0"
    unfolding pe_canary_def pe_item_def pe_size_def pe_padding_data_def pe_padding_hdr_def entry_write_def
    by (simp_all only: rd_wr_other ap rd16_wr16_same rd32_wr32_same lim)
qed

lemma entry_write_frame:
  assumes h: "unat h + 12 < 2 ^ 64" and x: "unat x < unat h \<or> unat h + 12 \<le> unat x"
  shows "entry_write m h it s pd x = m x"
proof -
  note u = field_addr [OF h]
  have "unat h + 2 \<le> 2 ^ 64" "unat (h + 2) + 2 \<le> 2 ^ 64" "unat (h + 4) + 4 \<le> 2 ^ 64" "unat (h + 8) + 2 \<le> 2 ^ 64"
    "unat (h + 10) + 2 \<le> 2 ^ 64"
    "unat x < unat h \<or> unat h + 2 \<le> unat x" "unat x < unat (h + 2) \<or> unat (h + 2) + 2 \<le> unat x"
    "unat x < unat (h + 4) \<or> unat (h + 4) + 4 \<le> unat x" "unat x < unat (h + 8) \<or> unat (h + 8) + 2 \<le> unat x"
    "unat x < unat (h + 10) \<or> unat (h + 10) + 2 \<le> unat x"
    unfolding u using h x by auto
  then show ?thesis unfolding entry_write_def by (simp only: wr_outside)
qed

text \<open>What the allocation stores, once every check has passed.\<close>

definition alloc_store :: "mem \<Rightarrow> smem_partition \<Rightarrow> u64 \<Rightarrow> u32 \<Rightarrow> u64 \<Rightarrow> mem" where
  "alloc_store m part h item sz =
     (let m5 = entry_write m h (ucast item) (ucast (align64 sz 8)) (ucast (ucast (ucast (align64 sz 8) :: u32) - sz)) in
      wr32 m5 (sp_virt_base part + 12) (phdr_free_uncached m5 (sp_virt_base part) + ucast (16 + align64 sz 8)))"

lemma alloc_private_eq:
  assumes h: "unat h + 12 < 2 ^ 64"
    and range: "IN_PARTITION_RANGE (phdr_to_last_uncached_entry m (sp_virt_base part)) 0 (sp_virt_base part)
        (phdr_to_last_cached_entry m (sp_virt_base part))"
      "phdr_to_last_cached_entry m (sp_virt_base part) \<le> sp_virt_base part + sp_size part"
    and walk: "uncached_walk m item (sp_virt_base part + 32) (phdr_to_last_uncached_entry m (sp_virt_base part)) = Walk_End h"
      "h \<le> phdr_to_last_uncached_entry m (sp_virt_base part)"
  shows "qcom_smem_alloc_private m part item sz =
     (if phdr_to_last_cached_entry m (sp_virt_base part) < h + (16 + align64 sz 8) then (Inl ENOSPC, m)
      else (Inr (), alloc_store m part h item sz))"
proof -
  let ?m3 = "wr32 (wr16 (wr16 m h SMEM_PRIVATE_CANARY) (h + 2) (ucast item)) (h + 4) (ucast (align64 sz 8))"
  have "pe_size ?m3 h = ucast (align64 sz 8)"
    unfolding pe_size_def by (rule rd32_wr32_same) (use h field_addr [OF h] in simp)
  moreover have "\<not> sp_virt_base part + sp_size part < phdr_to_last_cached_entry m (sp_virt_base part)"
    "\<not> phdr_to_last_uncached_entry m (sp_virt_base part) < h"
    using range(2) walk(2) by (simp_all add: not_less)
  ultimately show ?thesis
    using range(1) walk(1)
    by (simp add: qcom_smem_alloc_private_def Let_def phdr_to_first_uncached_entry_def alloc_store_def entry_write_def)
qed

text \<open>A well-formed partition holding the entries \<open>es\<close>.\<close>

definition smem_part_ok :: "mem \<Rightarrow> smem_partition \<Rightarrow> entry list \<Rightarrow> bool" where
  "smem_part_ok m part es =
     (let B = sp_virt_base part; free = phdr_free_uncached m B; cached = phdr_free_cached m B in
      unat B + unat (sp_size part) < 2 ^ 64 \<and> unat (sp_size part) < 2 ^ 32 \<and>
      32 \<le> unat free \<and> unat free \<le> unat cached \<and> unat cached \<le> unat (sp_size part) \<and>
      smem_entries m (B + 32) es (B + ucast free))"

definition part_space :: "mem \<Rightarrow> smem_partition \<Rightarrow> nat" where
  "part_space m part = unat (phdr_free_cached m (sp_virt_base part)) - unat (phdr_free_uncached m (sp_virt_base part))"

lemma part_ok_bounds:
  assumes "smem_part_ok m part es"
  defines "B \<equiv> sp_virt_base part"
  shows "unat (phdr_to_last_uncached_entry m B) = unat B + unat (phdr_free_uncached m B)"
    "unat (phdr_to_last_cached_entry m B) = unat B + unat (phdr_free_cached m B)"
    "unat (B + sp_size part) = unat B + unat (sp_size part)" "unat (B + 32) = unat B + 32"
    "unat (B + 12) = unat B + 12" "unat (B + 16) = unat B + 16"
    "smem_entries m (B + 32) es (phdr_to_last_uncached_entry m B)"
    "32 \<le> unat (phdr_free_uncached m B)" "unat (phdr_free_uncached m B) \<le> unat (phdr_free_cached m B)"
    "unat (phdr_free_cached m B) \<le> unat (sp_size part)" "unat B + unat (sp_size part) < 2 ^ 64"
    "IN_PARTITION_RANGE (phdr_to_last_uncached_entry m B) 0 B (phdr_to_last_cached_entry m B)"
    "phdr_to_last_cached_entry m B \<le> B + sp_size part"
proof -
  have I: "unat B + unat (sp_size part) < 2 ^ 64" "32 \<le> unat (phdr_free_uncached m B)"
    "unat (phdr_free_uncached m B) \<le> unat (phdr_free_cached m B)" "unat (phdr_free_cached m B) \<le> unat (sp_size part)"
    "smem_entries m (B + 32) es (B + ucast (phdr_free_uncached m B))"
    using assms(1) by (auto simp: smem_part_ok_def B_def Let_def)
  show u: "unat (phdr_to_last_uncached_entry m B) = unat B + unat (phdr_free_uncached m B)"
    "unat (phdr_to_last_cached_entry m B) = unat B + unat (phdr_free_cached m B)"
    "unat (B + sp_size part) = unat B + unat (sp_size part)"
    using I unfolding phdr_to_last_uncached_entry_def phdr_to_last_cached_entry_def
    by (subst unat64_plus; simp)+
  show "unat (B + 32) = unat B + 32" "unat (B + 12) = unat B + 12" "unat (B + 16) = unat B + 16"
    by (rule unat_add_num, use I in simp)+
  show "IN_PARTITION_RANGE (phdr_to_last_uncached_entry m B) 0 B (phdr_to_last_cached_entry m B)"
    "phdr_to_last_cached_entry m B \<le> B + sp_size part"
    using I u by (simp_all add: IN_PARTITION_RANGE_def word_le_nat_alt)
qed (use assms(1) in \<open>auto simp: smem_part_ok_def B_def Let_def phdr_to_last_uncached_entry_def\<close>)

lemma rd32_cong:
  "unat b + 4 < 2 ^ 64 \<Longrightarrow> (\<And>x. unat b \<le> unat x \<Longrightarrow> unat x < unat b + 4 \<Longrightarrow> m x = m' x) \<Longrightarrow> rd32 m b = rd32 m' b"
  using mrd_cong [of b 4 m m'] by (simp add: rd32_def)

definition new_entry :: "u32 \<Rightarrow> u64 \<Rightarrow> entry" where
  "new_entry item sz = (ucast item, of_nat (pad8 (unat sz)), of_nat (pad8 (unat sz) - unat sz))"

text \<open>The words an allocation computes, as numbers.\<close>

lemma alloc_words:
  assumes "16 + pad8 (unat sz) < 2 ^ 32"
  shows "unat (align64 sz 8) = pad8 (unat sz)" "ucast (align64 sz 8) = (of_nat (pad8 (unat sz)) :: u32)"
    "unat (ucast (align64 sz 8) :: u32) = pad8 (unat sz)"
    "ucast (ucast (ucast (align64 sz 8) :: u32) - sz) = (of_nat (pad8 (unat sz) - unat sz) :: u16)"
    "unat (of_nat (pad8 (unat sz) - unat sz) :: u16) = pad8 (unat sz) - unat sz"
    "unat (16 + align64 sz 8) = 16 + pad8 (unat sz)"
    "unat (ucast (16 + align64 sz 8) :: u32) = 16 + pad8 (unat sz)"
proof -
  have "unat sz \<le> pad8 (unat sz)" "pad8 (unat sz) < unat sz + 8" by (rule pad8_laws)+
  then have p: "unat sz \<le> pad8 (unat sz)" "pad8 (unat sz) - unat sz < 8" by linarith+
  show a: "unat (align64 sz 8) = pad8 (unat sz)" using assms p by (intro unat_align64) simp
  show b: "unat (ucast (align64 sz 8) :: u32) = pad8 (unat sz)" using a assms by (subst unat_down) auto
  show "ucast (align64 sz 8) = (of_nat (pad8 (unat sz)) :: u32)"
    unfolding b [symmetric] by simp
  have d: "unat (ucast (ucast (align64 sz 8) :: u32) - sz) = pad8 (unat sz) - unat sz"
    using b p by (simp add: unat64_minus)
  show e: "unat (of_nat (pad8 (unat sz) - unat sz) :: u16) = pad8 (unat sz) - unat sz"
    using p(2) by (simp add: unat_of_nat)
  show "ucast (ucast (ucast (align64 sz 8) :: u32) - sz) = (of_nat (pad8 (unat sz) - unat sz) :: u16)"
    unfolding word_unat_eq_iff e using d p(2) by (simp add: unsigned_ucast_eq take_bit_nat_eq_self_iff)
  show f: "unat (16 + align64 sz 8) = 16 + pad8 (unat sz)" using a assms by (subst unat64_plus) auto
  show "unat (ucast (16 + align64 sz 8) :: u32) = 16 + pad8 (unat sz)" using f assms by (subst unat_down) auto
qed

lemma alloc_store_ok:
  fixes item :: u32
  assumes ok: "smem_part_ok m part es" and sz: "0 < unat sz" and fit: "16 + pad8 (unat sz) \<le> part_space m part"
  defines "B \<equiv> sp_virt_base part"
  defines "h \<equiv> phdr_to_last_uncached_entry m B"
  defines "m' \<equiv> alloc_store m part h item sz"
  shows "smem_part_ok m' part (es @ [new_entry item sz])"
    and "part_space m' part = part_space m part - (16 + pad8 (unat sz))"
    and "\<And>x. unat x < unat B \<or> unat B + 16 \<le> unat x \<Longrightarrow> unat x < unat h \<or> unat h + 12 \<le> unat x \<Longrightarrow> m' x = m x"
    and "entry_at (es @ [new_entry item sz]) it (B + 32) =
      (case entry_at es it (B + 32) of Some r \<Rightarrow> Some r | None \<Rightarrow> entry_at [new_entry item sz] it h)"
proof -
  note b = part_ok_bounds [OF ok, folded B_def]
  let ?p = "pad8 (unat sz)"
  define free where "free = unat (phdr_free_uncached m B)"
  define cached where "cached = unat (phdr_free_cached m B)"
  have F: "32 \<le> free" "free + 16 + ?p \<le> cached" "cached \<le> unat (sp_size part)" "unat B + unat (sp_size part) < 2 ^ 64"
    "unat (sp_size part) < 2 ^ 32" "unat h = unat B + free"
    using b fit ok by (auto simp: free_def cached_def part_space_def B_def h_def smem_part_ok_def Let_def)
  have p32: "16 + ?p < 2 ^ 32" using F by linarith
  note w = alloc_words [OF p32]
  have p8: "8 \<le> ?p" using sz pad8_laws(3) [of "unat sz"] pad8_laws(1) [of "unat sz"] by (auto elim!: dvdE)
  have pl: "?p - unat sz < 8" using pad8_laws(1,2) [of "unat sz"] by linarith
  define m5 where "m5 = entry_write m h (ucast item) (ucast (align64 sz 8)) (ucast (ucast (ucast (align64 sz 8) :: u32) - sz))"
  have h12: "unat h + 12 < 2 ^ 64" using F by linarith
  have m5: "m5 x = m x" if "unat x < unat h \<or> unat h + 12 \<le> unat x" for x
    unfolding m5_def by (rule entry_write_frame [OF h12 that])
  have free5: "phdr_free_uncached m5 B = phdr_free_uncached m B"
    unfolding phdr_free_uncached_def using m5 F b(5) by (intro rd32_cong) auto
  define new where "new = phdr_free_uncached m B + ucast (16 + align64 sz 8)"
  have new: "unat new = free + 16 + ?p"
    unfolding new_def using F w(7) by (subst unat32_plus) (auto simp: free_def)
  have m': "m' = wr32 m5 (B + 12) new"
    by (simp add: m'_def alloc_store_def m5_def [symmetric] B_def [symmetric] free5 Let_def new_def)
  have m'5: "m' x = m5 x" if "unat x < unat B + 12 \<or> unat B + 16 \<le> unat x" for x
    unfolding m' using that F b(5) by (intro wr_outside(2)) auto
  show frame: "m' x = m x" if "unat x < unat B \<or> unat B + 16 \<le> unat x" "unat x < unat h \<or> unat h + 12 \<le> unat x" for x
    using m5 m'5 that by auto
  have free': "phdr_free_uncached m' B = new"
    unfolding phdr_free_uncached_def m' using F b(5) by (intro rd32_wr32_same) simp
  have cached': "phdr_free_cached m' B = phdr_free_cached m B"
    unfolding phdr_free_cached_def using frame F b(6) by (intro rd32_cong) auto
  show "part_space m' part = part_space m part - (16 + ?p)"
    by (simp add: part_space_def B_def [symmetric] free' cached' new free_def)
  define fin where "fin = B + ucast new"
  have fin: "unat fin = unat h + 16 + ?p" unfolding fin_def using new F by (subst unat64_plus) auto
  have old: "smem_entries m' (B + 32) es h"
    using b(7) [folded h_def] by (rule entries_cong) (use frame F b(4) in auto)
  have "pe_canary m' h = pe_canary m5 h" "pe_item m' h = pe_item m5 h" "pe_size m' h = pe_size m5 h"
    "pe_padding_data m' h = pe_padding_data m5 h" "pe_padding_hdr m' h = pe_padding_hdr m5 h"
    by (rule pe_cong; use m'5 F in auto)+
  moreover have "h + 16 + ucast (ucast (align64 sz 8) :: u32) = fin"
    using entry_step [of h "ucast (align64 sz 8)" fin] fin w(3) by (simp add: word_unat_eq_iff)
  ultimately have "smem_entries m' h [new_entry item sz] fin"
    using entry_write_fields [OF h12, of m "ucast item" "ucast (align64 sz 8)" "ucast (ucast (ucast (align64 sz 8) :: u32) - sz)"]
      fin w p8 pl unfolding m5_def [symmetric] by (simp add: new_entry_def)
  from entries_append [OF old this] show "smem_part_ok m' part (es @ [new_entry item sz])"
    using F free' cached' new by (simp add: smem_part_ok_def B_def [symmetric] Let_def fin_def cached_def)
  show "entry_at (es @ [new_entry item sz]) it (B + 32) =
      (case entry_at es it (B + 32) of Some r \<Rightarrow> Some r | None \<Rightarrow> entry_at [new_entry item sz] it h)"
    using entries_end [OF b(7)] by (simp only: entry_at_append h_def)
qed

lemma get_private_found:
  assumes ok: "smem_part_ok m part es" and at: "entry_at es item (sp_virt_base part + 32) = Some (e, s, pd)"
  shows "qcom_smem_get_private m part item = Inr (e + 16, ucast (s - ucast pd))"
    and "unat (ucast (s - ucast pd) :: u64) = unat s - unat pd"
    and "unat (e + 16) = unat e + 16"
proof -
  let ?B = "sp_virt_base part"
  note b = part_ok_bounds [OF ok]
  have s: "pe_size m e = s" "pe_padding_data m e = pd" "pe_padding_hdr m e = 0" "8 \<le> unat s" "unat pd < 8"
    "unat (?B + 32) \<le> unat e" "unat e + 16 + unat s \<le> unat (phdr_to_last_uncached_entry m ?B)"
    using entry_at_sound [OF b(7) at] by auto
  have pd: "unat (ucast pd :: u32) = unat pd"
    by (simp add: unsigned_ucast_eq take_bit_nat_eq_self_iff order.strict_trans2 [OF unsigned_less])
  then have d: "unat (s - ucast pd) = unat s - unat pd" using s by (subst unat32_minus) auto
  then show d': "unat (ucast (s - ucast pd) :: u64) = unat s - unat pd" by simp
  show e16: "unat (e + 16) = unat e + 16" using s(7) b(1,9,10,11) by (intro unat_add_num) linarith
  have "unat (e + 16 + ucast (s - ucast pd)) = unat e + 16 + (unat s - unat pd)"
    using e16 d' s b(1,9,10,11) by (subst unat64_plus) auto
  then have "IN_PARTITION_RANGE (e + 16) (ucast (s - ucast pd)) e (phdr_to_last_uncached_entry m ?B)"
    using e16 s by (simp add: IN_PARTITION_RANGE_def word_le_nat_alt) arith
  moreover have "ucast s < sp_size part" using s b(1,4,9,10) by (simp add: word_less_nat_alt)
  moreover have "ucast pd < s" using s pd by (simp add: word_less_nat_alt)
  moreover have "\<not> ?B + sp_size part < phdr_to_last_cached_entry m ?B" using b(13) by (simp add: not_less)
  ultimately show "qcom_smem_get_private m part item = Inr (e + 16, ucast (s - ucast pd))"
    using b(12) walk_entries [OF b(7), of item] at s
    by (simp add: qcom_smem_get_private_def Let_def phdr_to_first_uncached_entry_def private_item_def
        uncached_entry_to_item_def)
qed

lemma get_private_absent:
  assumes ok: "smem_part_ok m part es" and at: "entry_at es item (sp_virt_base part + 32) = None"
    and "phdr_free_cached m (sp_virt_base part) = ucast (sp_size part)"
  shows "qcom_smem_get_private m part item = Inl ENOENT"
proof -
  let ?B = "sp_virt_base part"
  note b = part_ok_bounds [OF ok]
  have "unat (sp_size part) < 2 ^ 32" using ok by (simp add: smem_part_ok_def Let_def)
  then have "ucast (ucast (sp_size part) :: u32) = sp_size part" by (simp add: word_unat_eq_iff unat_down)
  then have "phdr_to_last_cached_entry m ?B = ?B + sp_size part"
    using assms(3) by (simp add: phdr_to_last_cached_entry_def)
  moreover have "\<not> ?B + sp_size part < phdr_to_last_cached_entry m ?B" using b(13) by (simp add: not_less)
  ultimately show ?thesis
    using b(12) walk_entries [OF b(7), of item] at
    by (simp add: qcom_smem_get_private_def Let_def phdr_to_first_uncached_entry_def)
qed

text \<open>The three outcomes of an allocation in a well-formed partition.\<close>

lemma alloc_private_cases:
  assumes ok: "smem_part_ok m part es" and big: "unat (sp_virt_base part) + 2 ^ 32 + unat sz + 24 < 2 ^ 64"
  shows "qcom_smem_alloc_private m part item sz =
    (if entry_at es item (sp_virt_base part + 32) \<noteq> None then (Inl EEXIST, m)
     else if part_space m part < 16 + pad8 (unat sz) then (Inl ENOSPC, m)
     else (Inr (), alloc_store m part (phdr_to_last_uncached_entry m (sp_virt_base part)) item sz))"
proof -
  let ?B = "sp_virt_base part"
  note b = part_ok_bounds [OF ok]
  note w = walk_entries [OF b(7), of item]
  have nb: "\<not> ?B + sp_size part < phdr_to_last_cached_entry m ?B" using b(13) by (simp add: not_less)
  show ?thesis
  proof (cases "entry_at es item (?B + 32)")
    case (Some r)
    then show ?thesis
      using b(12) nb w by (cases r) (simp add: qcom_smem_alloc_private_def Let_def phdr_to_first_uncached_entry_def)
  next
    case None
    let ?h = "phdr_to_last_uncached_entry m ?B"
    have sz32: "unat (sp_size part) < 2 ^ 32" using ok by (simp add: smem_part_ok_def Let_def)
    have p: "pad8 (unat sz) < unat sz + 8" by (rule pad8_laws)
    have a: "unat (align64 sz 8) = pad8 (unat sz)" using big by (intro unat_align64) simp
    have a16: "unat (16 + align64 sz 8) = 16 + pad8 (unat sz)" using a p big by (subst unat64_plus) auto
    have "unat (?h + (16 + align64 sz 8)) = unat ?B + unat (phdr_free_uncached m ?B) + 16 + pad8 (unat sz)"
      using a16 b(1,9,10) p big sz32 by (subst unat64_plus) auto
    then have "phdr_to_last_cached_entry m ?B < ?h + (16 + align64 sz 8) \<longleftrightarrow> part_space m part < 16 + pad8 (unat sz)"
      using b(2,9) unfolding word_less_nat_alt part_space_def by linarith
    moreover have "unat ?h + 12 < 2 ^ 64" using b(1,9,10) sz32 big by simp
    moreover have "uncached_walk m item (?B + 32) ?h = Walk_End ?h" using w None by simp
    ultimately show ?thesis using None alloc_private_eq [OF _ b(12,13), of ?h item sz] by simp
  qed
qed

section \<open>Partitions with arbitrary contents\<close>

lemma no_wrap: "(p :: u64) \<le> p + n \<Longrightarrow> unat (p + n) = unat p + unat n"
proof -
  assume "p \<le> p + n"
  then have "unat p \<le> unat (p + n)" by (simp add: word_le_nat_alt)
  then have "unat (p + n - p) = unat (p + n) - unat p" by (rule unat64_minus)
  then show ?thesis using \<open>unat p \<le> unat (p + n)\<close> by simp
qed

lemma uncached_walk_mono:
  "uncached_walk m item e fin = Walk_Found e' \<Longrightarrow> e \<le> e'"
  "uncached_walk m item e fin = Walk_End e' \<Longrightarrow> e \<le> e'"
  by (induction m item e fin rule: uncached_walk.induct; subst (asm) (2) uncached_walk.simps;
      fastforce simp: Let_def split: if_splits)+

lemma cached_walk_mono:
  "cached_walk m c item e fin = Walk_Found e' \<Longrightarrow> e' \<le> e"
  by (induction m c item e fin rule: cached_walk.induct; subst (asm) (2) cached_walk.simps;
      fastforce simp: Let_def split: if_splits)

lemma private_item_range:
  assumes "private_item m part e p lo hi = Inr (q, n)"
  shows "q = p" "0 < unat n" "unat lo \<le> unat p" "unat p + unat n \<le> unat hi"
proof -
  have r: "IN_PARTITION_RANGE p n lo hi" "q = p" "n = ucast (pe_size m e - ucast (pe_padding_data m e))"
    "ucast (pe_padding_data m e) < pe_size m e"
    using assms by (auto simp: private_item_def Let_def split: if_splits)
  then show "q = p" "unat lo \<le> unat p" "unat p + unat n \<le> unat hi"
    using no_wrap [of p n] by (auto simp: IN_PARTITION_RANGE_def word_le_nat_alt)
  show "0 < unat n" using r(3,4) by (simp add: unat32_minus word_less_nat_alt)
qed

lemma get_private_in_partition:
  assumes get: "qcom_smem_get_private m part item = Inr (p, n)"
    and size: "unat (sp_virt_base part) + unat (sp_size part) < 2 ^ 64" "32 \<le> unat (sp_size part)"
  shows "unat (sp_virt_base part) \<le> unat p \<and> unat p + unat n \<le> unat (sp_virt_base part) + unat (sp_size part) \<and> 0 < unat n"
proof -
  let ?B = "sp_virt_base part"
  let ?u = "phdr_to_last_uncached_entry m ?B" and ?c = "phdr_to_last_cached_entry m ?B"
  let ?first = "phdr_to_first_cached_entry m ?B (sp_cacheline part)"
  have g: "IN_PARTITION_RANGE ?u 0 ?B ?c" "\<not> ?B + sp_size part < ?c"
    using get by (auto simp: qcom_smem_get_private_def Let_def split: if_splits)
  have pe: "unat (?B + sp_size part) = unat ?B + unat (sp_size part)" using size by (intro unat64_plus)
  have b32: "unat (?B + 32) = unat ?B + 32" using size by (intro unat_add_num) simp
  have bounds: "unat ?B \<le> unat ?u" "unat ?u \<le> unat ?c" "unat ?c \<le> unat ?B + unat (sp_size part)"
    using g pe by (auto simp: IN_PARTITION_RANGE_def word_le_nat_alt not_less)
  consider e where "uncached_walk m item (?B + 32) ?u = Walk_Found e"
      "private_item m part e (uncached_entry_to_item m e) e ?u = Inr (p, n)"
    | e e' where "uncached_walk m item (?B + 32) ?u = Walk_End e" "IN_PARTITION_RANGE ?first 16 ?c (?B + sp_size part)"
      "cached_walk m (sp_cacheline part) item ?first ?c = Walk_Found e'"
      "private_item m part e' (cached_entry_to_item m e') ?c e' = Inr (p, n)"
    using get g
    by (auto simp: qcom_smem_get_private_def Let_def phdr_to_first_uncached_entry_def split: walk.splits if_splits)
  then show ?thesis
  proof cases
    case 1
    have "unat (?B + 32) \<le> unat e" using uncached_walk_mono(1) [OF 1(1)] by (simp add: word_le_nat_alt)
    then show ?thesis using private_item_range [OF 1(2)] bounds b32 by auto
  next
    case 2
    have "unat e' \<le> unat ?first" using cached_walk_mono [OF 2(3)] by (simp add: word_le_nat_alt)
    moreover have "unat ?first \<le> unat ?B + unat (sp_size part)"
      using 2(2) pe by (auto simp: IN_PARTITION_RANGE_def word_le_nat_alt)
    ultimately show ?thesis using private_item_range [OF 2(4)] bounds by auto
  qed
qed

lemma alloc_private_error: "qcom_smem_alloc_private m part item sz = (Inl e, m') \<Longrightarrow> m' = m"
  by (auto simp: qcom_smem_alloc_private_def Let_def split: if_splits walk.splits)

lemma alloc_private_frame:
  assumes alloc: "qcom_smem_alloc_private m part item sz = (Inr (), m')"
    and size: "unat (sp_virt_base part) + unat (sp_size part) + unat sz + 24 < 2 ^ 64" "32 \<le> unat (sp_size part)"
    and x: "unat x < unat (sp_virt_base part) \<or> unat (sp_virt_base part) + unat (sp_size part) \<le> unat x"
  shows "m' x = m x"
proof -
  let ?B = "sp_virt_base part"
  let ?u = "phdr_to_last_uncached_entry m ?B" and ?c = "phdr_to_last_cached_entry m ?B"
  have g: "IN_PARTITION_RANGE ?u 0 ?B ?c" "?c \<le> ?B + sp_size part"
    using alloc by (auto simp: qcom_smem_alloc_private_def Let_def not_less split: if_splits)
  obtain h where h: "uncached_walk m item (?B + 32) ?u = Walk_End h" "h \<le> ?u"
    using alloc g by (auto simp: qcom_smem_alloc_private_def Let_def phdr_to_first_uncached_entry_def not_less
        split: if_splits walk.splits)
  have pe: "unat (?B + sp_size part) = unat ?B + unat (sp_size part)" using size by (intro unat64_plus) simp
  have b32: "unat (?B + 32) = unat ?B + 32" using size by (intro unat_add_num) simp
  have hb: "unat ?B + 32 \<le> unat h" "unat h \<le> unat ?c" "unat ?c \<le> unat ?B + unat (sp_size part)"
    using uncached_walk_mono(2) [OF h(1)] h(2) g b32 pe by (auto simp: IN_PARTITION_RANGE_def word_le_nat_alt)
  have p: "pad8 (unat sz) < unat sz + 8" by (rule pad8_laws)
  have a: "unat (align64 sz 8) = pad8 (unat sz)" using size by (intro unat_align64) simp
  have "unat (16 + align64 sz 8) = 16 + pad8 (unat sz)" using a p size by (subst unat64_plus) auto
  then have ha: "unat (h + (16 + align64 sz 8)) = unat h + 16 + pad8 (unat sz)" using hb p size by (subst unat64_plus) auto
  have h12: "unat h + 12 < 2 ^ 64" using hb size by simp
  have m': "m' = alloc_store m part h item sz" and fit: "\<not> ?c < h + (16 + align64 sz 8)"
    using alloc alloc_private_eq [OF h12 g h, of sz] by (auto split: if_splits)
  then have "unat h + 16 \<le> unat ?c" using ha by (simp add: word_less_nat_alt)
  then have "unat x < unat h \<or> unat h + 12 \<le> unat x" using x hb by auto
  moreover have b12: "unat (?B + 12) = unat ?B + 12" by (rule unat_add_num, use size in simp)
  moreover have "unat x < unat (?B + 12) \<or> unat (?B + 12) + 4 \<le> unat x" "unat (?B + 12) + 4 \<le> 2 ^ 64"
    using x size b12 by auto
  ultimately show ?thesis
    by (simp add: m' alloc_store_def Let_def wr_outside entry_write_frame [OF h12])
qed

section \<open>The global heap\<close>

text \<open>
  A well-formed global heap: every entry of the table uses the first region, allocated items lie
  below the free offset without overlapping, and free and available bytes fit into the region.
\<close>

definition ge_span :: "mem \<Rightarrow> u64 \<Rightarrow> u32 \<Rightarrow> nat \<times> nat" where
  "ge_span m H i = (unat (ge_offset m (toc_entry H i)), unat (ge_offset m (toc_entry H i)) + unat (ge_size m (toc_entry H i)))"

definition ge_live :: "mem \<Rightarrow> u64 \<Rightarrow> u32 \<Rightarrow> bool" where
  "ge_live m H i = (ge_allocated m (toc_entry H i) \<noteq> 0)"

definition smem_global_ok :: "mem \<Rightarrow> qcom_smem \<Rightarrow> bool" where
  "smem_global_ok m s =
     (let H = sr_virt_base (sm_regions s ! 0) in
      sm_regions s \<noteq> [] \<and> unat H + 8400 < 2 ^ 64 \<and> unat (sm_item_count s) \<le> 512 \<and>
      unat (hd_free_offset m H) + unat (hd_available m H) < 2 ^ 32 \<and>
      unat (hd_free_offset m H) + unat (hd_available m H) \<le> unat (sr_size (sm_regions s ! 0)) \<and>
      (\<forall>i < sm_item_count s. ge_aux_base m (toc_entry H i) AND AUX_BASE_MASK = 0) \<and>
      (\<forall>i < sm_item_count s. ge_live m H i \<longrightarrow> snd (ge_span m H i) \<le> unat (hd_free_offset m H)) \<and>
      (\<forall>i < sm_item_count s. \<forall>j < sm_item_count s. ge_live m H i \<and> ge_live m H j \<and> i \<noteq> j \<longrightarrow>
         snd (ge_span m H i) \<le> fst (ge_span m H j) \<or> snd (ge_span m H j) \<le> fst (ge_span m H i)))"

lemma toc_addr:
  assumes H: "unat H + 8400 < 2 ^ 64" and i: "unat i < 512"
  shows "unat (toc_entry H i) = unat H + 208 + 16 * unat i"
    "unat (toc_entry H i + 4) = unat H + 212 + 16 * unat i" "unat (toc_entry H i + 8) = unat H + 216 + 16 * unat i"
    "unat (toc_entry H i + 12) = unat H + 220 + 16 * unat i"
    "unat (H + 196) = unat H + 196" "unat (H + 200) = unat H + 200"
proof -
  have "unat (16 * ucast i :: u64) = 16 * unat i" using i by (subst unat_mult_lem [THEN iffD1]) auto
  moreover have "unat (H + 208) = unat H + 208" by (rule unat_add_num, use H in simp)
  ultimately show e: "unat (toc_entry H i) = unat H + 208 + 16 * unat i"
    unfolding toc_entry_def using H i by (subst unat64_plus) auto
  have "unat (toc_entry H i + 4) = unat (toc_entry H i) + 4" "unat (toc_entry H i + 8) = unat (toc_entry H i) + 8"
    "unat (toc_entry H i + 12) = unat (toc_entry H i) + 12"
    by (rule unat_add_num, use e H i in simp)+
  then show "unat (toc_entry H i + 4) = unat H + 212 + 16 * unat i" "unat (toc_entry H i + 8) = unat H + 216 + 16 * unat i"
    "unat (toc_entry H i + 12) = unat H + 220 + 16 * unat i"
    using e by simp_all
  show "unat (H + 196) = unat H + 196" "unat (H + 200) = unat H + 200" by (rule unat_add_num, use H in simp)+
qed

text \<open>The five stores of a global allocation.\<close>

definition global_store :: "mem \<Rightarrow> u64 \<Rightarrow> u32 \<Rightarrow> u64 \<Rightarrow> mem" where
  "global_store m H i sz =
     wr32 (wr32 (wr32 (wr32 (wr32 m (toc_entry H i + 4) (hd_free_offset m H)) (toc_entry H i + 8) (ucast sz)) (toc_entry H i) 1)
       (H + 196) (hd_free_offset m H + ucast sz)) (H + 200) (hd_available m H + ucast (- sz))"

lemma global_store_frame:
  assumes H: "unat H + 8400 < 2 ^ 64" and i: "unat i < 512"
    and x: "unat x < unat H + 196 \<or> unat H + 204 \<le> unat x"
      "unat x < unat H + 208 + 16 * unat i \<or> unat H + 220 + 16 * unat i \<le> unat x"
  shows "global_store m H i sz x = m x"
proof -
  note u = toc_addr [OF H i]
  have "unat (toc_entry H i + 4) + 4 \<le> 2 ^ 64" "unat (toc_entry H i + 8) + 4 \<le> 2 ^ 64" "unat (toc_entry H i) + 4 \<le> 2 ^ 64"
    "unat (H + 196) + 4 \<le> 2 ^ 64" "unat (H + 200) + 4 \<le> 2 ^ 64"
    "unat x < unat (toc_entry H i + 4) \<or> unat (toc_entry H i + 4) + 4 \<le> unat x"
    "unat x < unat (toc_entry H i + 8) \<or> unat (toc_entry H i + 8) + 4 \<le> unat x"
    "unat x < unat (toc_entry H i) \<or> unat (toc_entry H i) + 4 \<le> unat x"
    "unat x < unat (H + 196) \<or> unat (H + 196) + 4 \<le> unat x" "unat x < unat (H + 200) \<or> unat (H + 200) + 4 \<le> unat x"
    unfolding u using H i x by auto
  then show ?thesis unfolding global_store_def by (simp only: wr_outside)
qed

lemma global_store_fields:
  fixes m :: mem and sz :: u64
  assumes H: "unat H + 8400 < 2 ^ 64" and i: "unat i < 512"
  defines "m' \<equiv> global_store m H i sz"
  shows "ge_allocated m' (toc_entry H i) = 1" "ge_offset m' (toc_entry H i) = hd_free_offset m H"
    "ge_size m' (toc_entry H i) = ucast sz" "ge_aux_base m' (toc_entry H i) = ge_aux_base m (toc_entry H i)"
    "hd_free_offset m' H = hd_free_offset m H + ucast sz" "hd_available m' H = hd_available m H + ucast (- sz)"
proof -
  let ?e = "toc_entry H i"
  note u = toc_addr [OF H i]
  have ap: "apart (H + 200) 4 (H + 196) 4" "apart (H + 200) 4 ?e 4" "apart (H + 200) 4 (?e + 4) 4" "apart (H + 200) 4 (?e + 8) 4"
    "apart (H + 200) 4 (?e + 12) 4" "apart (H + 196) 4 ?e 4" "apart (H + 196) 4 (?e + 4) 4" "apart (H + 196) 4 (?e + 8) 4"
    "apart (H + 196) 4 (?e + 12) 4" "apart ?e 4 (?e + 4) 4" "apart ?e 4 (?e + 8) 4" "apart ?e 4 (?e + 12) 4"
    "apart (?e + 8) 4 (?e + 4) 4" "apart (?e + 8) 4 (?e + 12) 4" "apart (?e + 4) 4 (?e + 12) 4"
    unfolding apart_def u using H i by simp_all
  have lim: "unat (H + 200) + 4 < 2 ^ 64" "unat (H + 196) + 4 < 2 ^ 64" "unat ?e + 4 < 2 ^ 64" "unat (?e + 4) + 4 < 2 ^ 64"
    "unat (?e + 8) + 4 < 2 ^ 64"
    unfolding u using H i by simp_all
  show "ge_allocated m' ?e = 1" "ge_offset m' ?e = hd_free_offset m H" "ge_size m' ?e = ucast sz"
    "ge_aux_base m' ?e = ge_aux_base m ?e" "hd_free_offset m' H = hd_free_offset m H + ucast sz"
    "hd_available m' H = hd_available m H + ucast (- sz)"
    unfolding m'_def global_store_def ge_allocated_def ge_offset_def ge_size_def ge_aux_base_def hd_available_def hd_free_offset_def
    by (simp_all only: rd_wr_other ap rd32_wr32_same lim)
qed

lemma global_store_other:
  fixes m :: mem and sz :: u64
  assumes H: "unat H + 8400 < 2 ^ 64" and i: "unat i < 512" "unat j < 512" "i \<noteq> j"
  defines "m' \<equiv> global_store m H i sz"
  shows "ge_allocated m' (toc_entry H j) = ge_allocated m (toc_entry H j)" "ge_offset m' (toc_entry H j) = ge_offset m (toc_entry H j)"
    "ge_size m' (toc_entry H j) = ge_size m (toc_entry H j)" "ge_aux_base m' (toc_entry H j) = ge_aux_base m (toc_entry H j)"
proof -
  have "unat i \<noteq> unat j" using i(3) by (simp add: word_unat_eq_iff)
  then have "m' x = m x" if "unat H + 208 + 16 * unat j \<le> unat x" "unat x < unat H + 224 + 16 * unat j" for x
    unfolding m'_def using that by (intro global_store_frame [OF H i(1)]) auto
  then show "ge_allocated m' (toc_entry H j) = ge_allocated m (toc_entry H j)" "ge_offset m' (toc_entry H j) = ge_offset m (toc_entry H j)"
    "ge_size m' (toc_entry H j) = ge_size m (toc_entry H j)" "ge_aux_base m' (toc_entry H j) = ge_aux_base m (toc_entry H j)"
    unfolding ge_allocated_def ge_offset_def ge_size_def ge_aux_base_def
    using toc_addr [OF H i(2)] H i(2) by (auto intro!: rd32_cong)
qed

lemma alloc_global_cases:
  assumes ok: "smem_global_ok m s" and i: "item < sm_item_count s" and sz: "unat sz + 7 < 2 ^ 64"
  defines "H \<equiv> sr_virt_base (sm_regions s ! 0)"
  shows "qcom_smem_alloc_global m s item sz =
    (if ge_live m H item then (Inl EEXIST, m)
     else if unat (hd_available m H) < pad8 (unat sz) then (Inl ENOMEM, m)
     else (Inr (), global_store m H item (align64 sz 8)))"
proof -
  let ?e = "toc_entry H item"
  have H: "unat H + 8400 < 2 ^ 64" and i': "unat item < 512"
    using ok i by (auto simp: smem_global_ok_def H_def Let_def word_less_nat_alt)
  note u = toc_addr [OF H i']
  have ap: "apart (H + 196) 4 (H + 200) 4" "apart ?e 4 (H + 196) 4" "apart ?e 4 (H + 200) 4" "apart (?e + 4) 4 (H + 196) 4"
    "apart (?e + 8) 4 (H + 196) 4" "apart (?e + 4) 4 (H + 200) 4" "apart (?e + 8) 4 (H + 200) 4"
    unfolding apart_def u using H i' by simp_all
  let ?m3 = "wr32 (wr32 (wr32 m (?e + 4) (hd_free_offset m H)) (?e + 8) (ucast (align64 sz 8))) ?e 1"
  have "hd_free_offset ?m3 H = hd_free_offset m H"
    "hd_available (wr32 ?m3 (H + 196) v) H = hd_available m H" for v
    unfolding hd_free_offset_def hd_available_def by (simp_all only: rd_wr_other ap)
  moreover have "ucast (hd_available m H) < align64 sz 8 \<longleftrightarrow> unat (hd_available m H) < pad8 (unat sz)"
    using unat_align64 [OF sz] by (simp add: word_less_nat_alt)
  ultimately show ?thesis
    by (simp add: qcom_smem_alloc_global_def Let_def H_def [symmetric] ge_live_def global_store_def)
qed

lemma ucast_minus_down: "ucast (- (a :: u64)) = (- ucast a :: u32)"
proof transfer
  fix a :: int
  have "(- (a mod 2 ^ 64)) mod 2 ^ 32 = (- (a mod 2 ^ 64 mod 2 ^ 32)) mod 2 ^ 32" by (simp only: mod_minus_eq)
  also have "a mod 2 ^ 64 mod 2 ^ 32 = a mod 2 ^ 32" by (simp add: mod_mod_cancel)
  also have "(- (a mod 2 ^ 32)) mod 2 ^ 32 = (- a) mod 2 ^ 32" by (simp only: mod_minus_eq)
  finally have "(- (a mod 2 ^ 64)) mod 2 ^ 32 = (- a) mod 2 ^ 32" .
  moreover have "(- a) mod 2 ^ 64 mod 2 ^ 32 = (- a) mod 2 ^ 32" by (simp add: mod_mod_cancel)
  ultimately show "take_bit LENGTH(32) (take_bit LENGTH(64) (- a)) = take_bit LENGTH(32) (- take_bit LENGTH(64) a)"
    by (simp add: take_bit_eq_mod)
qed

lemma global_store_ok:
  assumes ok: "smem_global_ok m s" and i: "item < sm_item_count s"
    and sz: "unat sz + 7 < 2 ^ 64" "pad8 (unat sz) \<le> unat (hd_available m (sr_virt_base (sm_regions s ! 0)))"
    and dead: "\<not> ge_live m (sr_virt_base (sm_regions s ! 0)) item"
  defines "H \<equiv> sr_virt_base (sm_regions s ! 0)"
  defines "m' \<equiv> global_store m H item (align64 sz 8)"
  shows "smem_global_ok m' s" "ge_live m' H item"
    "ge_span m' H item = (unat (hd_free_offset m H), unat (hd_free_offset m H) + pad8 (unat sz))"
    "unat (hd_free_offset m' H) = unat (hd_free_offset m H) + pad8 (unat sz)"
    "unat (hd_available m' H) = unat (hd_available m H) - pad8 (unat sz)"
    "\<And>j. j < sm_item_count s \<Longrightarrow> j \<noteq> item \<Longrightarrow> ge_live m' H j = ge_live m H j \<and> ge_span m' H j = ge_span m H j"
proof -
  let ?p = "pad8 (unat sz)"
  have O: "sm_regions s \<noteq> []" "unat H + 8400 < 2 ^ 64" "unat (sm_item_count s) \<le> 512"
    "unat (hd_free_offset m H) + unat (hd_available m H) < 2 ^ 32"
    "unat (hd_free_offset m H) + unat (hd_available m H) \<le> unat (sr_size (sm_regions s ! 0))"
    "\<forall>j < sm_item_count s. ge_aux_base m (toc_entry H j) AND AUX_BASE_MASK = 0"
    "\<forall>j < sm_item_count s. ge_live m H j \<longrightarrow> snd (ge_span m H j) \<le> unat (hd_free_offset m H)"
    "\<forall>j < sm_item_count s. \<forall>k < sm_item_count s. ge_live m H j \<and> ge_live m H k \<and> j \<noteq> k \<longrightarrow>
         snd (ge_span m H j) \<le> fst (ge_span m H k) \<or> snd (ge_span m H k) \<le> fst (ge_span m H j)"
    using ok by (simp_all add: smem_global_ok_def H_def Let_def)
  have lt: "unat j < 512" if "j < sm_item_count s" for j using that O(3) by (simp add: word_less_nat_alt)
  have p: "?p \<le> unat (hd_available m H)" using sz(2) by (simp add: H_def)
  have a: "unat (align64 sz 8) = ?p" by (rule unat_align64 [OF sz(1)])
  have a32: "unat (ucast (align64 sz 8) :: u32) = ?p" using a p O(4) by (subst unat_down) auto
  note f = global_store_fields [OF O(2) lt [OF i], of m "align64 sz 8", folded m'_def]
  show live: "ge_live m' H item" by (simp add: ge_live_def f)
  show span: "ge_span m' H item = (unat (hd_free_offset m H), unat (hd_free_offset m H) + ?p)"
    by (simp add: ge_span_def f a32)
  show free: "unat (hd_free_offset m' H) = unat (hd_free_offset m H) + ?p"
    unfolding f using a32 p O(4) by (subst unat32_plus) auto
  show avail: "unat (hd_available m' H) = unat (hd_available m H) - ?p"
    unfolding f using a32 p by (simp add: ucast_minus_down unat32_minus)
  show other: "ge_live m' H j = ge_live m H j \<and> ge_span m' H j = ge_span m H j"
    if "j < sm_item_count s" "j \<noteq> item" for j
    using global_store_other [OF O(2) lt [OF i] lt [OF that(1)], of m "align64 sz 8", folded m'_def] that
    by (simp add: ge_live_def ge_span_def)
  have aux: "ge_aux_base m' (toc_entry H j) AND AUX_BASE_MASK = 0" if "j < sm_item_count s" for j
    using that O(6) f(4) global_store_other(4) [OF O(2) lt [OF i] lt [OF that], of m "align64 sz 8", folded m'_def]
    by (cases "j = item") auto
  have below: "snd (ge_span m' H j) \<le> unat (hd_free_offset m' H)" if "j < sm_item_count s" "ge_live m' H j" for j
    using that other O(7) span free by (cases "j = item") fastforce+
  have apart: "snd (ge_span m' H j) \<le> fst (ge_span m' H k) \<or> snd (ge_span m' H k) \<le> fst (ge_span m' H j)"
    if "j < sm_item_count s" "k < sm_item_count s" "ge_live m' H j" "ge_live m' H k" "j \<noteq> k" for j k
    using that other O(7,8) span by (cases "j = item"; cases "k = item") fastforce+
  show "smem_global_ok m' s"
    unfolding smem_global_ok_def Let_def H_def [symmetric]
    using O free avail p aux below apart by (intro conjI allI impI) auto
qed

lemma get_global_live:
  assumes ok: "smem_global_ok m s" and i: "item < sm_item_count s"
  defines "H \<equiv> sr_virt_base (sm_regions s ! 0)"
  shows "qcom_smem_get_global m s item =
    (if ge_live m H item then Inr (H + ucast (ge_offset m (toc_entry H item)), ucast (ge_size m (toc_entry H item)))
     else Inl ENXIO)"
proof (cases "ge_live m H item")
  case True
  obtain r rs where r: "sm_regions s = r # rs" using ok by (cases "sm_regions s") (auto simp: smem_global_ok_def Let_def)
  have "unat (ge_offset m (toc_entry H item)) + unat (ge_size m (toc_entry H item)) \<le> unat (sr_size r)"
    "ge_aux_base m (toc_entry H item) AND AUX_BASE_MASK = 0"
    using ok i True by (auto simp: smem_global_ok_def Let_def H_def ge_span_def r dest!: spec [of _ item])
  moreover have "unat (ucast (ge_size m (toc_entry H item)) + ucast (ge_offset m (toc_entry H item)) :: u64) =
      unat (ge_size m (toc_entry H item)) + unat (ge_offset m (toc_entry H item))"
    using calculation unat64_lt [of "sr_size r"] by (subst unat64_plus) auto
  ultimately have "\<not> sr_size r < ucast (ge_size m (toc_entry H item)) + ucast (ge_offset m (toc_entry H item))"
    by (simp add: word_less_nat_alt)
  then show ?thesis
    using True \<open>ge_aux_base m (toc_entry H item) AND AUX_BASE_MASK = 0\<close>
    by (simp add: qcom_smem_get_global_def Let_def H_def [symmetric] ge_live_def r) (simp add: H_def r)
next
  case False
  then show ?thesis by (simp add: qcom_smem_get_global_def Let_def H_def [symmetric] ge_live_def)
qed

section \<open>Both heaps implement the contract\<close>

type_synonym private_heap = "mem \<times> smem_partition"
type_synonym global_heap = "mem \<times> qcom_smem"

definition ph_invar :: "private_heap \<Rightarrow> bool" where
  "ph_invar s = (case s of (m, part) \<Rightarrow>
     (\<exists>es. smem_part_ok m part es) \<and> phdr_free_cached m (sp_virt_base part) = ucast (sp_size part))"

definition ph_valid :: "private_heap \<Rightarrow> u32 \<Rightarrow> u64 \<Rightarrow> bool" where
  "ph_valid s item sz = (unat item < 2 ^ 16 \<and> 0 < unat sz \<and> unat (sp_virt_base (snd s)) + 2 ^ 32 + unat sz + 24 < 2 ^ 64)"

definition ph_space :: "private_heap \<Rightarrow> nat" where "ph_space s = part_space (fst s) (snd s)"
definition ph_cost :: "u64 \<Rightarrow> nat" where "ph_cost sz = 16 + pad8 (unat sz)"
definition ph_granted :: "u64 \<Rightarrow> nat" where "ph_granted sz = unat sz"

definition ph_alloc :: "private_heap \<Rightarrow> u32 \<Rightarrow> u64 \<Rightarrow> (errno + unit) \<times> private_heap" where
  "ph_alloc s item sz = (case s of (m, part) \<Rightarrow>
     (case qcom_smem_alloc_private m part item sz of (r, m') \<Rightarrow> (r, (m', part))))"

definition ph_get :: "private_heap \<Rightarrow> u32 \<Rightarrow> errno + u64 \<times> u64" where
  "ph_get s item = (case s of (m, part) \<Rightarrow> qcom_smem_get_private m part item)"

lemma ph_absent:
  assumes "smem_part_ok m part es" "phdr_free_cached m (sp_virt_base part) = ucast (sp_size part)"
  shows "isl (ph_get (m, part) item) \<longleftrightarrow> entry_at es item (sp_virt_base part + 32) = None"
  using get_private_absent [OF assms(1) _ assms(2), of item] get_private_found(1) [OF assms(1), of item]
  by (cases "entry_at es item (sp_virt_base part + 32)") (auto simp: ph_get_def)

lemma ph_get_eq:
  assumes "smem_part_ok m part es" "phdr_free_cached m (sp_virt_base part) = ucast (sp_size part)"
  shows "ph_get (m, part) item = (case entry_at es item (sp_virt_base part + 32) of
     None \<Rightarrow> Inl ENOENT | Some (e, s, pd) \<Rightarrow> Inr (e + 16, ucast (s - ucast pd)))"
  using get_private_absent [OF assms(1) _ assms(2), of item] get_private_found(1) [OF assms(1), of item]
  by (cases "entry_at es item (sp_virt_base part + 32)") (auto simp: ph_get_def)

lemma ph_alloc_laws:
  assumes inv: "ph_invar s" and v: "ph_valid s i n" and new: "isl (ph_get s i)" and fit: "ph_cost n \<le> ph_space s"
  shows "fst (ph_alloc s i n) = Inr ()" "ph_invar (snd (ph_alloc s i n))"
    "ph_space (snd (ph_alloc s i n)) = ph_space s - ph_cost n"
    "\<exists>p q. ph_get (snd (ph_alloc s i n)) i = Inr (p, q) \<and> unat q = ph_granted n"
    "j \<noteq> i \<Longrightarrow> ph_get (snd (ph_alloc s i n)) j = ph_get s j"
    "ph_valid (snd (ph_alloc s i n)) j k = ph_valid s j k"
proof -
  obtain m part where s: "s = (m, part)" by (cases s)
  let ?B = "sp_virt_base part"
  obtain es where ok: "smem_part_ok m part es" and c: "phdr_free_cached m ?B = ucast (sp_size part)"
    using inv by (auto simp: ph_invar_def s)
  have V: "unat i < 2 ^ 16" "0 < unat n" "unat ?B + 2 ^ 32 + unat n + 24 < 2 ^ 64"
    using v by (auto simp: ph_valid_def s)
  have at: "entry_at es i (?B + 32) = None" using new ph_absent [OF ok c] by (simp add: s)
  have sp: "16 + pad8 (unat n) \<le> part_space m part" using fit by (simp add: s ph_cost_def ph_space_def)
  let ?h = "phdr_to_last_uncached_entry m ?B"
  define m' where "m' = alloc_store m part ?h i n"
  have al: "ph_alloc (m, part) i n = (Inr (), (m', part))"
    using alloc_private_cases [OF ok V(3), of i] at sp by (simp add: ph_alloc_def s m'_def)
  note st = alloc_store_ok [where item = i, OF ok V(2) sp, folded m'_def]
  have B16: "unat (?B + 16) = unat ?B + 16" by (rule part_ok_bounds(6) [OF ok])
  have "unat ?h = unat ?B + unat (phdr_free_uncached m ?B)" "32 \<le> unat (phdr_free_uncached m ?B)"
    using part_ok_bounds(1,8) [OF ok] by auto
  then have c': "phdr_free_cached m' ?B = ucast (sp_size part)"
    using st(3) B16 V(3) unfolding c [symmetric] phdr_free_cached_def by (intro rd32_cong) auto
  show "fst (ph_alloc s i n) = Inr ()" by (simp add: s al)
  show "ph_invar (snd (ph_alloc s i n))" using st(1) c' by (auto simp: s al ph_invar_def)
  show "ph_space (snd (ph_alloc s i n)) = ph_space s - ph_cost n"
    using st(2) by (simp add: s al ph_space_def ph_cost_def s)
  have i16: "ucast (ucast i :: u16) = i"
    using V(1) by (simp add: word_unat_eq_iff unsigned_ucast_eq) (simp add: unsigned_take_bit_eq take_bit_nat_eq_self_iff)
  have p32: "16 + pad8 (unat n) < 2 ^ 32"
    using sp part_ok_bounds(10) [OF ok] ok by (auto simp: part_space_def smem_part_ok_def Let_def)
  note w = alloc_words [OF p32]
  have at': "entry_at (es @ [new_entry i n]) j (?B + 32) =
      (case entry_at es j (?B + 32) of Some r \<Rightarrow> Some r | None \<Rightarrow> if i = j then
         Some (?h, of_nat (pad8 (unat n)), of_nat (pad8 (unat n) - unat n)) else None)" for j
    by (subst st(4)) (simp add: new_entry_def i16 cong: option.case_cong)
  have "entry_at (es @ [new_entry i n]) i (?B + 32) = Some (?h, of_nat (pad8 (unat n)), of_nat (pad8 (unat n) - unat n))"
    using at' [of i] at by simp
  from get_private_found(1,2) [OF st(1) this] show "\<exists>p q. ph_get (snd (ph_alloc s i n)) i = Inr (p, q) \<and> unat q = ph_granted n"
    using w(2,3,5) pad8_laws(1) [of "unat n"] by (simp add: s al ph_get_def ph_granted_def)
  show "ph_get (snd (ph_alloc s i n)) j = ph_get s j" if "j \<noteq> i"
    unfolding s al snd_conv ph_get_eq [OF st(1) c'] ph_get_eq [OF ok c] using at' [of j] that
    by (auto split: option.splits)
  show "ph_valid (snd (ph_alloc s i n)) j k = ph_valid s j k" by (simp add: s al ph_valid_def s)
qed

lemma ph_alloc_dup:
  assumes inv: "ph_invar s" and v: "ph_valid s i n" and old: "\<not> isl (ph_get s i)"
  shows "ph_alloc s i n = (Inl EEXIST, s)"
proof -
  obtain m part where s: "s = (m, part)" by (cases s)
  obtain es where ok: "smem_part_ok m part es" and c: "phdr_free_cached m (sp_virt_base part) = ucast (sp_size part)"
    using inv by (auto simp: ph_invar_def s)
  have "entry_at es i (sp_virt_base part + 32) \<noteq> None" using old ph_absent [OF ok c] by (simp add: s)
  then show ?thesis using alloc_private_cases [OF ok, of n i] v by (simp add: ph_alloc_def s ph_valid_def)
qed

interpretation ph: item_heap ph_invar ph_valid ph_space ph_cost ph_granted ph_alloc ph_get
  by unfold_locales (simp_all add: ph_alloc_laws ph_alloc_dup)

definition gh_invar :: "global_heap \<Rightarrow> bool" where "gh_invar s = smem_global_ok (fst s) (snd s)"

definition gh_valid :: "global_heap \<Rightarrow> u32 \<Rightarrow> u64 \<Rightarrow> bool" where
  "gh_valid s item sz = (item < sm_item_count (snd s) \<and> unat sz + 7 < 2 ^ 64)"

definition gh_space :: "global_heap \<Rightarrow> nat" where
  "gh_space s = unat (hd_available (fst s) (sr_virt_base (sm_regions (snd s) ! 0)))"

definition gh_cost :: "u64 \<Rightarrow> nat" where "gh_cost sz = pad8 (unat sz)"

definition gh_alloc :: "global_heap \<Rightarrow> u32 \<Rightarrow> u64 \<Rightarrow> (errno + unit) \<times> global_heap" where
  "gh_alloc s item sz = (case s of (m, smem) \<Rightarrow>
     (case qcom_smem_alloc_global m smem item sz of (r, m') \<Rightarrow> (r, (m', smem))))"

definition gh_get :: "global_heap \<Rightarrow> u32 \<Rightarrow> errno + u64 \<times> u64" where
  "gh_get s item = (case s of (m, smem) \<Rightarrow> qcom_smem_get_global m smem item)"

lemma gh_get_eq:
  assumes "smem_global_ok m s" "item < sm_item_count s"
  defines "H \<equiv> sr_virt_base (sm_regions s ! 0)"
  shows "gh_get (m, s) item = (if ge_live m H item then
     Inr (H + of_nat (fst (ge_span m H item)), of_nat (snd (ge_span m H item) - fst (ge_span m H item))) else Inl ENXIO)"
  using get_global_live [OF assms(1,2)]
  by (simp add: gh_get_def H_def ge_span_def)

lemma gh_alloc_laws:
  assumes inv: "gh_invar s" and v: "gh_valid s i n" and new: "isl (gh_get s i)" and fit: "gh_cost n \<le> gh_space s"
  shows "fst (gh_alloc s i n) = Inr ()" "gh_invar (snd (gh_alloc s i n))"
    "gh_space (snd (gh_alloc s i n)) = gh_space s - gh_cost n"
    "\<exists>p q. gh_get (snd (gh_alloc s i n)) i = Inr (p, q) \<and> unat q = gh_cost n"
    "gh_valid s j k \<Longrightarrow> j \<noteq> i \<Longrightarrow> gh_get (snd (gh_alloc s i n)) j = gh_get s j"
    "gh_valid (snd (gh_alloc s i n)) j k = gh_valid s j k"
proof -
  obtain m smem where s: "s = (m, smem)" by (cases s)
  let ?H = "sr_virt_base (sm_regions smem ! 0)"
  have ok: "smem_global_ok m smem" and i: "i < sm_item_count smem" and n: "unat n + 7 < 2 ^ 64"
    using inv v by (auto simp: gh_invar_def gh_valid_def s)
  have dead: "\<not> ge_live m ?H i" using new gh_get_eq [OF ok i] by (auto simp: s split: if_splits)
  have sp: "pad8 (unat n) \<le> unat (hd_available m ?H)" using fit by (simp add: gh_cost_def gh_space_def s)
  define m' where "m' = global_store m ?H i (align64 n 8)"
  have al: "gh_alloc (m, smem) i n = (Inr (), (m', smem))"
    using alloc_global_cases [OF ok i n] dead sp by (simp add: gh_alloc_def s m'_def)
  note st = global_store_ok [OF ok i n sp dead, folded m'_def]
  show "fst (gh_alloc s i n) = Inr ()" "gh_invar (snd (gh_alloc s i n))" using st(1) by (simp_all add: s al gh_invar_def)
  show "gh_space (snd (gh_alloc s i n)) = gh_space s - gh_cost n"
    using st(5) by (simp add: s al gh_space_def gh_cost_def s)
  have "unat (hd_available m ?H) < 2 ^ 32" by (rule order.strict_trans2 [OF unsigned_less]) simp
  then have "pad8 (unat n) < 2 ^ 64" using sp by simp
  then show "\<exists>p q. gh_get (snd (gh_alloc s i n)) i = Inr (p, q) \<and> unat q = gh_cost n"
    using st(2,3) gh_get_eq [OF st(1) i] by (simp add: s al gh_cost_def unat_of_nat)
  show "gh_get (snd (gh_alloc s i n)) j = gh_get s j" if "gh_valid s j k" "j \<noteq> i"
    using that st(6) [of j] gh_get_eq [OF st(1), of j] gh_get_eq [OF ok, of j] by (simp add: s al s gh_valid_def)
  show "gh_valid (snd (gh_alloc s i n)) j k = gh_valid s j k" by (simp add: s al gh_valid_def s)
qed

lemma gh_alloc_dup:
  assumes inv: "gh_invar s" and v: "gh_valid s i n" and old: "\<not> isl (gh_get s i)"
  shows "gh_alloc s i n = (Inl EEXIST, s)"
proof -
  obtain m smem where s: "s = (m, smem)" by (cases s)
  have ok: "smem_global_ok m smem" and i: "i < sm_item_count smem" and n: "unat n + 7 < 2 ^ 64"
    using inv v by (auto simp: gh_invar_def gh_valid_def s)
  then show ?thesis using alloc_global_cases [OF ok i n] gh_get_eq [OF ok i] old
    by (auto simp: gh_alloc_def s split: if_splits)
qed

interpretation gh: item_heap gh_invar gh_valid gh_space gh_cost gh_cost gh_alloc gh_get
  by unfold_locales (simp_all add: gh_alloc_laws gh_alloc_dup)

section \<open>Properties\<close>

text \<open>A small partition with no items, for the witnesses.\<close>

definition demo_part :: smem_partition where
  "demo_part = \<lparr>sp_virt_base = 4096, sp_phys_base = 0, sp_cacheline = 64, sp_size = 256\<rparr>"

definition demo_mem :: mem where
  "demo_mem = wr32 (wr32 (\<lambda>_. 0) 4108 32) 4112 256"

lemma mrd_zero: "mrd (\<lambda>_. 0) a n = replicate n 0"
  by (rule nth_equalityI) (simp_all add: mrd_def)

lemma rd_zero: "rd32 (\<lambda>_. 0) a = 0" "rd16 (\<lambda>_. 0) a = 0"
proof -
  have "le_to_nat (replicate k 0) = 0" for k by (induction k) auto
  then show "rd32 (\<lambda>_. 0) a = 0" "rd16 (\<lambda>_. 0) a = 0" by (simp_all add: rd32_def rd16_def mrd_zero)
qed

lemma demo_fields: "phdr_free_uncached demo_mem 4096 = 32" "phdr_free_cached demo_mem 4096 = 256"
  unfolding phdr_free_uncached_def phdr_free_cached_def demo_mem_def
  by (simp_all add: rd_wr_other rd32_wr32_same apart_def)

lemma demo_ok: "smem_part_ok demo_mem demo_part []" "part_space demo_mem demo_part = 224"
  "ph_invar (demo_mem, demo_part)"
proof -
  show o: "smem_part_ok demo_mem demo_part []"
    by (simp add: smem_part_ok_def demo_part_def demo_fields Let_def)
  show "part_space demo_mem demo_part = 224"
    by (simp add: part_space_def demo_part_def demo_fields)
  show "ph_invar (demo_mem, demo_part)" using o by (auto simp: ph_invar_def demo_part_def demo_fields)
qed




definition demo_smem :: qcom_smem where
  "demo_smem = \<lparr>sm_item_count = 512, sm_ptable = 0, sm_global_partition = demo_part\<lparr>sp_virt_base := 0\<rparr>,
     sm_partitions = replicate 25 demo_part, sm_regions = [\<lparr>sr_aux_base = 0, sr_virt_base = 65536, sr_size = 65536\<rparr>]\<rparr>"


text \<open>
  The global heap: items allocated one after the other, while their padded sizes fit, are all
  found with these sizes, and lookups of the other items do not change.
\<close>

theorem smem_global_items:
  assumes "gh_invar s" "distinct (map fst rs)" "\<forall>(i, n) \<in> set rs. gh_valid s i n \<and> isl (gh_get s i)"
    and "sum_list (map (\<lambda>r. pad8 (unat (snd r))) rs) \<le> gh_space s"
  defines "s' \<equiv> fold (\<lambda>(i, n) s. snd (gh_alloc s i n)) rs s"
  shows "gh_invar s' \<and> gh_space s' = gh_space s - sum_list (map (\<lambda>r. pad8 (unat (snd r))) rs) \<and>
     (\<forall>(i, n) \<in> set rs. \<exists>p q. gh_get s' i = Inr (p, q) \<and> unat q = pad8 (unat n)) \<and>
     (\<forall>j k. gh_valid s j k \<longrightarrow> j \<notin> fst ` set rs \<longrightarrow> gh_get s' j = gh_get s j)"
  using gh.alloc_all [OF assms(1-3)] assms(4) unfolding s'_def gh_cost_def by blast

definition demo_global :: mem where
  "demo_global = wr32 (wr32 (\<lambda>_. 0) (65536 + 196) 8400) (65536 + 200) 1000"

lemma demo_global_ok: "smem_global_ok demo_global demo_smem" "gh_space (demo_global, demo_smem) = 1000"
  "\<And>i. i < 512 \<Longrightarrow> gh_get (demo_global, demo_smem) i = Inl ENXIO"
proof -
  let ?H = "65536 :: u64"
  have f: "hd_free_offset demo_global ?H = 8400" "hd_available demo_global ?H = 1000"
    unfolding hd_free_offset_def hd_available_def demo_global_def
    by (simp_all add: rd_wr_other rd32_wr32_same apart_def)
  have z: "ge_allocated demo_global (toc_entry ?H i) = 0" "ge_aux_base demo_global (toc_entry ?H i) = 0" if "i < 512" for i
  proof -
    have i: "unat i < 512" using that by (simp add: word_less_nat_alt)
    have H: "unat ?H + 8400 < 2 ^ 64" by simp
    have "rd32 demo_global a = rd32 (\<lambda>_. 0) a" if "unat ?H + 204 \<le> unat a" "unat a < unat ?H + 8400" for a
      unfolding demo_global_def using that by (simp add: rd_wr_other apart_def)
    with toc_addr [OF H i] i
    show "ge_allocated demo_global (toc_entry ?H i) = 0" "ge_aux_base demo_global (toc_entry ?H i) = 0"
      by (simp_all add: ge_allocated_def ge_aux_base_def rd_zero)
  qed
  have s: "sm_regions demo_smem ! 0 = \<lparr>sr_aux_base = 0, sr_virt_base = 65536, sr_size = 65536\<rparr>" "sm_item_count demo_smem = 512"
    "sm_regions demo_smem \<noteq> []"
    by (simp_all add: demo_smem_def)
  show ok: "smem_global_ok demo_global demo_smem"
    using z by (simp add: smem_global_ok_def s f Let_def ge_live_def)
  show "gh_space (demo_global, demo_smem) = 1000" by (simp add: gh_space_def s f)
  show "gh_get (demo_global, demo_smem) i = Inl ENXIO" if "i < 512" for i
    using gh_get_eq [OF ok, of i] that z by (simp add: s ge_live_def)
qed

theorem smem_global_items_witness:
  "\<exists>p q. gh_get (fold (\<lambda>(i, n) s. snd (gh_alloc s i n)) [(10, 20), (11, 8)] (demo_global, demo_smem)) 10 = Inr (p, q) \<and>
     unat q = 24"
proof -
  have "gh_invar (demo_global, demo_smem)" by (simp add: gh_invar_def demo_global_ok)
  from smem_global_items [OF this, of "[(10, 20), (11, 8)]"] show ?thesis
    by (simp add: demo_global_ok gh_valid_def pad8_def) (simp add: demo_smem_def)
qed

text \<open>
  C24: an allocation on the global heap keeps it well-formed: allocated items never overlap, all of
  them lie below the free offset, and free offset plus available bytes stay constant.
\<close>

theorem smem_global_no_overlap:
  assumes ok: "smem_global_ok m s" and i: "item < sm_item_count s" and sz: "unat sz + 7 < 2 ^ 64"
    and alloc: "qcom_smem_alloc_global m s item sz = (Inr (), m')"
  defines "H \<equiv> sr_virt_base (sm_regions s ! 0)"
  shows "smem_global_ok m' s \<and> ge_live m' H item \<and>
     (\<forall>j < sm_item_count s. j \<noteq> item \<and> ge_live m H j \<longrightarrow> ge_live m' H j \<and> ge_span m' H j = ge_span m H j \<and>
        snd (ge_span m' H j) \<le> fst (ge_span m' H item)) \<and>
     unat (hd_free_offset m' H) + unat (hd_available m' H) = unat (hd_free_offset m H) + unat (hd_available m H)"
proof -
  have c: "\<not> ge_live m H item" "pad8 (unat sz) \<le> unat (hd_available m H)" "m' = global_store m H item (align64 sz 8)"
    using alloc alloc_global_cases [OF ok i sz] by (auto simp: H_def split: if_splits)
  note st = global_store_ok [OF ok i sz c(2,1) [unfolded H_def], folded H_def, folded c(3)]
  have "snd (ge_span m H j) \<le> unat (hd_free_offset m H)" if "j < sm_item_count s" "ge_live m H j" for j
    using ok that by (auto simp: smem_global_ok_def Let_def H_def)
  then show ?thesis using st c(2) by auto
qed

theorem smem_global_no_overlap_witness:
  "\<exists>m'. qcom_smem_alloc_global demo_global demo_smem 10 20 = (Inr (), m') \<and> smem_global_ok m' demo_smem"
proof -
  have "fst (gh_alloc (demo_global, demo_smem) 10 20) = Inr ()"
    by (rule gh_alloc_laws(1)) (simp_all add: gh_invar_def gh_valid_def demo_global_ok gh_cost_def pad8_def demo_smem_def [THEN arg_cong, of sm_item_count])
  then obtain m' where m': "qcom_smem_alloc_global demo_global demo_smem 10 20 = (Inr (), m')"
    by (auto simp: gh_alloc_def split: prod.splits)
  have "10 < sm_item_count demo_smem" by (simp add: demo_smem_def)
  from smem_global_no_overlap [OF demo_global_ok(1) this _ m'] m' show ?thesis by simp
qed

text \<open>
  C20: whatever another processor has written into a partition, a lookup that succeeds returns a
  non-empty range inside the partition.
\<close>

theorem smem_get_in_partition:
  assumes "qcom_smem_get_private m part item = Inr (p, n)"
    and "unat (sp_virt_base part) + unat (sp_size part) < 2 ^ 64" "32 \<le> unat (sp_size part)"
  shows "unat (sp_virt_base part) \<le> unat p \<and> unat p + unat n \<le> unat (sp_virt_base part) + unat (sp_size part) \<and> 0 < unat n"
  by (rule get_private_in_partition [OF assms])

theorem smem_get_in_partition_witness:
  "\<exists>m p n. qcom_smem_get_private m demo_part 9 = Inr (p, n) \<and> 4096 \<le> unat p \<and> unat p + unat n \<le> 4096 + 256"
proof -
  have v: "ph_valid (demo_mem, demo_part) 9 20" by (simp add: ph_valid_def demo_part_def)
  have n: "isl (ph_get (demo_mem, demo_part) 9)"
    using ph_absent [OF demo_ok(1), of 9] by (simp add: demo_fields demo_part_def)
  have f: "ph_cost 20 \<le> ph_space (demo_mem, demo_part)" by (simp add: ph_cost_def ph_space_def demo_ok pad8_def)
  obtain m p q where "qcom_smem_get_private m demo_part 9 = Inr (p, q)"
    using ph.alloc_get [OF demo_ok(3) v n f] by (auto simp: ph_get_def ph_alloc_def split: prod.splits)
  moreover from smem_get_in_partition [OF this] have "4096 \<le> unat p \<and> unat p + unat q \<le> 4096 + 256"
    by (simp add: demo_part_def)
  ultimately show ?thesis by blast
qed





end
