(* ===== verification/Smem_Store.thy ===== *)
theory Smem_Store
  imports Smem
begin

text \<open>
  Storing into the items of a private partition.  A client gets the address and the size of its item
  from \<^verbatim>\<open>qcom_smem_get\<close> and then writes without any further call; the lemmas here say that such a
  write inside an item touches no header of the heap and no other item, which is the contract
  \<open>item_store\<close>.
\<close>

lemma entries_payload:
  assumes "smem_entries m a es fin" "entry_at es item a = Some (e, s, pd)"
    and "\<And>x. unat x < unat e + 16 \<or> unat e + 16 + unat s \<le> unat x \<Longrightarrow> m x = m' x"
  shows "smem_entries m' a es fin"
  using assms
proof (induction m a es fin rule: smem_entries.induct)
  case (2 m a it s' pd' es fin)
  have a: "unat a + 16 + unat s' \<le> unat fin" using 2(2) by simp
  have u: "unat (a + 16 + ucast s') = unat a + 16 + unat s'" by (rule entry_step [OF a])
  have le: "unat a \<le> unat e" using entry_at_sound [OF 2(2,3)] by simp
  have "unat a + 12 < 2 ^ 64" using a unat64_lt [of fin] by simp
  moreover have "m x = m' x" if "unat a \<le> unat x" "unat x < unat a + 12" for x
    using 2(4) that le by simp
  ultimately have f: "pe_canary m a = pe_canary m' a" "pe_item m a = pe_item m' a" "pe_size m a = pe_size m' a"
    "pe_padding_data m a = pe_padding_data m' a" "pe_padding_hdr m a = pe_padding_hdr m' a"
    using pe_cong [of a m m'] by blast+
  have "smem_entries m' (a + 16 + ucast s') es fin"
  proof (cases "ucast it = item")
    case True
    then have "e = a" "s = s'" using 2(3) by auto
    moreover have "smem_entries m (a + 16 + ucast s') es fin" using 2(2) by simp
    ultimately show ?thesis by (elim entries_cong) (use 2(4) u in simp)
  next
    case False
    then have "entry_at es item (a + 16 + ucast s') = Some (e, s, pd)" using 2(3) by simp
    moreover have "smem_entries m (a + 16 + ucast s') es fin" using 2(2) by simp
    ultimately show ?thesis using 2(1,4) by blast
  qed
  then show ?case using 2(2) f by simp
qed simp

lemma entries_apart:
  assumes "smem_entries m a es fin" "entry_at es i a = Some (e, s, pd)" "entry_at es j a = Some (e', s', pd')" "i \<noteq> j"
  shows "unat e + 16 + unat s \<le> unat e' \<or> unat e' + 16 + unat s' \<le> unat e"
  using assms
proof (induction m a es fin rule: smem_entries.induct)
  case (2 m a it t td es fin)
  have a: "unat a + 16 + unat t \<le> unat fin" using 2(2) by simp
  have u: "unat (a + 16 + ucast t) = unat a + 16 + unat t" by (rule entry_step [OF a])
  have tail: "smem_entries m (a + 16 + ucast t) es fin" using 2(2) by simp
  note lo = entry_at_sound [OF tail, of i e s pd] entry_at_sound [OF tail, of j e' s' pd']
  show ?case using 2 lo u by (auto split: if_splits)
qed simp

lemma part_payload:
  assumes ok: "smem_part_ok m part es" and at: "entry_at es item (sp_virt_base part + 32) = Some (e, s, pd)"
    and frame: "\<And>x. unat x < unat e + 16 \<or> unat e + 16 + unat s \<le> unat x \<Longrightarrow> m x = m' x"
  shows "smem_part_ok m' part es" "phdr_free_cached m' (sp_virt_base part) = phdr_free_cached m (sp_virt_base part)"
proof -
  let ?B = "sp_virt_base part"
  note b = part_ok_bounds [OF ok]
  have e: "unat ?B + 32 \<le> unat e" using entry_at_sound [OF b(7) at] b(4) by simp
  have B: "unat ?B + 32 < 2 ^ 64" using b(8-11) by linarith
  have f: "phdr_free_uncached m' ?B = phdr_free_uncached m ?B"
    unfolding phdr_free_uncached_def using frame e b(5) B by (intro rd32_cong) (auto intro: sym)
  show c: "phdr_free_cached m' ?B = phdr_free_cached m ?B"
    unfolding phdr_free_cached_def using frame e b(6) B by (intro rd32_cong) (auto intro: sym)
  show "smem_part_ok m' part es"
    using ok entries_payload [OF b(7) at frame] f c by (simp add: smem_part_ok_def Let_def phdr_to_last_uncached_entry_def)
qed

section \<open>The contract\<close>

definition ph_load :: "private_heap \<Rightarrow> u64 \<Rightarrow> nat \<Rightarrow> byte list" where
  "ph_load s a n = mrd (fst s) a n"

definition ph_store :: "private_heap \<Rightarrow> u64 \<Rightarrow> byte list \<Rightarrow> private_heap" where
  "ph_store s a bs = (mwr (fst s) a bs, snd s)"

text \<open>An item that a lookup returns is the payload of an entry.\<close>

lemma ph_get_entry:
  assumes inv: "ph_invar s" and g: "ph_get s i = Inr (p, q)"
  obtains es e n pd where "smem_part_ok (fst s) (snd s) es" "entry_at es i (sp_virt_base (snd s) + 32) = Some (e, n, pd)"
    "unat p = unat e + 16" "unat q = unat n - unat pd"
    "unat (sp_virt_base (snd s)) + 32 \<le> unat e" "unat e + 16 + unat n \<le> unat (sp_virt_base (snd s)) + unat (sp_size (snd s))"
proof -
  obtain m part where s: "s = (m, part)" by (cases s)
  let ?B = "sp_virt_base part"
  obtain es where ok: "smem_part_ok m part es" and c: "phdr_free_cached m ?B = ucast (sp_size part)"
    using inv by (auto simp: ph_invar_def s)
  obtain e n pd where at: "entry_at es i (?B + 32) = Some (e, n, pd)" and pq: "p = e + 16" "q = ucast (n - ucast pd)"
    using g ph_get_eq [OF ok c, of i] by (auto simp: s split: option.splits)
  note b = part_ok_bounds [OF ok]
  have "unat ?B + 32 \<le> unat e" "unat e + 16 + unat n \<le> unat ?B + unat (sp_size part)"
    using entry_at_sound [OF b(7) at] b(1,4,9,10) by auto
  then show ?thesis using that [of es e n pd] ok at get_private_found(2,3) [OF ok at] pq by (simp add: s)
qed

lemma ph_item_bound:
  assumes "ph_invar s" "ph_get s i = Inr (p, q)"
  shows "unat (sp_virt_base (snd s)) + 48 \<le> unat p" "unat p + unat q \<le> unat (sp_virt_base (snd s)) + unat (sp_size (snd s))"
    "unat p + unat q < 2 ^ 64"
proof -
  obtain es e n pd where e: "smem_part_ok (fst s) (snd s) es"
    "entry_at es i (sp_virt_base (snd s) + 32) = Some (e, n, pd)" "unat p = unat e + 16" "unat q = unat n - unat pd"
    "unat (sp_virt_base (snd s)) + 32 \<le> unat e" "unat e + 16 + unat n \<le> unat (sp_virt_base (snd s)) + unat (sp_size (snd s))"
    by (rule ph_get_entry [OF assms])
  show "unat (sp_virt_base (snd s)) + 48 \<le> unat p" "unat p + unat q \<le> unat (sp_virt_base (snd s)) + unat (sp_size (snd s))"
    "unat p + unat q < 2 ^ 64"
    using e part_ok_bounds(11) [OF e(1)] by linarith+
qed

lemma ph_items_apart:
  assumes inv: "ph_invar s" and i: "ph_get s i = Inr (p, q)" and j: "ph_get s j = Inr (p', q')" and ne: "i \<noteq> j"
  shows "unat p + unat q \<le> unat p' \<or> unat p' + unat q' \<le> unat p"
proof -
  obtain m part es where s: "s = (m, part)" and ok: "smem_part_ok m part es"
    and c: "phdr_free_cached m (sp_virt_base part) = ucast (sp_size part)"
    using inv by (cases s) (auto simp: ph_invar_def)
  obtain e n pd e' n' pd' where at: "entry_at es i (sp_virt_base part + 32) = Some (e, n, pd)"
    "entry_at es j (sp_virt_base part + 32) = Some (e', n', pd')" "p = e + 16" "q = ucast (n - ucast pd)"
    "p' = e' + 16" "q' = ucast (n' - ucast pd')"
    using i j ph_get_eq [OF ok c] by (auto simp: s split: option.splits)
  then show ?thesis
    using entries_apart [OF part_ok_bounds(7) [OF ok] at(1,2) ne] get_private_found(2,3) [OF ok at(1)]
      get_private_found(2,3) [OF ok at(2)] by auto
qed

lemma ph_store_keeps:
  assumes inv: "ph_invar s" and g: "ph_get s i = Inr (p, q)" and a: "unat p \<le> unat a" "unat a + length bs \<le> unat p + unat q"
  shows "ph_invar (ph_store s a bs)" "ph_get (ph_store s a bs) j = ph_get s j"
proof -
  obtain m part es where s: "s = (m, part)" and ok: "smem_part_ok m part es"
    and c: "phdr_free_cached m (sp_virt_base part) = ucast (sp_size part)"
    using inv by (cases s) (auto simp: ph_invar_def)
  obtain e n pd where at: "entry_at es i (sp_virt_base part + 32) = Some (e, n, pd)" "p = e + 16" "q = ucast (n - ucast pd)"
    using g ph_get_eq [OF ok c] by (auto simp: s split: option.splits)
  note pq = get_private_found(2,3) [OF ok at(1), folded at(2,3)]
  have b: "unat p + unat q < 2 ^ 64" by (rule ph_item_bound(3) [OF inv g])
  have "m x = mwr m a bs x" if "unat x < unat e + 16 \<or> unat e + 16 + unat n \<le> unat x" for x
    using that pq a b by (intro mwr_outside [symmetric]) auto
  note k = part_payload [OF ok at(1) this]
  show "ph_invar (ph_store s a bs)" using k c by (auto simp: ph_store_def ph_invar_def s)
  have c': "phdr_free_cached (mwr m a bs) (sp_virt_base part) = ucast (sp_size part)" using k(2) c by simp
  show "ph_get (ph_store s a bs) j = ph_get s j"
    using ph_get_eq [OF k(1) c'] ph_get_eq [OF ok c] by (simp add: ph_store_def s)
qed

lemma ph_load_store:
  "unat a + length bs < 2 ^ 64 \<Longrightarrow> ph_load (ph_store s a bs) a (length bs) = bs"
  "unat a + length bs < 2 ^ 64 \<Longrightarrow> unat b + n < 2 ^ 64 \<Longrightarrow> unat b + n \<le> unat a \<or> unat a + length bs \<le> unat b \<Longrightarrow>
     ph_load (ph_store s a bs) b n = ph_load s b n"
  by (auto simp: ph_load_def ph_store_def mrd_mwr_same mrd_mwr_other buf_get_def)

text \<open>An allocation writes behind all entries, so it keeps the items and their bytes.\<close>

lemma ph_alloc_found:
  assumes "ph_invar s" "ph_valid s i n" "isl (ph_get s i)" "ph_cost n \<le> ph_space s" "ph_get s j = Inr (p, q)"
  shows "ph_get (snd (ph_alloc s i n)) j = Inr (p, q)"
  using ph_alloc_laws(5) [OF assms(1-4), of j] assms(3,5) by (cases "j = i") auto

lemma ph_alloc_load:
  assumes inv: "ph_invar s" and v: "ph_valid s i n" and new: "isl (ph_get s i)" and fit: "ph_cost n \<le> ph_space s"
    and g: "ph_get s j = Inr (p, q)"
  shows "ph_load (snd (ph_alloc s i n)) p (unat q) = ph_load s p (unat q)"
proof -
  obtain m part es where s: "s = (m, part)" and ok: "smem_part_ok m part es"
    and c: "phdr_free_cached m (sp_virt_base part) = ucast (sp_size part)"
    using inv by (cases s) (auto simp: ph_invar_def)
  let ?B = "sp_virt_base part"
  let ?h = "phdr_to_last_uncached_entry m ?B"
  obtain e k pd where at: "entry_at es j (?B + 32) = Some (e, k, pd)" "p = e + 16" "q = ucast (k - ucast pd)"
    using g ph_get_eq [OF ok c] by (auto simp: s split: option.splits)
  note pq = get_private_found(2,3) [OF ok at(1), folded at(2,3)]
  have e: "unat ?B + 32 \<le> unat e" "unat e + 16 + unat k \<le> unat ?h"
    using entry_at_sound [OF part_ok_bounds(7) [OF ok] at(1)] part_ok_bounds(4) [OF ok] by auto
  have V: "0 < unat n" "unat ?B + 2 ^ 32 + unat n + 24 < 2 ^ 64" using v by (auto simp: ph_valid_def s)
  have sp: "16 + pad8 (unat n) \<le> part_space m part" using fit by (simp add: s ph_cost_def ph_space_def)
  have none: "entry_at es i (?B + 32) = None" using new ph_absent [OF ok c] by (simp add: s)
  have al: "ph_alloc s i n = (Inr (), (alloc_store m part ?h i n, part))"
    using alloc_private_cases [OF ok V(2), of i] none sp by (simp add: ph_alloc_def s)
  have "alloc_store m part ?h i n x = m x" if "unat p \<le> unat x" "unat x < unat p + unat q" for x
    using that e pq by (intro alloc_store_ok(3) [OF ok V(1) sp]) linarith+
  then have "mrd (alloc_store m part ?h i n) p (unat q) = mrd m p (unat q)"
    using ph_item_bound(3) [OF inv g] by (intro mrd_cong) auto
  then show ?thesis by (simp add: al) (simp add: ph_load_def s)
qed

interpretation ps: item_store ph_invar ph_valid ph_space ph_cost ph_granted ph_alloc ph_get ph_load ph_store
  by unfold_locales (fact ph_alloc_found ph_alloc_load ph_item_bound(3) ph_items_apart ph_store_keeps ph_load_store)+

end
