(* ===== verification/Glink_Edge.thy ===== *)
theory Glink_Edge
  imports Glink_Smem Smem_Store
begin

text \<open>
  The life of a G-Link edge (\<^verbatim>\<open>drivers/rpmsg/qcom_glink_smem.c\<close>): registration takes the index
  descriptor and the transmit FIFO from shared memory and hands two pipes to the G-Link core; the
  receive FIFO is looked up when the first data arrives.  The pipes of \<open>Glink_Smem\<close> are the values
  behind the pointers kept here.  The device core, the interrupt and mailbox frameworks and the
  G-Link core are outside the file: their outcomes are the fields of \<open>edge_env\<close>, and the calls made
  to them are returned in order.
\<close>

section \<open>The edge\<close>

definition SMEM_GLINK_NATIVE_XPRT_DESCRIPTOR :: u32 where "SMEM_GLINK_NATIVE_XPRT_DESCRIPTOR = 478"
definition SMEM_GLINK_NATIVE_XPRT_FIFO_0 :: u32 where "SMEM_GLINK_NATIVE_XPRT_FIFO_0 = 479"
definition SMEM_GLINK_NATIVE_XPRT_FIFO_1 :: u32 where "SMEM_GLINK_NATIVE_XPRT_FIFO_1 = 480"

lemmas glink_items = SMEM_GLINK_NATIVE_XPRT_DESCRIPTOR_def SMEM_GLINK_NATIVE_XPRT_FIFO_0_def SMEM_GLINK_NATIVE_XPRT_FIFO_1_def

text \<open>A pipe with its pointers: the addresses of both indices and of the FIFO.\<close>

record edge_pipe =
  ep_length :: u64
  ep_tail :: u64
  ep_head :: u64
  ep_fifo :: "u64 option"

text \<open>The edge with the two pipes that the G-Link core holds for it; \<open>gs_glink\<close>: the core is attached.\<close>

record qcom_glink_smem =
  gs_irq :: int
  gs_remote_pid :: u32
  gs_glink :: bool
  gs_rx :: edge_pipe
  gs_tx :: edge_pipe

text \<open>The calls to the frameworks; the flag of an acquiring call is whether it succeeded.\<close>

datatype edge_call =
    Device_Register bool | Put_Device | Device_Unregister
  | Request_Irq int bool | Enable_Irq int | Disable_Irq int
  | Mbox_Request_Channel bool | Mbox_Free_Channel | Mbox_Send_Message | Mbox_Client_Txdone
  | Native_Probe bool | Native_Remove | Native_Rx | Native_Start | Native_Early_Ssr
  | Ipc_Log_Context_Create

text \<open>The outcomes of the calls, in the order of the calls; \<open>None\<close> is success.\<close>

record edge_env =
  ev_kzalloc :: bool
  ev_device_register :: "errno option"
  ev_remote_pid :: "errno + u32"
  ev_rx_pipe :: bool
  ev_tx_pipe :: bool
  ev_lock_desc :: "errno option"
  ev_lock_fifo :: "errno option"
  ev_irq :: int
  ev_request_irq :: "errno option"
  ev_mbox :: "errno option"
  ev_probe :: "errno option"
  ev_ilctxt :: bool

section \<open>Registration\<close>

text \<open>\<^verbatim>\<open>ret && ret != -EEXIST\<close>: an item that is there already is taken over.\<close>

definition alloc_failed :: "errno + unit \<Rightarrow> errno option" where
  "alloc_failed r = (case r of Inr _ \<Rightarrow> None | Inl e \<Rightarrow> if e = EEXIST then None else Some e)"

text \<open>An item with the size the driver gets: allocated unless there, then looked up.\<close>

definition edge_item :: "errno option \<Rightarrow> qcom_smem option \<Rightarrow> mem \<Rightarrow> u32 \<Rightarrow> u32 \<Rightarrow> u64 \<Rightarrow> (errno + u64 \<times> u64) \<times> mem" where
  "edge_item lock smem m pid item sz =
     (case qcom_smem_alloc lock smem m pid item sz of (r, m1) \<Rightarrow>
        (case alloc_failed r of
           Some e \<Rightarrow> (Inl e, m1)
         | None \<Rightarrow> (qcom_smem_get smem m1 pid item, m1)))"

text \<open>The pipes, whose indices are the first four words of the descriptor item.\<close>

definition edge_pipes :: "u64 \<Rightarrow> u64 \<Rightarrow> u64 \<Rightarrow> edge_pipe \<times> edge_pipe" where
  "edge_pipes descs fifo len =
     (\<lparr>ep_length = 0, ep_tail = descs + 8, ep_head = descs + 12, ep_fifo = None\<rparr>,
      \<lparr>ep_length = len, ep_tail = descs, ep_head = descs + 4, ep_fifo = Some fifo\<rparr>)"

text \<open>From the interrupt on: \<open>m\<close> is the memory with both items.\<close>

definition edge_attach ::
  "edge_env \<Rightarrow> mem \<Rightarrow> u32 \<Rightarrow> edge_pipe \<times> edge_pipe \<Rightarrow> (errno + qcom_glink_smem) \<times> mem \<times> edge_call list" where
  "edge_attach env m pid pipes =
     (let rx_pipe = fst pipes; tx_pipe = snd pipes; irq = ev_irq env in
      case ev_request_irq env of Some e \<Rightarrow> (Inl e, m, [Request_Irq irq False])
      | None \<Rightarrow>
        (case ev_mbox env of Some e \<Rightarrow> (Inl e, m, [Request_Irq irq True, Mbox_Request_Channel False])
         | None \<Rightarrow>
           let m1 = wr32 m (ep_tail rx_pipe) 0;
               m2 = wr32 m1 (ep_head tx_pipe) 0;
               calls = [Request_Irq irq True, Mbox_Request_Channel True, Native_Probe (ev_probe env = None)]
           in case ev_probe env of Some e \<Rightarrow> (Inl e, m2, calls @ [Mbox_Free_Channel])
              | None \<Rightarrow>
                (Inr \<lparr>gs_irq = irq, gs_remote_pid = pid, gs_glink = True, gs_rx = rx_pipe, gs_tx = tx_pipe\<rparr>, m2,
                 calls @ (if ev_ilctxt env then [] else [Ipc_Log_Context_Create]) @ [Enable_Irq irq])))"

text \<open>The part of the registration that ends in \<^verbatim>\<open>err_put_dev\<close> when it fails.\<close>

definition edge_setup ::
  "edge_env \<Rightarrow> qcom_smem option \<Rightarrow> mem \<Rightarrow> (errno + qcom_glink_smem) \<times> mem \<times> edge_call list" where
  "edge_setup env smem m =
     (case ev_remote_pid env of Inl e \<Rightarrow> (Inl e, m, [])
      | Inr pid \<Rightarrow>
        if \<not> ev_rx_pipe env \<or> \<not> ev_tx_pipe env then (Inl ENOMEM, m, [])
        else case edge_item (ev_lock_desc env) smem m pid SMEM_GLINK_NATIVE_XPRT_DESCRIPTOR 32 of
          (Inl e, m1) \<Rightarrow> (Inl e, m1, [])
        | (Inr (descs, sz), m1) \<Rightarrow>
          if sz \<noteq> 32 then (Inl EINVAL, m1, [])
          else (case edge_item (ev_lock_fifo env) smem m1 pid SMEM_GLINK_NATIVE_XPRT_FIFO_0 0x4000 of
             (Inl e, m2) \<Rightarrow> (Inl e, m2, [])
           | (Inr (fifo, len), m2) \<Rightarrow> edge_attach env m2 pid (edge_pipes descs fifo len)))"

definition qcom_glink_smem_register ::
  "edge_env \<Rightarrow> qcom_smem option \<Rightarrow> mem \<Rightarrow> (errno + qcom_glink_smem) \<times> mem \<times> edge_call list" where
  "qcom_glink_smem_register env smem m =
     (if \<not> ev_kzalloc env then (Inl ENOMEM, m, [])
      else case ev_device_register env of Some e \<Rightarrow> (Inl e, m, [Device_Register False, Put_Device])
      | None \<Rightarrow>
        (case edge_setup env smem m of
           (Inl e, m', calls) \<Rightarrow> (Inl e, m', Device_Register True # calls @ [Device_Unregister])
         | (Inr edge, m', calls) \<Rightarrow> (Inr edge, m', Device_Register True # calls)))"

section \<open>The edge in use\<close>

text \<open>The values behind the pointers of a pipe.\<close>

definition pipe_view :: "mem \<Rightarrow> edge_pipe \<Rightarrow> glink_smem_pipe" where
  "pipe_view m p = \<lparr>gp_length = ep_length p, gp_tail = rd32 m (ep_tail p), gp_head = rd32 m (ep_head p),
     gp_fifo = map_option (\<lambda>a. mrd m a (unat (ep_length p))) (ep_fifo p)\<rparr>"

text \<open>A transmission stores the FIFO and then the head.\<close>

definition edge_tx_write :: "mem \<Rightarrow> qcom_glink_smem \<Rightarrow> byte list \<Rightarrow> byte list \<Rightarrow> mem option" where
  "edge_tx_write m edge hdr data =
     (let tx = gs_tx edge in
      case (glink_smem_tx_write (pipe_view m tx) hdr data, ep_fifo tx) of
        (Some p, Some a) \<Rightarrow> Some (wr32 (mwr m a (the (gp_fifo p))) (ep_head tx) (gp_head p))
      | _ \<Rightarrow> None)"

definition edge_tx_avail :: "mem \<Rightarrow> qcom_glink_smem \<Rightarrow> u64" where
  "edge_tx_avail m edge = glink_smem_tx_avail (pipe_view m (gs_tx edge))"

text \<open>The receive FIFO is looked up on first use and kept in the pipe.\<close>

definition edge_rx_avail :: "qcom_smem option \<Rightarrow> mem \<Rightarrow> qcom_glink_smem \<Rightarrow> u64 \<times> qcom_glink_smem" where
  "edge_rx_avail smem m edge =
     (let rx = gs_rx edge; got = qcom_smem_get smem m (gs_remote_pid edge) SMEM_GLINK_NATIVE_XPRT_FIFO_1 in
      (fst (glink_smem_rx_avail (map_sum id (\<lambda>(a, len). (mrd m a (unat len), len)) got) (pipe_view m rx)),
       case (ep_fifo rx, got) of
         (None, Inr (a, len)) \<Rightarrow> edge\<lparr>gs_rx := rx\<lparr>ep_fifo := Some a, ep_length := len\<rparr>\<rparr>
       | _ \<Rightarrow> edge))"

definition edge_rx_advance :: "mem \<Rightarrow> qcom_glink_smem \<Rightarrow> u64 \<Rightarrow> mem" where
  "edge_rx_advance m edge count =
     wr32 m (ep_tail (gs_rx edge)) (gp_tail (glink_smem_rx_advance (pipe_view m (gs_rx edge)) count))"

definition glink_smem_tx_kick :: "qcom_glink_smem \<Rightarrow> edge_call list" where
  "glink_smem_tx_kick smem = [Mbox_Send_Message, Mbox_Client_Txdone]"

definition qcom_glink_smem_intr :: "qcom_glink_smem \<Rightarrow> edge_call list" where
  "qcom_glink_smem_intr smem = [Native_Rx]"

definition qcom_glink_smem_start :: "int \<Rightarrow> qcom_glink_smem \<Rightarrow> int \<times> edge_call list" where
  "qcom_glink_smem_start started smem = (started, [Native_Start])"

definition qcom_glink_smem_early_ssr_notify :: "qcom_glink_smem \<Rightarrow> edge_call list" where
  "qcom_glink_smem_early_ssr_notify smem = (if gs_glink smem then [Native_Early_Ssr] else [])"

definition qcom_glink_smem_unregister :: "qcom_glink_smem option \<Rightarrow> edge_call list" where
  "qcom_glink_smem_unregister smem =
     (case smem of None \<Rightarrow> []
      | Some edge \<Rightarrow> [Disable_Irq (gs_irq edge), Native_Remove, Mbox_Free_Channel, Device_Unregister])"

section \<open>What an edge holds\<close>

text \<open>
  The order the frameworks ask for: a device is registered before anything is requested for it and
  unregistered last, which also returns its interrupt; the mailbox channel outlives the G-Link core;
  the interrupt is enabled only while the core is attached.  \<open>None\<close>: the order is violated.
\<close>

record edge_held =
  eh_dev :: bool
  eh_irq :: bool
  eh_on :: bool
  eh_mbox :: bool
  eh_core :: bool

definition edge_none :: edge_held where
  "edge_none = \<lparr>eh_dev = False, eh_irq = False, eh_on = False, eh_mbox = False, eh_core = False\<rparr>"

definition edge_all :: edge_held where
  "edge_all = \<lparr>eh_dev = True, eh_irq = True, eh_on = True, eh_mbox = True, eh_core = True\<rparr>"

fun held_step :: "edge_call \<Rightarrow> edge_held \<Rightarrow> edge_held option" where
  "held_step (Device_Register _) h = (if eh_dev h then None else Some (h\<lparr>eh_dev := True\<rparr>))"
| "held_step Put_Device h = (if h = edge_none\<lparr>eh_dev := True\<rparr> then Some edge_none else None)"
| "held_step Device_Unregister h =
     (if eh_dev h \<and> \<not> eh_on h \<and> \<not> eh_mbox h \<and> \<not> eh_core h then Some (h\<lparr>eh_dev := False, eh_irq := False\<rparr>) else None)"
| "held_step (Request_Irq _ ok) h = (if eh_dev h \<and> \<not> eh_irq h then Some (h\<lparr>eh_irq := ok\<rparr>) else None)"
| "held_step (Enable_Irq _) h = (if eh_irq h \<and> eh_core h \<and> \<not> eh_on h then Some (h\<lparr>eh_on := True\<rparr>) else None)"
| "held_step (Disable_Irq _) h = (if eh_on h then Some (h\<lparr>eh_on := False\<rparr>) else None)"
| "held_step (Mbox_Request_Channel ok) h = (if eh_dev h \<and> \<not> eh_mbox h then Some (h\<lparr>eh_mbox := ok\<rparr>) else None)"
| "held_step Mbox_Free_Channel h = (if eh_mbox h \<and> \<not> eh_core h \<and> \<not> eh_on h then Some (h\<lparr>eh_mbox := False\<rparr>) else None)"
| "held_step Mbox_Send_Message h = (if eh_mbox h then Some h else None)"
| "held_step Mbox_Client_Txdone h = (if eh_mbox h then Some h else None)"
| "held_step (Native_Probe ok) h = (if eh_mbox h \<and> \<not> eh_core h then Some (h\<lparr>eh_core := ok\<rparr>) else None)"
| "held_step Native_Remove h = (if eh_core h \<and> \<not> eh_on h then Some (h\<lparr>eh_core := False\<rparr>) else None)"
| "held_step Native_Rx h = (if eh_core h then Some h else None)"
| "held_step Native_Start h = (if eh_core h then Some h else None)"
| "held_step Native_Early_Ssr h = (if eh_core h then Some h else None)"
| "held_step Ipc_Log_Context_Create h = Some h"

fun held_after :: "edge_call list \<Rightarrow> edge_held \<Rightarrow> edge_held option" where
  "held_after [] h = Some h"
| "held_after (c # cs) h = Option.bind (held_step c h) (held_after cs)"

lemma held_after_append: "held_after (cs @ ds) h = Option.bind (held_after cs h) (held_after ds)"
  by (induction cs h rule: held_after.induct) (auto simp: Option.bind_assoc split: Option.bind_splits)

lemmas held_simps = held_after_append edge_none_def edge_all_def

text \<open>A failing setup gives back all but the device and its interrupt; a successful one holds everything.\<close>

definition held_dev :: "bool \<Rightarrow> edge_held" where
  "held_dev irq = edge_none\<lparr>eh_dev := True, eh_irq := irq\<rparr>"

definition setup_held :: "(errno + qcom_glink_smem) \<times> mem \<times> edge_call list \<Rightarrow> bool" where
  "setup_held r = (case r of
     (Inl e, m', calls) \<Rightarrow> held_after calls (held_dev False) \<in> {Some (held_dev False), Some (held_dev True)}
   | (Inr edge, m', calls) \<Rightarrow> held_after calls (held_dev False) = Some edge_all)"

lemma attach_held: "setup_held (edge_attach env m pid pipes)"
  by (auto simp: edge_attach_def setup_held_def Let_def held_dev_def held_simps split: option.splits)

lemma edge_setup_held: "setup_held (edge_setup env smem m)"
proof -
  have "setup_held (Inl e, m', [])" for e m' by (simp add: setup_held_def)
  then show ?thesis
    by (simp add: edge_setup_def attach_held split: sum.splits prod.splits)
qed

section \<open>An edge in shared memory\<close>

text \<open>
  The invariant of a registered edge: its partition is well-formed, the indices are the words of the
  descriptor item and the transmit FIFO is an item of its own.
\<close>

definition edge_ok :: "qcom_smem \<Rightarrow> smem_partition \<Rightarrow> mem \<Rightarrow> qcom_glink_smem \<Rightarrow> bool" where
  "edge_ok s part m edge =
     (smem_part s (gs_remote_pid edge) = Some part \<and> ph_invar (m, part) \<and>
      ph_get (m, part) SMEM_GLINK_NATIVE_XPRT_DESCRIPTOR = Inr (ep_tail (gs_tx edge), 32) \<and>
      ep_head (gs_tx edge) = ep_tail (gs_tx edge) + 4 \<and>
      ep_tail (gs_rx edge) = ep_tail (gs_tx edge) + 8 \<and> ep_head (gs_rx edge) = ep_tail (gs_tx edge) + 12 \<and>
      (case ep_fifo (gs_tx edge) of None \<Rightarrow> False
       | Some a \<Rightarrow> ph_get (m, part) SMEM_GLINK_NATIVE_XPRT_FIFO_0 = Inr (a, ep_length (gs_tx edge))))"

text \<open>The items other than \<open>K\<close> are where they were and hold what they held.\<close>

definition items_kept :: "u32 set \<Rightarrow> smem_partition \<Rightarrow> mem \<Rightarrow> mem \<Rightarrow> bool" where
  "items_kept K part m m' = (\<forall>j p q. j \<notin> K \<longrightarrow> ph_get (m, part) j = Inr (p, q) \<longrightarrow>
     ph_get (m', part) j = Inr (p, q) \<and> mrd m' p (unat q) = mrd m p (unat q))"

lemma items_kept_trans: "items_kept K part m m1 \<Longrightarrow> items_kept K part m1 m2 \<Longrightarrow> items_kept K part m m2"
  unfolding items_kept_def by metis

lemma items_kept_mono: "items_kept K part m m' \<Longrightarrow> K \<subseteq> K' \<Longrightarrow> items_kept K' part m m'"
  by (auto simp: items_kept_def)

lemma item_wr32:
  assumes "ph_invar (m, part)" "ph_get (m, part) i = Inr (p, q)" "unat p \<le> unat a" "unat a + 4 \<le> unat p + unat q"
  shows "ph_invar (wr32 m a v, part)" "ph_get (wr32 m a v, part) j = ph_get (m, part) j" "items_kept {i} part m (wr32 m a v)"
proof -
  have st: "ph_store (m, part) a (nat_to_le 4 (unat v)) = (wr32 m a v, part)" by (simp add: ph_store_def wr32_def)
  have l: "unat a + length (nat_to_le 4 (unat v)) \<le> unat p + unat q" using assms(4) by simp
  note k = ph_store_keeps [OF assms(1-3) l, unfolded st]
  show "ph_invar (wr32 m a v, part)" "ph_get (wr32 m a v, part) j = ph_get (m, part) j" by (rule k)+
  show "items_kept {i} part m (wr32 m a v)"
    using ps.item_isolated [OF assms(1-3) l] k(2) by (auto simp: items_kept_def st) (simp add: ph_load_def)
qed

lemma edge_item_ok:
  assumes part: "smem_part s pid = Some part" and inv: "ph_invar (m, part)"
    and item: "SMEM_ITEM_LAST_FIXED \<le> item" "item < sm_item_count s"
    and v: "ph_valid (m, part) item sz" and fit: "isl (ph_get (m, part) item) \<Longrightarrow> ph_cost sz \<le> ph_space (m, part)"
  obtains p q m1 where "edge_item None (Some s) m pid item sz = (Inr (p, q), m1)" "ph_invar (m1, part)"
    "ph_get (m1, part) item = Inr (p, q)" "if isl (ph_get (m, part) item) then q = sz else ph_get (m, part) item = Inr (p, q)"
    "ph_space (m1, part) = ph_space (m, part) - (if isl (ph_get (m, part) item) then ph_cost sz else 0)"
    "items_kept {} part m m1" "\<forall>j k. ph_valid (m, part) j k \<longrightarrow> j \<noteq> item \<longrightarrow> ph_get (m1, part) j = ph_get (m, part) j"
proof -
  note e = ps.ensure_item [OF inv v fit]
  obtain r m1 where al: "ph_alloc (m, part) item sz = (r, (m1, part))"
    by (cases "qcom_smem_alloc_private m part item sz") (auto simp: ph_alloc_def)
  then have q: "qcom_smem_alloc None (Some s) m pid item sz = (r, m1)"
    using part item by (auto simp: qcom_smem_alloc_def ph_alloc_def not_less split: prod.splits)
  have g: "qcom_smem_get (Some s) m1 pid item = ph_get (m1, part) item"
    using part item by (auto simp: qcom_smem_get_def ph_get_def)
  obtain p l where pl: "ph_get (m1, part) item = Inr (p, l)"
    "if isl (ph_get (m, part) item) then unat l = ph_granted sz else ph_get (m, part) item = Inr (p, l)"
    using e(4) by (auto simp: al)
  have "alloc_failed r = None" using e(1) by (auto simp: al alloc_failed_def split: if_splits)
  then have "edge_item None (Some s) m pid item sz = (Inr (p, l), m1)" using q g pl(1) by (simp add: edge_item_def)
  moreover have "items_kept {} part m m1" using e(5) by (auto simp: items_kept_def al ph_load_def)
  ultimately show ?thesis
    using that [of p l m1] e(2,3,6) pl by (auto simp: al ph_granted_def word_unat_eq_iff split: if_splits)
qed

text \<open>All calls of a registration for the remote processor \<open>pid\<close> succeed.\<close>

definition edge_env_ok :: "edge_env \<Rightarrow> u32 \<Rightarrow> bool" where
  "edge_env_ok env pid = (ev_kzalloc env \<and> ev_device_register env = None \<and> ev_remote_pid env = Inr pid \<and>
     ev_rx_pipe env \<and> ev_tx_pipe env \<and> ev_lock_desc env = None \<and> ev_lock_fifo env = None \<and>
     ev_request_irq env = None \<and> ev_mbox env = None \<and> ev_probe env = None)"

text \<open>
  A partition an edge can be set up in: each of the two items is there, the descriptor with its size,
  or there is room for it.
\<close>

definition edge_room :: "qcom_smem \<Rightarrow> u32 \<Rightarrow> smem_partition \<Rightarrow> mem \<Rightarrow> bool" where
  "edge_room s pid part m =
     (let desc = ph_get (m, part) SMEM_GLINK_NATIVE_XPRT_DESCRIPTOR; fifo = ph_get (m, part) SMEM_GLINK_NATIVE_XPRT_FIFO_0 in
      smem_part s pid = Some part \<and> ph_invar (m, part) \<and> SMEM_GLINK_NATIVE_XPRT_FIFO_0 < sm_item_count s \<and>
      unat (sp_virt_base part) + 2 ^ 32 + 2 ^ 16 < 2 ^ 64 \<and>
      (case desc of Inl _ \<Rightarrow> True | Inr (_, sz) \<Rightarrow> sz = 32) \<and>
      (if isl desc then ph_cost 32 else 0) + (if isl fifo then ph_cost 0x4000 else 0) \<le> ph_space (m, part))"

lemma edge_items:
  assumes room: "edge_room s pid part m"
  obtains d f len m1 m2 where
    "edge_item None (Some s) m pid SMEM_GLINK_NATIVE_XPRT_DESCRIPTOR 32 = (Inr (d, 32), m1)"
    "edge_item None (Some s) m1 pid SMEM_GLINK_NATIVE_XPRT_FIFO_0 0x4000 = (Inr (f, len), m2)"
    "ph_invar (m2, part)" "ph_get (m2, part) SMEM_GLINK_NATIVE_XPRT_DESCRIPTOR = Inr (d, 32)"
    "ph_get (m2, part) SMEM_GLINK_NATIVE_XPRT_FIFO_0 = Inr (f, len)" "items_kept {} part m m2"
    "isl (ph_get (m, part) SMEM_GLINK_NATIVE_XPRT_FIFO_0) \<Longrightarrow> len = 0x4000"
proof -
  let ?D = SMEM_GLINK_NATIVE_XPRT_DESCRIPTOR and ?F = SMEM_GLINK_NATIVE_XPRT_FIFO_0
  note r = room [unfolded edge_room_def Let_def]
  have v: "ph_valid (m, part) ?D 32" "ph_valid (m, part) ?F 0x4000" "ph_valid (m1, part) ?F 0x4000" for m1
    using r by (simp_all add: ph_valid_def glink_items)
  have c: "SMEM_ITEM_LAST_FIXED \<le> ?D" "SMEM_ITEM_LAST_FIXED \<le> ?F" "?D < sm_item_count s" "?F < sm_item_count s" "?D \<noteq> ?F"
    using r by (auto simp: glink_items SMEM_ITEM_LAST_FIXED_def word_less_nat_alt)
  obtain d q m1 where d: "edge_item None (Some s) m pid ?D 32 = (Inr (d, q), m1)" "ph_invar (m1, part)"
    "ph_get (m1, part) ?D = Inr (d, q)" "if isl (ph_get (m, part) ?D) then q = 32 else ph_get (m, part) ?D = Inr (d, q)"
    "ph_space (m1, part) = ph_space (m, part) - (if isl (ph_get (m, part) ?D) then ph_cost 32 else 0)"
    "items_kept {} part m m1" "\<forall>j k. ph_valid (m, part) j k \<longrightarrow> j \<noteq> ?D \<longrightarrow> ph_get (m1, part) j = ph_get (m, part) j"
    by (rule edge_item_ok [of s pid part m ?D 32]) (use r v c in auto)
  have q: "q = 32" using d(4) r by (auto split: if_splits)
  have F: "ph_get (m1, part) ?F = ph_get (m, part) ?F" using d(7) v(2) c(5) by metis
  have p: "smem_part s pid = Some part" using r by simp
  have fit: "ph_cost 0x4000 \<le> ph_space (m1, part)" if "isl (ph_get (m1, part) ?F)" using r that d(5) F by auto
  obtain f l m2 where f: "edge_item None (Some s) m1 pid ?F 0x4000 = (Inr (f, l), m2)" "ph_invar (m2, part)"
    "ph_get (m2, part) ?F = Inr (f, l)" "if isl (ph_get (m1, part) ?F) then l = 0x4000 else ph_get (m1, part) ?F = Inr (f, l)"
    "ph_space (m2, part) = ph_space (m1, part) - (if isl (ph_get (m1, part) ?F) then ph_cost 0x4000 else 0)"
    "items_kept {} part m1 m2" "\<forall>j k. ph_valid (m1, part) j k \<longrightarrow> j \<noteq> ?F \<longrightarrow> ph_get (m2, part) j = ph_get (m1, part) j"
    by (rule edge_item_ok [OF p d(2) c(2,4) v(3) fit])
  have "ph_get (m2, part) ?D = Inr (d, 32)" using f(6) d(3) q by (auto simp: items_kept_def)
  then show ?thesis
    using that [of d m1 f l m2] d f q F items_kept_trans [OF d(6) f(6)] by auto
qed

lemma edge_established:
  assumes room: "edge_room s pid part m" and env: "edge_env_ok env pid"
  obtains edge m' calls where "qcom_glink_smem_register env (Some s) m = (Inr edge, m', calls)" "edge_ok s part m' edge"
    "gs_remote_pid edge = pid" "isl (ph_get (m, part) SMEM_GLINK_NATIVE_XPRT_FIFO_0) \<longrightarrow> ep_length (gs_tx edge) = 0x4000"
    "rd32 m' (ep_head (gs_tx edge)) = 0" "rd32 m' (ep_tail (gs_rx edge)) = 0" "ep_fifo (gs_rx edge) = None"
    "items_kept {SMEM_GLINK_NATIVE_XPRT_DESCRIPTOR} part m m'"
proof -
  let ?D = SMEM_GLINK_NATIVE_XPRT_DESCRIPTOR and ?F = SMEM_GLINK_NATIVE_XPRT_FIFO_0
  obtain d f len m1 m2 where it: "edge_item None (Some s) m pid ?D 32 = (Inr (d, 32), m1)"
    "edge_item None (Some s) m1 pid ?F 0x4000 = (Inr (f, len), m2)" "ph_invar (m2, part)"
    "ph_get (m2, part) ?D = Inr (d, 32)" "ph_get (m2, part) ?F = Inr (f, len)" "items_kept {} part m m2"
    "isl (ph_get (m, part) ?F) \<Longrightarrow> len = 0x4000"
    by (rule edge_items [OF room]) blast
  have "unat d + 32 < 2 ^ 64" using ph_item_bound(3) [OF it(3,4)] by simp
  then have u: "unat (d + 4) = unat d + 4" "unat (d + 8) = unat d + 8" "unat (d + 12) = unat d + 12" "unat d + 32 < 2 ^ 64"
    by (auto intro!: unat_add_num)
  define m3 where "m3 = wr32 m2 (d + 8) 0"
  define m4 where "m4 = wr32 m3 (d + 4) 0"
  have k3: "ph_invar (m3, part)" "ph_get (m3, part) j = ph_get (m2, part) j" "items_kept {?D} part m2 m3" for j
    unfolding m3_def using item_wr32 [OF it(3,4), of "d + 8"] u by auto
  have k4: "ph_invar (m4, part)" "ph_get (m4, part) j = ph_get (m2, part) j" "items_kept {?D} part m3 m4" for j
    unfolding m4_def using item_wr32 [OF k3(1), of ?D d 32 "d + 4"] k3(2) it(4) u by auto
  have z: "rd32 m4 (d + 4) = 0" "rd32 m4 (d + 8) = 0"
    using u by (auto simp: m4_def m3_def rd32_wr32_same rd_wr_other apart_def)
  have kept: "items_kept {?D} part m m4"
    using items_kept_mono [OF it(6)] items_kept_trans k3(3) k4(3) by blast
  let ?rx = "fst (edge_pipes d f len)" and ?tx = "snd (edge_pipes d f len)"
  define edge where "edge = \<lparr>gs_irq = ev_irq env, gs_remote_pid = pid, gs_glink = True, gs_rx = ?rx, gs_tx = ?tx\<rparr>"
  obtain calls where "edge_attach env m2 pid (edge_pipes d f len) = (Inr edge, m4, calls)"
    using env by (simp add: edge_attach_def edge_env_ok_def edge_def Let_def edge_pipes_def m3_def m4_def)
  then have "qcom_glink_smem_register env (Some s) m = (Inr edge, m4, Device_Register True # calls)"
    using env it(1,2) by (simp add: qcom_glink_smem_register_def edge_setup_def edge_env_ok_def)
  moreover have "edge_ok s part m4 edge"
    using room k4(1,2) it(4,5) by (simp add: edge_ok_def edge_def edge_pipes_def edge_room_def Let_def)
  ultimately show ?thesis
    using that it(7) z kept by (simp add: edge_def edge_pipes_def)
qed

text \<open>A transmission publishes the FIFO in one item and the head in the other.\<close>

lemma edge_tx_publish:
  assumes ok: "edge_ok s part m edge" and L: "unat (ep_length (gs_tx edge)) < 2 ^ 31"
    and w: "length hdr \<le> unat (ep_length (gs_tx edge))" "length data \<le> unat (ep_length (gs_tx edge))"
  obtains m' where "edge_tx_write m edge hdr data = Some m'" "edge_ok s part m' edge"
    "glink_smem_tx_write (pipe_view m (gs_tx edge)) hdr data = Some (pipe_view m' (gs_tx edge))"
    "items_kept {SMEM_GLINK_NATIVE_XPRT_DESCRIPTOR, SMEM_GLINK_NATIVE_XPRT_FIFO_0} part m m'"
    "rd32 m' (ep_tail (gs_rx edge)) = rd32 m (ep_tail (gs_rx edge))" "rd32 m' (ep_head (gs_rx edge)) = rd32 m (ep_head (gs_rx edge))"
proof -
  let ?D = SMEM_GLINK_NATIVE_XPRT_DESCRIPTOR and ?F = SMEM_GLINK_NATIVE_XPRT_FIFO_0 and ?tx = "gs_tx edge"
  let ?d = "ep_tail ?tx" and ?len = "unat (ep_length ?tx)"
  obtain a where a: "ep_fifo ?tx = Some a" and e: "ph_invar (m, part)" "ph_get (m, part) ?D = Inr (?d, 32)"
    "ph_get (m, part) ?F = Inr (a, ep_length ?tx)" "ep_head ?tx = ?d + 4" "ep_tail (gs_rx edge) = ?d + 8" "ep_head (gs_rx edge) = ?d + 12"
    using ok by (auto simp: edge_ok_def split: option.splits)
  have "unat ?d + 32 < 2 ^ 64" using ph_item_bound(3) [OF e(1,2)] by simp
  then have u: "unat (?d + 4) = unat ?d + 4" "unat (?d + 8) = unat ?d + 8" "unat (?d + 12) = unat ?d + 12" "unat ?d + 32 < 2 ^ 64"
    by (auto intro!: unat_add_num)
  obtain h fifo where tw: "glink_smem_tx_write (pipe_view m ?tx) hdr data = Some ((pipe_view m ?tx)\<lparr>gp_head := h, gp_fifo := Some fifo\<rparr>)"
    and fl: "length fifo = ?len"
    using tx_write_shape [of "pipe_view m ?tx" "mrd m a ?len" hdr data] a L w by (auto simp: pipe_view_def)
  define m' where "m' = wr32 (mwr m a fifo) (?d + 4) h"
  have pub: "ps.publish (m, part) a fifo (?d + 4) (nat_to_le 4 (unat h)) = (m', part)"
    by (simp add: ps.publish_def ph_store_def m'_def wr32_def)
  have ne: "?F \<noteq> ?D" by (simp add: glink_items)
  have b: "unat a + length fifo \<le> unat a + unat (ep_length ?tx)" "unat ?d \<le> unat (?d + 4)"
    "unat (?d + 4) + length (nat_to_le 4 (unat h)) \<le> unat ?d + unat (32 :: u64)" using fl u by auto
  note P = ps.publish_laws [OF e(1,3) order.refl b(1) e(2) b(2,3) ne, unfolded pub]
  have ap: "unat ?d + 32 \<le> unat a \<or> unat a + ?len \<le> unat ?d" using ph_items_apart [OF e(1,2,3)] ne by auto
  have w4: "rd32 m' c = rd32 m c" if "unat ?d \<le> unat c" "unat c + 4 \<le> unat ?d + 32" "unat c + 4 \<le> unat ?d + 4 \<or> unat ?d + 8 \<le> unat c" for c
  proof -
    have "ph_load (m', part) c 4 = ph_load (m, part) c 4" by (rule P(6)) (use that ap u fl in auto)
    then show ?thesis by (simp add: rd32_def ph_load_def)
  qed
  have "rd32 m' (?d + 4) = h" unfolding m'_def using u by (intro rd32_wr32_same) simp
  moreover have "mrd m' a ?len = fifo" using P(3) fl by (simp add: ph_load_def)
  ultimately have view: "pipe_view m' ?tx = (pipe_view m ?tx)\<lparr>gp_head := h, gp_fifo := Some fifo\<rparr>"
    using w4 [of ?d] a u e(4) by (simp add: pipe_view_def)
  have "edge_tx_write m edge hdr data = Some m'" using tw a e(4) by (simp add: edge_tx_write_def m'_def)
  moreover have "edge_ok s part m' edge" using ok P(1,2) by (simp add: edge_ok_def split: option.splits)
  moreover have "items_kept {?D, ?F} part m m'" using P(2,5) by (simp add: items_kept_def ph_load_def)
  ultimately show ?thesis using that tw view w4 [of "?d + 8"] w4 [of "?d + 12"] u e(5,6) by simp
qed

text \<open>The transmit pipe of a new edge whose remote side has not moved its tail.\<close>

lemma edge_fresh:
  assumes ok: "edge_ok s part m edge" and L: "ep_length (gs_tx edge) = 0x4000"
    and z: "rd32 m (ep_head (gs_tx edge)) = 0" "rd32 m (ep_tail (gs_tx edge)) = 0"
  shows "glink_ok (pipe_view m (gs_tx edge))" "glink_contents (pipe_view m (gs_tx edge)) = []"
    "glink_used (pipe_view m (gs_tx edge)) = 0" "unat (edge_tx_avail m edge) = 0x4000 - 16"
proof -
  obtain a where a: "ep_fifo (gs_tx edge) = Some a" using ok by (auto simp: edge_ok_def split: option.splits)
  show u: "glink_used (pipe_view m (gs_tx edge)) = 0" using z by (simp add: glink_used_def pipe_view_def)
  have i: "glink_inv (pipe_view m (gs_tx edge))" using a z L by (simp add: glink_inv_def pipe_view_def)
  show "glink_ok (pipe_view m (gs_tx edge))" using i u L by (simp add: glink_ok_def pipe_view_def)
  show "glink_contents (pipe_view m (gs_tx edge)) = []" using length_glink_contents [OF i] u by simp
  show "unat (edge_tx_avail m edge) = 0x4000 - 16"
    using glink_tx_avail_used [OF i] u L by (simp add: edge_tx_avail_def pipe_view_def)
qed

lemma edge_deliver:
  assumes ok: "edge_ok s part m edge" and L: "ep_length (gs_tx edge) = 0x4000"
    and z: "rd32 m (ep_head (gs_tx edge)) = 0" "rd32 m (ep_tail (gs_tx edge)) = 0"
    and n: "0 < length hdr + length data" "length hdr + length data \<le> unat (edge_tx_avail m edge)"
  obtains m' where "edge_tx_write m edge hdr data = Some m'" "edge_ok s part m' edge"
    "fst (glink_get (length hdr + length data) (pipe_view m' (gs_tx edge))) = hdr @ data"
    "items_kept {SMEM_GLINK_NATIVE_XPRT_DESCRIPTOR, SMEM_GLINK_NATIVE_XPRT_FIFO_0} part m m'"
proof -
  let ?p = "pipe_view m (gs_tx edge)" and ?n = "length hdr + length data"
  note f = edge_fresh [OF ok L z]
  have inv: "glink_inv ?p" using f(1) by (simp add: glink_ok_def)
  have N: "?n \<le> 0x4000 - 16" using n(2) f(4) by simp
  have pad: "pad8 ?n \<le> 0x4000 - 16" using N by (simp add: pad8_def) 
  obtain a where a: "ep_fifo (gs_tx edge) = Some a" using ok by (auto simp: edge_ok_def split: option.splits)
  have fifo: "gp_fifo ?p = Some (mrd m a 0x4000)" using a L by (simp add: pipe_view_def)
  have "glink_used ?p + pad8 ?n < length (mrd m a 0x4000)" using f(3) pad by simp
  then obtain p' where p': "glink_smem_tx_write ?p hdr data = Some p'" "glink_inv p'" "gp_length p' = gp_length ?p"
    "glink_used p' = pad8 ?n" "take ?n (glink_contents p') = hdr @ data"
    using glink_tx_write_ok [OF inv fifo, of hdr data] f(2,3) by auto
  obtain m' where m': "edge_tx_write m edge hdr data = Some m'" "edge_ok s part m' edge"
    "glink_smem_tx_write ?p hdr data = Some (pipe_view m' (gs_tx edge))"
    "items_kept {SMEM_GLINK_NATIVE_XPRT_DESCRIPTOR, SMEM_GLINK_NATIVE_XPRT_FIFO_0} part m m'"
    by (rule edge_tx_publish [OF ok, of hdr data]) (use L N in auto)
  have e: "pipe_view m' (gs_tx edge) = p'" using m'(3) p'(1) by simp
  have g: "glink_ok p'" using p'(2,3,4) pad L by (simp add: glink_ok_def pipe_view_def)
  have "?n \<le> length (glink_contents p')" using length_glink_contents [OF p'(2)] p'(4) pad8_laws(1) [of ?n] by simp
  then have "fst (glink_get ?n p') = hdr @ data" using glink_get_laws(1) [OF g n(1)] p'(5) by simp
  then show ?thesis using that m'(1,2,4) e by simp
qed

section \<open>Properties\<close>

text \<open>
  C18: registration and unregistration are balanced.  Whatever allocation, device tree, shared
  memory, interrupt, mailbox or G-Link core answer, the calls come in an order the frameworks allow;
  a failing registration holds nothing in the end, a successful one holds everything with the
  interrupt enabled last, and unregistering it gives all of it back.
\<close>

theorem glink_edge_balanced:
  "case qcom_glink_smem_register env smem m of
     (Inl e, m', calls) \<Rightarrow> held_after calls edge_none = Some edge_none
   | (Inr edge, m', calls) \<Rightarrow> held_after calls edge_none = Some edge_all \<and>
       held_after (calls @ qcom_glink_smem_unregister (Some edge)) edge_none = Some edge_none"
proof -
  have d: "held_after (Device_Register True # cs) edge_none = held_after cs (held_dev False)"
    "held_after [Device_Register False, Put_Device] edge_none = Some edge_none" for cs
    by (simp_all add: held_dev_def edge_none_def)
  have u: "held_after [Device_Unregister] (held_dev irq) = Some edge_none" for irq
    by (simp add: held_dev_def edge_none_def)
  have all: "held_after (qcom_glink_smem_unregister (Some edge)) edge_all = Some edge_none" for edge
    by (simp add: qcom_glink_smem_unregister_def held_simps)
  obtain r m' calls where s: "edge_setup env smem m = (r, m', calls)" by (cases "edge_setup env smem m")
  have "setup_held (r, m', calls)" using edge_setup_held [of env smem m] s by simp
  then show ?thesis
    by (cases r) (auto simp: qcom_glink_smem_register_def s setup_held_def held_after_append d u all
      simp del: held_after.simps(2) split: option.splits)
qed

text \<open>An empty partition large enough for an edge, and an environment without failures.\<close>

definition edge_part :: smem_partition where
  "edge_part = \<lparr>sp_virt_base = 4096, sp_phys_base = 0, sp_cacheline = 64, sp_size = 0x5000\<rparr>"

definition edge_mem :: mem where
  "edge_mem = wr32 (wr32 (\<lambda>_. 0) 4108 32) 4112 0x5000"

definition edge_smem :: qcom_smem where
  "edge_smem = \<lparr>sm_item_count = 512, sm_ptable = 0, sm_global_partition = edge_part, sm_partitions = replicate 20 edge_part,
     sm_regions = []\<rparr>"

definition edge_calm :: edge_env where
  "edge_calm = \<lparr>ev_kzalloc = True, ev_device_register = None, ev_remote_pid = Inr 2, ev_rx_pipe = True, ev_tx_pipe = True,
     ev_lock_desc = None, ev_lock_fifo = None, ev_irq = 17, ev_request_irq = None, ev_mbox = None, ev_probe = None, ev_ilctxt = False\<rparr>"

lemma edge_demo:
  "edge_room edge_smem 2 edge_part edge_mem" "edge_env_ok edge_calm 2" "isl (ph_get (edge_mem, edge_part) i)"
proof -
  have f: "phdr_free_uncached edge_mem 4096 = 32" "phdr_free_cached edge_mem 4096 = 0x5000"
    unfolding phdr_free_uncached_def phdr_free_cached_def edge_mem_def
    by (simp_all add: rd_wr_other rd32_wr32_same apart_def)
  have o: "smem_part_ok edge_mem edge_part []"
    by (simp add: smem_part_ok_def edge_part_def f Let_def)
  have c: "phdr_free_cached edge_mem (sp_virt_base edge_part) = ucast (sp_size edge_part)" by (simp add: edge_part_def f)
  show g: "isl (ph_get (edge_mem, edge_part) i)" for i using ph_absent [OF o c] by simp
  have sp: "ph_space (edge_mem, edge_part) = 0x5000 - 32" by (simp add: ph_space_def part_space_def edge_part_def f)
  have inv: "ph_invar (edge_mem, edge_part)" using o c by (auto simp: ph_invar_def)
  have cost: "ph_cost 32 = 48" "ph_cost 0x4000 = 16400" by (simp_all add: ph_cost_def pad8_def)
  have pt: "smem_part edge_smem 2 = Some edge_part" by (simp add: smem_part_def edge_smem_def SMEM_HOST_COUNT_def) (simp add: edge_part_def)
  show "edge_room edge_smem 2 edge_part edge_mem"
    using g [of SMEM_GLINK_NATIVE_XPRT_DESCRIPTOR] g [of SMEM_GLINK_NATIVE_XPRT_FIFO_0] sp inv cost pt
    by (auto simp: edge_room_def Let_def edge_smem_def SMEM_GLINK_NATIVE_XPRT_FIFO_0_def isl_def) (simp add: edge_part_def)
  show "edge_env_ok edge_calm 2" by (simp add: edge_env_ok_def edge_calm_def)
qed

text \<open>
  C17: registration in a well-formed partition with room sets the edge up, whether its items are new or
  left over from an earlier run: the indices are the first words of the 32-byte descriptor item, a new
  transmit FIFO has 16 KiB, this side's two indices are zero, the receive FIFO is still unknown, the
  partition stays well-formed, and every other item keeps its place and its bytes.
\<close>

theorem glink_edge_established:
  assumes "edge_room s pid part m" "edge_env_ok env pid"
  shows "\<exists>edge m' calls. qcom_glink_smem_register env (Some s) m = (Inr edge, m', calls) \<and> edge_ok s part m' edge \<and>
     (isl (ph_get (m, part) SMEM_GLINK_NATIVE_XPRT_FIFO_0) \<longrightarrow> ep_length (gs_tx edge) = 0x4000) \<and>
     gp_head (pipe_view m' (gs_tx edge)) = 0 \<and> gp_tail (pipe_view m' (gs_rx edge)) = 0 \<and> gp_fifo (pipe_view m' (gs_rx edge)) = None \<and>
     items_kept {SMEM_GLINK_NATIVE_XPRT_DESCRIPTOR} part m m'"
  by (rule edge_established [OF assms]) (auto simp: pipe_view_def)

theorem glink_edge_established_witness:
  "\<exists>edge m' calls. qcom_glink_smem_register edge_calm (Some edge_smem) edge_mem = (Inr edge, m', calls) \<and>
     edge_ok edge_smem edge_part m' edge \<and> ep_length (gs_tx edge) = 0x4000"
  using glink_edge_established [OF edge_demo(1,2)] edge_demo(3) by blast

text \<open>
  C8: a transmission through shared memory does what the FIFO operation does, and nothing else.
  Whatever the remote processor has written into the indices, it returns, the pipe seen through the
  memory is the one \<^verbatim>\<open>glink_smem_tx_write\<close> gives, the receive indices are untouched, the partition stays
  well-formed with the same items, and every item of another client keeps its bytes.
\<close>

theorem glink_edge_tx_confined:
  assumes "edge_ok s part m edge" "unat (ep_length (gs_tx edge)) < 2 ^ 31"
    and "length hdr \<le> unat (ep_length (gs_tx edge))" "length data \<le> unat (ep_length (gs_tx edge))"
  shows "\<exists>m'. edge_tx_write m edge hdr data = Some m' \<and> edge_ok s part m' edge \<and>
     glink_smem_tx_write (pipe_view m (gs_tx edge)) hdr data = Some (pipe_view m' (gs_tx edge)) \<and>
     rd32 m' (ep_tail (gs_rx edge)) = rd32 m (ep_tail (gs_rx edge)) \<and> rd32 m' (ep_head (gs_rx edge)) = rd32 m (ep_head (gs_rx edge)) \<and>
     items_kept {SMEM_GLINK_NATIVE_XPRT_DESCRIPTOR, SMEM_GLINK_NATIVE_XPRT_FIFO_0} part m m'"
  by (rule edge_tx_publish [OF assms]) blast

theorem glink_edge_tx_confined_witness:
  "\<exists>edge m m'. edge_ok edge_smem edge_part m edge \<and> edge_tx_write m edge [1, 2, 3, 4] [5] = Some m' \<and>
     glink_smem_tx_write (pipe_view m (gs_tx edge)) [1, 2, 3, 4] [5] = Some (pipe_view m' (gs_tx edge))"
proof -
  obtain edge m calls where e: "edge_ok edge_smem edge_part m edge" "ep_length (gs_tx edge) = 0x4000"
    by (rule edge_established [OF edge_demo(1,2)]) (use edge_demo(3) in blast)
  show ?thesis using glink_edge_tx_confined [OF e(1), of "[1, 2, 3, 4]" "[5]"] e by auto
qed

end
