(* ===== verification/Smem_Probe.thy ===== *)
theory Smem_Probe
  imports Smem
begin

text \<open>
  How the shared-memory driver comes up (\<^verbatim>\<open>smem.c\<close> from \<^verbatim>\<open>qcom_smem_get_sbl_version\<close> on): reading
  the partition table, validating partition headers, registering the global partition and the
  partitions of the local host, and the probe that combines them.  The platform calls (device tree,
  \<^verbatim>\<open>ioremap\<close>, hardware spinlock, allocator) are arguments; a null mapping is address 0.
\<close>

section \<open>The partition table\<close>

definition SMEM_MASTER_SBL_VERSION_INDEX :: u64 where "SMEM_MASTER_SBL_VERSION_INDEX = 7"
definition SMEM_GLOBAL_HEAP_VERSION :: u32 where "SMEM_GLOBAL_HEAP_VERSION = 11"
definition SMEM_GLOBAL_PART_VERSION :: u32 where "SMEM_GLOBAL_PART_VERSION = 12"
definition SMEM_PTABLE_MAGIC :: "byte list" where "SMEM_PTABLE_MAGIC = [0x24, 0x54, 0x4f, 0x43]"
definition SMEM_PART_MAGIC :: "byte list" where "SMEM_PART_MAGIC = [0x24, 0x50, 0x52, 0x54]"
definition SMEM_INFO_MAGIC :: "byte list" where "SMEM_INFO_MAGIC = [0x53, 0x49, 0x49, 0x49]"

text \<open>\<^verbatim>\<open>struct smem_ptable\<close>: 32 bytes of header, then entries of 48 bytes.\<close>

definition ptable_entry :: "u64 \<Rightarrow> u32 \<Rightarrow> u64" where "ptable_entry ptable i = ptable + 32 + 48 * ucast i"
definition pt_num_entries :: "mem \<Rightarrow> u64 \<Rightarrow> u32" where "pt_num_entries m p = rd32 m (p + 8)"
definition te_offset :: "mem \<Rightarrow> u64 \<Rightarrow> u32" where "te_offset m e = rd32 m e"
definition te_size :: "mem \<Rightarrow> u64 \<Rightarrow> u32" where "te_size m e = rd32 m (e + 4)"
definition te_host0 :: "mem \<Rightarrow> u64 \<Rightarrow> u16" where "te_host0 m e = rd16 m (e + 12)"
definition te_host1 :: "mem \<Rightarrow> u64 \<Rightarrow> u16" where "te_host1 m e = rd16 m (e + 14)"
definition te_cacheline :: "mem \<Rightarrow> u64 \<Rightarrow> u32" where "te_cacheline m e = rd32 m (e + 16)"

definition qcom_smem_get_sbl_version :: "mem \<Rightarrow> qcom_smem \<Rightarrow> u32" where
  "qcom_smem_get_sbl_version m smem =
     rd32 m (sr_virt_base (sm_regions smem ! 0) + 64 + 4 * SMEM_MASTER_SBL_VERSION_INDEX)"

definition qcom_smem_get_ptable :: "mem \<Rightarrow> qcom_smem \<Rightarrow> errno + u64" where
  "qcom_smem_get_ptable m smem =
     (let ptable = sm_ptable smem in
      if mrd m ptable 4 \<noteq> SMEM_PTABLE_MAGIC then Inl ENOENT
      else if rd32 m (ptable + 4) \<noteq> 1 then Inl EINVAL
      else Inr ptable)"

definition qcom_smem_get_item_count :: "mem \<Rightarrow> qcom_smem \<Rightarrow> u32" where
  "qcom_smem_get_item_count m smem =
     (case qcom_smem_get_ptable m smem of
        Inl _ \<Rightarrow> SMEM_ITEM_COUNT
      | Inr ptable \<Rightarrow>
          if ptable = 0 then SMEM_ITEM_COUNT
          else let info = ptable_entry ptable (pt_num_entries m ptable) in
               if mrd m info 4 \<noteq> SMEM_INFO_MAGIC then SMEM_ITEM_COUNT
               else ucast (rd16 m (info + 16)))"

definition qcom_smem_partition_header ::
  "(u64 \<Rightarrow> u64 \<Rightarrow> u64) \<Rightarrow> mem \<Rightarrow> qcom_smem \<Rightarrow> u64 \<Rightarrow> u16 \<Rightarrow> u16 \<Rightarrow> u64" where
  "qcom_smem_partition_header ioremap m smem entry host0 host1 =
     (let phys_addr = ucast (sr_aux_base (sm_regions smem ! 0) + ucast (te_offset m entry)) :: u32;
          header = ioremap (ucast phys_addr) (ucast (te_size m entry));
          sz = rd32 m (header + 8)
      in if header = 0 then 0
      else if mrd m header 4 \<noteq> SMEM_PART_MAGIC then 0
      else if host0 \<noteq> rd16 m (header + 4) then 0
      else if host1 \<noteq> rd16 m (header + 6) then 0
      else if sz \<noteq> te_size m entry then 0
      else if sz < phdr_free_uncached m header then 0
      else header)"

text \<open>The partition an entry of the table describes, mapped at \<open>header\<close>.\<close>

definition entry_partition :: "mem \<Rightarrow> qcom_smem \<Rightarrow> u64 \<Rightarrow> u64 \<Rightarrow> smem_partition" where
  "entry_partition m smem entry header =
     \<lparr>sp_virt_base = header,
      sp_phys_base = sr_aux_base (sm_regions smem ! 0) + ucast (te_offset m entry),
      sp_cacheline = ucast (te_cacheline m entry), sp_size = ucast (te_size m entry)\<rparr>"

fun find_global_entry :: "mem \<Rightarrow> u64 list \<Rightarrow> u64 option" where
  "find_global_entry m [] = None"
| "find_global_entry m (entry # entries) =
     (if te_offset m entry = 0 then find_global_entry m entries
      else if te_size m entry = 0 then find_global_entry m entries
      else if te_host0 m entry \<noteq> SMEM_GLOBAL_HOST then find_global_entry m entries
      else if te_host1 m entry = SMEM_GLOBAL_HOST then Some entry
      else find_global_entry m entries)"

definition table_entries :: "mem \<Rightarrow> u64 \<Rightarrow> u64 list" where
  "table_entries m ptable = map (\<lambda>i. ptable_entry ptable (of_nat i)) [0..<unat (pt_num_entries m ptable)]"

definition qcom_smem_set_global_partition ::
  "(u64 \<Rightarrow> u64 \<Rightarrow> u64) \<Rightarrow> mem \<Rightarrow> qcom_smem \<Rightarrow> (errno + unit) \<times> qcom_smem" where
  "qcom_smem_set_global_partition ioremap m smem =
     (if sp_virt_base (sm_global_partition smem) \<noteq> 0 then (Inl EINVAL, smem)
      else case qcom_smem_get_ptable m smem of
        Inl e \<Rightarrow> (Inl e, smem)
      | Inr ptable \<Rightarrow>
          (case find_global_entry m (table_entries m ptable) of
             None \<Rightarrow> (Inl EINVAL, smem)
           | Some entry \<Rightarrow>
               let header = qcom_smem_partition_header ioremap m smem entry SMEM_GLOBAL_HOST SMEM_GLOBAL_HOST in
               if header = 0 then (Inl EINVAL, smem)
               else (Inr (), smem\<lparr>sm_global_partition := entry_partition m smem entry header\<rparr>)))"

fun enumerate_loop ::
  "(u64 \<Rightarrow> u64 \<Rightarrow> u64) \<Rightarrow> mem \<Rightarrow> u16 \<Rightarrow> u64 list \<Rightarrow> qcom_smem \<Rightarrow> (errno + unit) \<times> qcom_smem" where
  "enumerate_loop ioremap m local_host [] smem = (Inr (), smem)"
| "enumerate_loop ioremap m local_host (entry # entries) smem =
     (if te_offset m entry = 0 then enumerate_loop ioremap m local_host entries smem
      else if te_size m entry = 0 then enumerate_loop ioremap m local_host entries smem
      else
        let host0 = te_host0 m entry; host1 = te_host1 m entry in
        if host0 \<noteq> local_host \<and> host1 \<noteq> local_host then enumerate_loop ioremap m local_host entries smem
        else
          let remote_host = (if host0 = local_host then host1 else host0) in
          if SMEM_HOST_COUNT \<le> ucast remote_host then (Inl EINVAL, smem)
          else if sp_virt_base (sm_partitions smem ! unat remote_host) \<noteq> 0 then (Inl EINVAL, smem)
          else
            let header = qcom_smem_partition_header ioremap m smem entry host0 host1 in
            if header = 0 then (Inl EINVAL, smem)
            else enumerate_loop ioremap m local_host entries
              (smem\<lparr>sm_partitions := (sm_partitions smem)[unat remote_host := entry_partition m smem entry header]\<rparr>))"

definition qcom_smem_enumerate_partitions ::
  "(u64 \<Rightarrow> u64 \<Rightarrow> u64) \<Rightarrow> mem \<Rightarrow> qcom_smem \<Rightarrow> u16 \<Rightarrow> (errno + unit) \<times> qcom_smem" where
  "qcom_smem_enumerate_partitions ioremap m smem local_host =
     (case qcom_smem_get_ptable m smem of
        Inl e \<Rightarrow> (Inl e, smem)
      | Inr ptable \<Rightarrow> enumerate_loop ioremap m local_host (table_entries m ptable) smem)"

section \<open>Probing\<close>

definition qcom_smem_map_toc :: "(u64 \<Rightarrow> u64 \<Rightarrow> u64) \<Rightarrow> qcom_smem \<Rightarrow> (errno + unit) \<times> qcom_smem" where
  "qcom_smem_map_toc ioremap smem =
     (let region = sm_regions smem ! 0;
          virt = ioremap (sr_aux_base region) 0x1000;
          ptable_start = ucast (sr_aux_base region + sr_size region - 0x1000) :: u32;
          ptable = ioremap (ucast ptable_start) 0x1000;
          smem' = smem\<lparr>sm_regions := (sm_regions smem)[0 := region\<lparr>sr_virt_base := virt\<rparr>], sm_ptable := ptable\<rparr>
      in if virt = 0 \<or> ptable = 0 then (Inl ENOMEM, smem') else (Inr (), smem'))"

definition qcom_smem_map_global :: "(u64 \<Rightarrow> u64 \<Rightarrow> u64) \<Rightarrow> qcom_smem \<Rightarrow> u32 \<Rightarrow> (errno + unit) \<times> qcom_smem" where
  "qcom_smem_map_global ioremap smem sz =
     (let region = sm_regions smem ! 0;
          phys_addr = ucast (sr_aux_base region) :: u32;
          virt = ioremap (ucast phys_addr) (ucast sz);
          smem' = smem\<lparr>sm_regions := (sm_regions smem)[0 := region\<lparr>sr_size := ucast sz, sr_virt_base := virt\<rparr>]\<rparr>
      in if virt = 0 then (Inl ENOMEM, smem') else (Inr (), smem'))"

text \<open>
  What the platform answers during a probe: whether the allocation succeeds, the device tree's
  regions (the second only with \<^verbatim>\<open>qcom,rpm-msg-ram\<close>), the hardware lock, and taking it.
\<close>

record smem_env =
  env_kzalloc :: bool
  env_reserved_mem :: "(u64 \<times> u64) option"
  env_memory_region :: "errno + u64 \<times> u64"
  env_rpm_msg_ram :: "(errno + u64 \<times> u64) option"
  env_hwlock_id :: "errno + u32"
  env_hwlock_request :: "u32 \<Rightarrow> bool"
  env_hwlock_take :: "errno option"

definition null_partition :: smem_partition where
  "null_partition = \<lparr>sp_virt_base = 0, sp_phys_base = 0, sp_cacheline = 0, sp_size = 0\<rparr>"

fun map_regions :: "(u64 \<Rightarrow> u64 \<Rightarrow> u64) \<Rightarrow> smem_region list \<Rightarrow> smem_region list option" where
  "map_regions ioremap [] = Some []"
| "map_regions ioremap (r # rs) =
     (let virt = ioremap (sr_aux_base r) (sr_size r) in
      if virt = 0 then None
      else map_option (\<lambda>rs'. r\<lparr>sr_virt_base := virt\<rparr> # rs') (map_regions ioremap rs))"

definition plain_region :: "u64 \<times> u64 \<Rightarrow> smem_region" where
  "plain_region r = \<lparr>sr_aux_base = fst r, sr_virt_base = 0, sr_size = snd r\<rparr>"

text \<open>The regions of the probe: the first from the reserved memory or the device tree.\<close>

definition probe_regions :: "smem_env \<Rightarrow> errno + smem_region list" where
  "probe_regions env =
     (case (case env_reserved_mem env of Some r \<Rightarrow> Inr r | None \<Rightarrow> env_memory_region env) of
        Inl e \<Rightarrow> Inl e
      | Inr r0 \<Rightarrow>
        (case env_rpm_msg_ram env of
           None \<Rightarrow> Inr [plain_region r0]
         | Some (Inl e) \<Rightarrow> Inl e
         | Some (Inr r1) \<Rightarrow> Inr [plain_region r0, plain_region r1]))"

text \<open>The selection by the boot loader's version, once the header has been read.\<close>

definition probe_version :: "(u64 \<Rightarrow> u64 \<Rightarrow> u64) \<Rightarrow> mem \<Rightarrow> qcom_smem \<Rightarrow> u32 \<Rightarrow> errno + qcom_smem" where
  "probe_version ioremap m smem sz =
     (let version = drop_bit 16 (qcom_smem_get_sbl_version m smem) in
      if version = SMEM_GLOBAL_PART_VERSION then
        (case qcom_smem_set_global_partition ioremap m smem of
           (Inl e, _) \<Rightarrow> Inl e
         | (Inr _, smem') \<Rightarrow> Inr (smem'\<lparr>sm_item_count := qcom_smem_get_item_count m smem'\<rparr>))
      else if version = SMEM_GLOBAL_HEAP_VERSION then
        Inr ((snd (qcom_smem_map_global ioremap smem sz))\<lparr>sm_item_count := SMEM_ITEM_COUNT\<rparr>)
      else Inl EINVAL)"

text \<open>From the check of the header to the registered handle.\<close>

definition probe_mapped :: "smem_env \<Rightarrow> (u64 \<Rightarrow> u64 \<Rightarrow> u64) \<Rightarrow> mem \<Rightarrow> qcom_smem \<Rightarrow> errno + qcom_smem" where
  "probe_mapped env ioremap m smem =
     (let header = sr_virt_base (sm_regions smem ! 0) in
      if rd32 m (header + 192) \<noteq> 1 \<or> rd32 m (header + 204) \<noteq> 0 then Inl EINVAL
      else case env_hwlock_id env of Inl e \<Rightarrow> Inl e
      | Inr hwlock_id \<Rightarrow>
        if \<not> env_hwlock_request env hwlock_id then Inl ENXIO
        else case env_hwlock_take env of Some e \<Rightarrow> Inl e
        | None \<Rightarrow>
          (case probe_version ioremap m smem (hd_available m header + hd_free_offset m header) of
             Inl e \<Rightarrow> Inl e
           | Inr smem' \<Rightarrow>
             (case qcom_smem_enumerate_partitions ioremap m smem' (ucast SMEM_HOST_APPS) of
                (Inl e, smem'') \<Rightarrow> if e \<noteq> ENOENT then Inl e else Inr smem''
              | (Inr _, smem'') \<Rightarrow> Inr smem'')))"

definition qcom_smem_probe :: "smem_env \<Rightarrow> (u64 \<Rightarrow> u64 \<Rightarrow> u64) \<Rightarrow> mem \<Rightarrow> errno + qcom_smem" where
  "qcom_smem_probe env ioremap m =
     (if \<not> env_kzalloc env then Inl ENOMEM
      else case probe_regions env of Inl e \<Rightarrow> Inl e
      | Inr regions \<Rightarrow>
        let smem = \<lparr>sm_item_count = 0, sm_ptable = 0, sm_global_partition = null_partition,
                    sm_partitions = replicate (unat SMEM_HOST_COUNT) null_partition, sm_regions = regions\<rparr>
        in case qcom_smem_map_toc ioremap smem of (Inl e, _) \<Rightarrow> Inl e
        | (Inr _, smem1) \<Rightarrow>
          (case map_regions ioremap (drop 1 (sm_regions smem1)) of None \<Rightarrow> Inl ENOMEM
           | Some rs \<Rightarrow> probe_mapped env ioremap m (smem1\<lparr>sm_regions := take 1 (sm_regions smem1) @ rs\<rparr>)))"


section \<open>Registered partitions are validated\<close>

text \<open>A partition slot is empty or holds a partition whose header in memory passed every check.\<close>

definition header_checked :: "mem \<Rightarrow> smem_partition \<Rightarrow> u16 \<Rightarrow> u16 \<Rightarrow> bool" where
  "header_checked m part host0 host1 =
     (let h = sp_virt_base part in
      mrd m h 4 = SMEM_PART_MAGIC \<and> rd16 m (h + 4) = host0 \<and> rd16 m (h + 6) = host1 \<and>
      sp_size part = ucast (phdr_size m h) \<and> phdr_free_uncached m h \<le> phdr_size m h \<and> sp_size part \<noteq> 0)"

definition slot_ok :: "mem \<Rightarrow> u16 \<Rightarrow> nat \<Rightarrow> smem_partition \<Rightarrow> bool" where
  "slot_ok m local_host k part =
     (sp_virt_base part = 0 \<or> header_checked m part local_host (of_nat k) \<or> header_checked m part (of_nat k) local_host)"

definition slots_ok :: "mem \<Rightarrow> u16 \<Rightarrow> qcom_smem \<Rightarrow> bool" where
  "slots_ok m local_host s =
     (length (sm_partitions s) = 25 \<and> (\<forall>k < 25. slot_ok m local_host k (sm_partitions s ! k)))"

lemma ucast_up_0: "(ucast (x :: u32) :: u64) = 0 \<longleftrightarrow> x = 0"
  by (simp only: word_unat_eq_iff unat_up) simp

lemma partition_header_checked:
  assumes "qcom_smem_partition_header ioremap m smem entry host0 host1 = h" "h \<noteq> 0" "te_size m entry \<noteq> 0"
  shows "header_checked m (entry_partition m smem entry h) host0 host1"
  using assms
  by (auto simp: qcom_smem_partition_header_def Let_def header_checked_def entry_partition_def phdr_size_def not_less
      ucast_up_0 split: if_splits)

lemma enumerate_slots:
  assumes "slots_ok m lh s" "enumerate_loop ioremap m lh entries s = (r, s')"
  shows "slots_ok m lh s' \<and> sm_global_partition s' = sm_global_partition s \<and>
     (\<forall>k < 25. sp_virt_base (sm_partitions s ! k) \<noteq> 0 \<longrightarrow> sm_partitions s' ! k = sm_partitions s ! k)"
  using assms
proof (induction entries arbitrary: s)
  case (Cons entry entries)
  let ?h0 = "te_host0 m entry" and ?h1 = "te_host1 m entry"
  define rem where "rem = (if ?h0 = lh then ?h1 else ?h0)"
  define h where "h = qcom_smem_partition_header ioremap m s entry ?h0 ?h1"
  define s1 where "s1 = s\<lparr>sm_partitions := (sm_partitions s)[unat rem := entry_partition m s entry h]\<rparr>"
  show ?case
  proof (cases "te_offset m entry = 0 \<or> te_size m entry = 0 \<or> (?h0 \<noteq> lh \<and> ?h1 \<noteq> lh)")
    case True
    then have "enumerate_loop ioremap m lh entries s = (r, s')" using Cons.prems(2) by (auto simp: Let_def split: if_splits)
    then show ?thesis by (rule Cons.IH [OF Cons.prems(1)])
  next
    case skip: False
    show ?thesis
    proof (cases "SMEM_HOST_COUNT \<le> ucast rem \<or> sp_virt_base (sm_partitions s ! unat rem) \<noteq> 0 \<or> h = 0")
      case True
      then have "s' = s" using skip Cons.prems(2) by (auto simp: Let_def rem_def h_def split: if_splits)
      then show ?thesis using Cons.prems(1) by simp
    next
      case False
      have "unat (ucast rem :: u32) = unat rem"
        by (simp add: unsigned_ucast_eq take_bit_nat_eq_self_iff order.strict_trans2 [OF unsigned_less])
      then have r25: "unat rem < 25" using False by (simp add: SMEM_HOST_COUNT_def word_le_nat_alt not_le)
      have run: "enumerate_loop ioremap m lh entries s1 = (r, s')"
        using Cons.prems(2) skip False by (auto simp: Let_def rem_def h_def s1_def split: if_splits)
      have "header_checked m (entry_partition m s entry h) ?h0 ?h1"
        using partition_header_checked [of ioremap m s entry ?h0 ?h1 h] skip False by (simp add: h_def)
      then have "slot_ok m lh (unat rem) (entry_partition m s entry h)"
        using skip by (auto simp: slot_ok_def rem_def)
      then have "slots_ok m lh s1"
        using Cons.prems(1) r25 by (auto simp: slots_ok_def s1_def nth_list_update)
      from Cons.IH [OF this run] show ?thesis
        using Cons.prems(1) r25 False by (auto simp: s1_def slots_ok_def nth_list_update split: if_splits)
    qed
  qed
qed simp

lemma set_global_checked:
  assumes "qcom_smem_set_global_partition ioremap m s = (Inr (), s')"
  shows "header_checked m (sm_global_partition s') SMEM_GLOBAL_HOST SMEM_GLOBAL_HOST \<and> sm_partitions s' = sm_partitions s"
proof -
  have size: "find_global_entry m es = Some e \<Longrightarrow> te_size m e \<noteq> 0" for es e
    by (induction es) (auto split: if_splits)
  show ?thesis
    using assms partition_header_checked [OF refl, of ioremap m s _ SMEM_GLOBAL_HOST SMEM_GLOBAL_HOST] size
    by (auto simp: qcom_smem_set_global_partition_def Let_def split: if_splits sum.splits option.splits)
qed

lemma probe_version_checked:
  assumes "probe_version ioremap m s sz = Inr s'" "sm_global_partition s = null_partition"
  shows "sm_partitions s' = sm_partitions s"
    and "sp_virt_base (sm_global_partition s') \<noteq> 0 \<Longrightarrow> header_checked m (sm_global_partition s') SMEM_GLOBAL_HOST SMEM_GLOBAL_HOST"
  using assms set_global_checked [of ioremap m s]
  by (auto simp: probe_version_def Let_def qcom_smem_map_global_def null_partition_def
      split: if_splits sum.splits prod.splits)

section \<open>Properties\<close>

text \<open>
  C19: after a successful probe every registered partition is one whose header, in shared memory,
  carries the magic number, the local host and the host of its slot (the global host for the global
  partition), the size of its table entry, and a free offset inside it.
\<close>

theorem smem_probe_partitions_checked:
  assumes "qcom_smem_probe env ioremap m = Inr s"
  shows "slots_ok m 0 s \<and>
    (sp_virt_base (sm_global_partition s) \<noteq> 0 \<longrightarrow>
      header_checked m (sm_global_partition s) SMEM_GLOBAL_HOST SMEM_GLOBAL_HOST)"
proof -
  obtain s2 where s2: "probe_mapped env ioremap m s2 = Inr s" "sm_global_partition s2 = null_partition"
    "sm_partitions s2 = replicate (unat SMEM_HOST_COUNT) null_partition"
    using assms unfolding qcom_smem_probe_def Let_def qcom_smem_map_toc_def
    by (auto split: if_splits sum.splits option.splits)
  obtain s3 r where p: "probe_version ioremap m s2 (hd_available m (sr_virt_base (sm_regions s2 ! 0)) +
        hd_free_offset m (sr_virt_base (sm_regions s2 ! 0))) = Inr s3"
    "qcom_smem_enumerate_partitions ioremap m s3 0 = (r, s)"
    using s2(1) unfolding probe_mapped_def Let_def SMEM_HOST_APPS_def
    by (auto split: if_splits sum.splits option.splits prod.splits)
  have s3: "slots_ok m 0 s3"
    using probe_version_checked(1) [OF p(1) s2(2)] s2(3)
    by (simp add: slots_ok_def slot_ok_def null_partition_def SMEM_HOST_COUNT_def)
  have "slots_ok m 0 s \<and> sm_global_partition s = sm_global_partition s3"
    using p(2) s3 enumerate_slots [OF s3] by (auto simp: qcom_smem_enumerate_partitions_def split: sum.splits)
  then show ?thesis using probe_version_checked(2) [OF p(1) s2(2)] by auto
qed

text \<open>A memory with a heap header, a partition table of one entry, and that entry's partition.\<close>

definition probe_bytes :: "(u64 \<times> byte) list" where
  "probe_bytes =
     [(0x100C0, 1), (0x1005E, 11),
      (0x1F000, 0x24), (0x1F001, 0x54), (0x1F002, 0x4f), (0x1F003, 0x43), (0x1F004, 1), (0x1F008, 1),
      (0x1F021, 0x20), (0x1F025, 1), (0x1F02E, 3),
      (0x12000, 0x24), (0x12001, 0x50), (0x12002, 0x52), (0x12003, 0x54), (0x12006, 3), (0x12009, 1), (0x1200C, 32)]"

definition probe_mem :: mem where
  "probe_mem x = (case map_of probe_bytes x of Some b \<Rightarrow> b | None \<Rightarrow> 0)"

definition probe_env :: smem_env where
  "probe_env = \<lparr>env_kzalloc = True, env_reserved_mem = Some (0x10000, 0x10000), env_memory_region = Inl EINVAL,
     env_rpm_msg_ram = None, env_hwlock_id = Inr 3, env_hwlock_request = (\<lambda>_. True), env_hwlock_take = None\<rparr>"

lemma upt_small: "[0..<4] = [0, 1, 2, 3 :: nat]" "[0..<2] = [0, 1 :: nat]"
  by (simp_all add: upt_rec)

lemma probe_reads:
  "rd32 probe_mem 0x100C0 = 1" "rd32 probe_mem 0x100CC = 0" "rd32 probe_mem 0x1005C = 0xB0000"
  "mrd probe_mem 0x1F000 4 = [0x24, 0x54, 0x4f, 0x43]" "rd32 probe_mem 0x1F004 = 1" "rd32 probe_mem 0x1F008 = 1"
  "rd32 probe_mem 0x1F020 = 0x2000" "rd32 probe_mem 0x1F024 = 0x100" "rd16 probe_mem 0x1F02C = 0" "rd16 probe_mem 0x1F02E = 3"
  "rd32 probe_mem 0x1F030 = 0"
  "mrd probe_mem 0x12000 4 = [0x24, 0x50, 0x52, 0x54]" "rd16 probe_mem 0x12004 = 0" "rd16 probe_mem 0x12006 = 3"
  "rd32 probe_mem 0x12008 = 0x100" "rd32 probe_mem 0x1200C = 0x20"
  "rd32 probe_mem 0x100C8 = 0" "rd32 probe_mem 0x100C4 = 0"
  by (simp_all add: rd32_def rd16_def mrd_def upt_small probe_mem_def probe_bytes_def)

lemma probe_run:
  "\<exists>s. qcom_smem_probe probe_env (\<lambda>a _. a) probe_mem = Inr s \<and> sp_virt_base (sm_partitions s ! 3) = 0x12000"
  by (simp add: qcom_smem_probe_def probe_env_def probe_regions_def plain_region_def qcom_smem_map_toc_def Let_def
      probe_mapped_def probe_reads hd_available_def hd_free_offset_def probe_version_def qcom_smem_get_sbl_version_def
      SMEM_MASTER_SBL_VERSION_INDEX_def SMEM_GLOBAL_PART_VERSION_def SMEM_GLOBAL_HEAP_VERSION_def qcom_smem_map_global_def
      qcom_smem_enumerate_partitions_def qcom_smem_get_ptable_def SMEM_PTABLE_MAGIC_def table_entries_def pt_num_entries_def
      ptable_entry_def te_offset_def te_size_def te_host0_def te_host1_def te_cacheline_def SMEM_HOST_COUNT_def SMEM_HOST_APPS_def
      null_partition_def qcom_smem_partition_header_def SMEM_PART_MAGIC_def phdr_free_uncached_def entry_partition_def)

theorem smem_probe_partitions_checked_witness:
  "\<exists>s. qcom_smem_probe probe_env (\<lambda>a _. a) probe_mem = Inr s \<and> sp_virt_base (sm_partitions s ! 3) = 0x12000 \<and> slots_ok probe_mem 0 s"
  using probe_run smem_probe_partitions_checked by blast

end
