(* ===== verification/Ipc_Tsv.thy ===== *)
theory Ipc_Tsv
  imports Prelude "HOL-Library.Monad_Syntax"
begin

text \<open>
  The message format of the IPC logging facility (\<^verbatim>\<open>kernel/trace/ipc_logging.c\<close>): a message is built in
  an encode context as a sequence of typed, sized values and read back value by value into a decode
  context.  A \<^verbatim>\<open>memcpy\<close> that would leave its buffer makes a definition return \<open>None\<close>.  Offsets are
  C \<^verbatim>\<open>int\<close>s; the sums that C computes in unsigned 32-bit arithmetic are reduced modulo \<open>2 ^ 32\<close>.
\<close>

section \<open>Contexts\<close>

definition MAX_MSG_SIZE :: int where "MAX_MSG_SIZE = 255"
definition MAX_MSG_DECODED_SIZE :: int where "MAX_MSG_DECODED_SIZE = MAX_MSG_SIZE * 4"

definition TSV_TYPE_TIMESTAMP :: byte where "TSV_TYPE_TIMESTAMP = 1"
definition TSV_TYPE_POINTER :: byte where "TSV_TYPE_POINTER = 2"
definition TSV_TYPE_INT32 :: byte where "TSV_TYPE_INT32 = 3"
definition TSV_TYPE_BYTE_ARRAY :: byte where "TSV_TYPE_BYTE_ARRAY = 4"
definition TSV_TYPE_QTIMER :: byte where "TSV_TYPE_QTIMER = 5"
definition TSV_TYPE_STRING :: u32 where "TSV_TYPE_STRING = 2"

text \<open>A \<^verbatim>\<open>struct tsv_header\<close> is two bytes, type and size.\<close>

record tsv_header =
  th_type :: byte
  th_size :: byte

definition tsv_header_bytes :: "tsv_header \<Rightarrow> byte list" where
  "tsv_header_bytes h = [th_type h, th_size h]"

definition bytes_tsv_header :: "byte list \<Rightarrow> tsv_header" where
  "bytes_tsv_header bs = \<lparr>th_type = bs ! 0, th_size = bs ! 1\<rparr>"

record encode_context =
  ec_hdr :: tsv_header
  ec_buff :: "byte list"
  ec_offset :: int

text \<open>The output buffer as a whole, the place of \<^verbatim>\<open>buff\<close> in it, and the space left.\<close>

record decode_context =
  dc_mem :: "byte list"
  dc_buff :: nat
  dc_size :: int

section \<open>Writing\<close>

definition msg_encode_start :: "encode_context option \<Rightarrow> u32 \<Rightarrow> encode_context option" where
  "msg_encode_start eo type = map_option (\<lambda>e. e\<lparr>ec_hdr := \<lparr>th_type = ucast type, th_size = 0\<rparr>, ec_offset := 2\<rparr>) eo"

definition msg_encode_end :: "encode_context option \<Rightarrow> encode_context option option" where
  "msg_encode_end eo = (case eo of None \<Rightarrow> Some None
   | Some e \<Rightarrow>
       let h = (ec_hdr e)\<lparr>th_size := of_int (ec_offset e - 2)\<rparr> in
       do { b \<leftarrow> mem_put (ec_buff e) 0 (tsv_header_bytes h); Some (Some (e\<lparr>ec_hdr := h, ec_buff := b\<rparr>)) })"

text \<open>A \<^verbatim>\<open>memcpy\<close> to and from a place of the message buffer given by two \<^verbatim>\<open>int\<close>s.\<close>

definition buff_put :: "encode_context \<Rightarrow> int \<Rightarrow> byte list \<Rightarrow> encode_context option" where
  "buff_put e i bs = (if i < 0 then None else do { b \<leftarrow> mem_put (ec_buff e) (nat i) bs; Some (e\<lparr>ec_buff := b\<rparr>) })"

definition buff_get :: "encode_context \<Rightarrow> int \<Rightarrow> int \<Rightarrow> byte list option" where
  "buff_get e i n = (if i < 0 \<or> n < 0 then None else mem_get (ec_buff e) (nat i) (nat n))"

text \<open>\<open>data\<close> is the object the source pointer points to; \<open>sz\<close> is a 32-bit unsigned number.\<close>

definition tsv_write_data :: "encode_context option \<Rightarrow> byte list \<Rightarrow> nat \<Rightarrow> ((errno + unit) \<times> encode_context option) option" where
  "tsv_write_data eo data sz = (case eo of None \<Rightarrow> Some (Inl EINVAL, None)
   | Some e \<Rightarrow>
       if (ec_offset e + int sz) mod 2 ^ 32 > MAX_MSG_SIZE then Some (Inl EINVAL, Some e)
       else do {
         d \<leftarrow> mem_get data 0 sz;
         e1 \<leftarrow> buff_put e (ec_offset e) d;
         Some (Inr (), Some (e1\<lparr>ec_offset := ec_offset e1 + int sz\<rparr>))
       })"

definition tsv_write_header :: "encode_context option \<Rightarrow> byte \<Rightarrow> nat \<Rightarrow> ((errno + unit) \<times> encode_context option) option" where
  "tsv_write_header eo type sz = tsv_write_data eo (tsv_header_bytes \<lparr>th_type = type, th_size = of_nat sz\<rparr>) 2"

text \<open>The common body of the typed writers: a header, and if that fits, the value.\<close>

definition tsv_value_write :: "encode_context option \<Rightarrow> byte \<Rightarrow> byte list \<Rightarrow> nat \<Rightarrow> ((errno + unit) \<times> encode_context option) option" where
  "tsv_value_write eo type data sz = do {
     (r, e1) \<leftarrow> tsv_write_header eo type sz;
     case r of Inl x \<Rightarrow> Some (Inl x, e1) | Inr _ \<Rightarrow> tsv_write_data e1 data sz
   }"

definition tsv_timestamp_write :: "encode_context option \<Rightarrow> u64 \<Rightarrow> ((errno + unit) \<times> encode_context option) option" where
  "tsv_timestamp_write eo t_now = tsv_value_write eo TSV_TYPE_TIMESTAMP (nat_to_le 8 (unat t_now)) 8"

definition tsv_qtimer_write :: "encode_context option \<Rightarrow> u64 \<Rightarrow> ((errno + unit) \<times> encode_context option) option" where
  "tsv_qtimer_write eo t_now = tsv_value_write eo TSV_TYPE_QTIMER (nat_to_le 8 (unat t_now)) 8"

definition tsv_pointer_write :: "encode_context option \<Rightarrow> u64 \<Rightarrow> ((errno + unit) \<times> encode_context option) option" where
  "tsv_pointer_write eo p = tsv_value_write eo TSV_TYPE_POINTER (nat_to_le 8 (unat p)) 8"

definition tsv_int32_write :: "encode_context option \<Rightarrow> u32 \<Rightarrow> ((errno + unit) \<times> encode_context option) option" where
  "tsv_int32_write eo n = tsv_value_write eo TSV_TYPE_INT32 (nat_to_le 4 (unat n)) 4"

text \<open>The size is an \<^verbatim>\<open>int\<close> that becomes a \<^verbatim>\<open>uint32_t\<close> on the way down.\<close>

definition tsv_byte_array_write :: "encode_context option \<Rightarrow> byte list \<Rightarrow> int \<Rightarrow> ((errno + unit) \<times> encode_context option) option" where
  "tsv_byte_array_write eo data data_size = tsv_value_write eo TSV_TYPE_BYTE_ARRAY data (nat (data_size mod 2 ^ 32))"

section \<open>Formatted output\<close>

text \<open>The conversions of the kernel's \<^verbatim>\<open>printf\<close> that the readers use, on bytes.\<close>

fun digits :: "nat \<Rightarrow> nat \<Rightarrow> nat list" where
  "digits b n = (if b \<le> 1 \<or> n < b then [n] else digits b (n div b) @ [n mod b])"

declare digits.simps [simp del]

definition digit_char :: "nat \<Rightarrow> byte" where
  "digit_char d = of_nat (if d < 10 then 48 + d else 87 + d)"

definition pad_left :: "byte \<Rightarrow> nat \<Rightarrow> byte list \<Rightarrow> byte list" where
  "pad_left c w bs = replicate (w - length bs) c @ bs"

definition fmt_u :: "byte \<Rightarrow> nat \<Rightarrow> nat \<Rightarrow> byte list" where
  "fmt_u c w n = pad_left c w (map digit_char (digits 10 n))"

definition fmt_hex :: "nat \<Rightarrow> nat \<Rightarrow> byte list" where
  "fmt_hex w n = pad_left 32 w ([48, 120] @ map digit_char (digits 16 n))"

text \<open>
  \<^verbatim>\<open>scnprintf\<close> into the output buffer: as much of the text as fits before the terminating zero; with no
  space left nothing is written.
\<close>

definition IPC_SPRINTF_DECODE :: "decode_context \<Rightarrow> byte list \<Rightarrow> decode_context option" where
  "IPC_SPRINTF_DECODE d txt =
     (if dc_size d \<le> 0 then Some d
      else let t = take (nat (dc_size d - 1)) txt in
        do { m \<leftarrow> mem_put (dc_mem d) (dc_buff d) (t @ [0]);
             Some (d\<lparr>dc_mem := m, dc_buff := dc_buff d + length t, dc_size := dc_size d - int (length t)\<rparr>) })"

section \<open>Reading\<close>

text \<open>
  The bytes copied and the advanced context.  Past the end of the message the code copies what is left
  but one byte; the caller keeps the old contents of the rest of its destination.
\<close>

definition tsv_read_data :: "encode_context \<Rightarrow> nat \<Rightarrow> (byte list \<times> encode_context) option" where
  "tsv_read_data e sz =
     (let n = (if (ec_offset e + int sz) mod 2 ^ 32 > MAX_MSG_SIZE then MAX_MSG_SIZE - ec_offset e - 1 else int sz) in
      do { d \<leftarrow> buff_get e (ec_offset e) n; Some (d, e\<lparr>ec_offset := ec_offset e + n\<rparr>) })"

text \<open>\<open>junk\<close> is the content of the uninitialised destination.\<close>

definition tsv_read_header :: "encode_context \<Rightarrow> byte list \<Rightarrow> (tsv_header \<times> encode_context) option" where
  "tsv_read_header e junk =
     (let n = (if ec_offset e + 2 > MAX_MSG_SIZE then MAX_MSG_SIZE - ec_offset e - 1 else 2) in
      do { d \<leftarrow> buff_get e (ec_offset e) n;
           h \<leftarrow> mem_put junk 0 d;
           Some (bytes_tsv_header h, e\<lparr>ec_offset := ec_offset e + n\<rparr>) })"

text \<open>The common body of the readers of a number: \<open>None\<close> as a value is the type mismatch.\<close>

definition tsv_value_read :: "encode_context \<Rightarrow> byte \<Rightarrow> nat \<Rightarrow> byte list \<Rightarrow> (nat option \<times> encode_context) option" where
  "tsv_value_read e type sz junk = do {
     (h, e1) \<leftarrow> tsv_read_header e (take 2 junk);
     if th_type h \<noteq> type then Some (None, e1)
     else do { (d, e2) \<leftarrow> tsv_read_data e1 sz;
               v \<leftarrow> mem_put (take sz (drop 2 junk)) 0 d;
               Some (Some (le_to_nat v), e2) }
   }"

definition tsv_timestamp_read :: "encode_context \<Rightarrow> decode_context \<Rightarrow> byte list \<Rightarrow> byte list \<Rightarrow> (encode_context \<times> decode_context) option" where
  "tsv_timestamp_read e d format junk = do {
     (v, e1) \<leftarrow> tsv_value_read e TSV_TYPE_TIMESTAMP 8 junk;
     case v of None \<Rightarrow> Some (e1, d)
     | Some val \<Rightarrow> do { d1 \<leftarrow> IPC_SPRINTF_DECODE d ([91] @ fmt_u 32 6 (val div 1000000000 mod 2 ^ 32) @ [46] @
                             fmt_u 48 9 (val mod 1000000000) @ format @ [47]); Some (e1, d1) }
   }"

definition tsv_qtimer_read :: "encode_context \<Rightarrow> decode_context \<Rightarrow> byte list \<Rightarrow> byte list \<Rightarrow> (encode_context \<times> decode_context) option" where
  "tsv_qtimer_read e d format junk = do {
     (v, e1) \<leftarrow> tsv_value_read e TSV_TYPE_QTIMER 8 junk;
     case v of None \<Rightarrow> Some (e1, d)
     | Some val \<Rightarrow> do { d1 \<leftarrow> IPC_SPRINTF_DECODE d (fmt_hex 18 val @ [93] @ format); Some (e1, d1) }
   }"

text \<open>Here the format is the caller's, a function of the value.\<close>

definition tsv_pointer_read :: "encode_context \<Rightarrow> decode_context \<Rightarrow> (nat \<Rightarrow> byte list) \<Rightarrow> byte list \<Rightarrow> (encode_context \<times> decode_context) option" where
  "tsv_pointer_read e d format junk = do {
     (v, e1) \<leftarrow> tsv_value_read e TSV_TYPE_POINTER 8 junk;
     case v of None \<Rightarrow> Some (e1, d)
     | Some val \<Rightarrow> do { d1 \<leftarrow> IPC_SPRINTF_DECODE d (format val); Some (e1, d1) }
   }"

definition tsv_int32_read :: "encode_context \<Rightarrow> decode_context \<Rightarrow> (u32 \<Rightarrow> byte list) \<Rightarrow> byte list \<Rightarrow>
    ((errno + u32) \<times> encode_context \<times> decode_context) option" where
  "tsv_int32_read e d format junk = do {
     (v, e1) \<leftarrow> tsv_value_read e TSV_TYPE_INT32 4 junk;
     case v of None \<Rightarrow> Some (Inl EINVAL, e1, d)
     | Some val \<Rightarrow> do { d1 \<leftarrow> IPC_SPRINTF_DECODE d (format (of_nat val)); Some (Inr (of_nat val), e1, d1) }
   }"

definition tsv_byte_array_read :: "encode_context \<Rightarrow> decode_context \<Rightarrow> byte list \<Rightarrow> (encode_context \<times> decode_context) option" where
  "tsv_byte_array_read e d junk = do {
     (h, e1) \<leftarrow> tsv_read_header e junk;
     if th_type h \<noteq> TSV_TYPE_BYTE_ARRAY then Some (e1, d)
     else do {
       (bs, e2) \<leftarrow> tsv_read_data e1 (unat (th_size h));
       m \<leftarrow> mem_put (dc_mem d) (dc_buff d) bs;
       Some (e2, d\<lparr>dc_mem := m, dc_buff := dc_buff d + unat (th_size h), dc_size := dc_size d - int (unat (th_size h))\<rparr>)
     }
   }"

text \<open>The deserialiser of text messages (\<^verbatim>\<open>ipc_logging_debug.c\<close>): one line of output.\<close>

definition dfunc_string :: "byte list \<Rightarrow> encode_context \<Rightarrow> decode_context \<Rightarrow> (encode_context \<times> decode_context) option" where
  "dfunc_string junk e d = do {
     (e1, d1) \<leftarrow> tsv_timestamp_read e d [] junk;
     (e2, d2) \<leftarrow> tsv_qtimer_read e1 d1 [32] junk;
     (e3, d3) \<leftarrow> tsv_byte_array_read e2 d2 (take 2 junk);
     if dc_buff d3 = 0 then None
     else do {
       final \<leftarrow> mem_get (dc_mem d3) (dc_buff d3 - 1) 1;
       if final \<noteq> [10] then
         let d4 = (if dc_size d3 \<noteq> 0 then d3\<lparr>dc_buff := dc_buff d3 + 1, dc_size := dc_size d3 - 1\<rparr> else d3) in
         do { m \<leftarrow> mem_put (dc_mem d4) (dc_buff d4 - 1) [10]; Some (e3, d4\<lparr>dc_mem := m\<rparr>) }
       else Some (e3, d3)
     }
   }"

section \<open>What is written is read\<close>

lemma buf_put_put:
  "i + length xs + length ys \<le> length b \<Longrightarrow> buf_put (buf_put b i xs) (i + length xs) ys = buf_put b i (xs @ ys)"
  by (intro nth_equalityI) (auto simp: nth_buf_put nth_append)

lemma write_data_ok:
  assumes "length (ec_buff e) = 255" "0 \<le> ec_offset e" "ec_offset e + int (length data) \<le> 255"
  shows "tsv_write_data (Some e) data (length data) =
     Some (Inr (), Some (e\<lparr>ec_buff := buf_put (ec_buff e) (nat (ec_offset e)) data, ec_offset := ec_offset e + int (length data)\<rparr>))"
  using assms by (simp add: tsv_write_data_def MAX_MSG_SIZE_def buff_put_def buf_get_def)

lemma write_header_ok:
  assumes "length (ec_buff e) = 255" "0 \<le> ec_offset e" "ec_offset e + 2 \<le> 255"
  shows "tsv_write_header (Some e) ty n =
     Some (Inr (), Some (e\<lparr>ec_buff := buf_put (ec_buff e) (nat (ec_offset e)) [ty, of_nat n], ec_offset := ec_offset e + 2\<rparr>))"
  using write_data_ok [of e "[ty, of_nat n]"] assms by (simp add: tsv_write_header_def tsv_header_bytes_def numeral_2_eq_2)

lemma value_write_ok:
  assumes "length (ec_buff e) = 255" "0 \<le> ec_offset e" "ec_offset e + 2 + int (length data) \<le> 255"
  shows "tsv_value_write (Some e) ty data (length data) = Some (Inr (), Some (e\<lparr>
     ec_buff := buf_put (ec_buff e) (nat (ec_offset e)) ([ty, of_nat (length data)] @ data), ec_offset := ec_offset e + 2 + int (length data)\<rparr>))"
proof -
  let ?h = "[ty, of_nat (length data)]"
  have "nat (ec_offset e + 2) = nat (ec_offset e) + length ?h" using assms by simp
  then have p: "buf_put (buf_put (ec_buff e) (nat (ec_offset e)) ?h) (nat (ec_offset e + 2)) data = buf_put (ec_buff e) (nat (ec_offset e)) (?h @ data)"
    using buf_put_put [of "nat (ec_offset e)" ?h data "ec_buff e"] assms by simp
  show ?thesis
    using assms write_data_ok [of "e\<lparr>ec_buff := buf_put (ec_buff e) (nat (ec_offset e)) ?h, ec_offset := ec_offset e + 2\<rparr>" data] p
    by (simp add: tsv_value_write_def write_header_ok)
qed

lemma read_header_ok:
  assumes "length (ec_buff e) = 255" "0 \<le> ec_offset e" "ec_offset e + 2 \<le> 255" "length junk = 2"
  shows "tsv_read_header e junk = Some (bytes_tsv_header (buf_get (ec_buff e) (nat (ec_offset e)) 2), e\<lparr>ec_offset := ec_offset e + 2\<rparr>)"
  using assms by (simp add: tsv_read_header_def MAX_MSG_SIZE_def buff_get_def buf_put_def)

lemma read_data_ok:
  assumes "length (ec_buff e) = 255" "0 \<le> ec_offset e" "ec_offset e + int n \<le> 255"
  shows "tsv_read_data e n = Some (buf_get (ec_buff e) (nat (ec_offset e)) n, e\<lparr>ec_offset := ec_offset e + int n\<rparr>)"
  using assms by (simp add: tsv_read_data_def MAX_MSG_SIZE_def buff_get_def)

text \<open>The next value in a context.\<close>

definition next_value :: "encode_context \<Rightarrow> byte \<Rightarrow> byte list \<Rightarrow> bool" where
  "next_value e ty data \<longleftrightarrow> length (ec_buff e) = 255 \<and> 0 \<le> ec_offset e \<and> ec_offset e + 2 + int (length data) \<le> 255 \<and> length data < 256 \<and>
     buf_get (ec_buff e) (nat (ec_offset e)) 2 = [ty, of_nat (length data)] \<and>
     buf_get (ec_buff e) (nat (ec_offset e) + 2) (length data) = data"

lemma value_read_ok:
  assumes "next_value e ty data" "2 + length data \<le> length junk"
  shows "tsv_value_read e ty (length data) junk = Some (Some (le_to_nat data), e\<lparr>ec_offset := ec_offset e + 2 + int (length data)\<rparr>)"
proof -
  have o: "nat (ec_offset e + 2) = nat (ec_offset e) + 2" using assms(1) unfolding next_value_def by linarith
  have "tsv_read_header e (take 2 junk) = Some (\<lparr>th_type = ty, th_size = of_nat (length data)\<rparr>, e\<lparr>ec_offset := ec_offset e + 2\<rparr>)"
    using assms by (simp add: next_value_def read_header_ok bytes_tsv_header_def)
  moreover have "tsv_read_data (e\<lparr>ec_offset := ec_offset e + 2\<rparr>) (length data) =
      Some (data, e\<lparr>ec_offset := ec_offset e + 2 + int (length data)\<rparr>)"
    using assms(1) by (simp add: next_value_def read_data_ok o)
  ultimately show ?thesis using assms(2) by (simp add: tsv_value_read_def buf_put_def)
qed

text \<open>Output: the bytes before the place of the next one.\<close>

definition dc_ok :: "decode_context \<Rightarrow> bool" where
  "dc_ok d \<longleftrightarrow> 0 \<le> dc_size d \<and> int (dc_buff d) + dc_size d = int (length (dc_mem d))"

definition dc_out :: "decode_context \<Rightarrow> byte list" where
  "dc_out d = take (dc_buff d) (dc_mem d)"

definition dc_step :: "decode_context \<Rightarrow> byte list \<Rightarrow> decode_context \<Rightarrow> bool" where
  "dc_step d bs d' \<longleftrightarrow> dc_ok d' \<and> dc_out d' = dc_out d @ bs \<and> dc_size d' = dc_size d - int (length bs) \<and>
     dc_buff d' = dc_buff d + length bs \<and> length (dc_mem d') = length (dc_mem d)"

lemma dc_step_trans: "dc_step a x b \<Longrightarrow> dc_step b y c \<Longrightarrow> dc_step a (x @ y) c"
  by (simp add: dc_step_def)

lemma take_put: "i + length ys \<le> length xs \<Longrightarrow> k \<le> length ys \<Longrightarrow> take (i + k) (buf_put xs i ys) = take i xs @ take k ys"
  by (simp add: buf_put_def)

lemma sprintf_ok:
  assumes "dc_ok d" "int (length txt) < dc_size d"
  shows "\<exists>d'. IPC_SPRINTF_DECODE d txt = Some d' \<and> dc_step d txt d'"
proof -
  have t: "take (nat (dc_size d - 1)) txt = txt" using assms(2) by simp
  have l: "dc_buff d + length (txt @ [0]) \<le> length (dc_mem d)" using assms by (simp add: dc_ok_def)
  then show ?thesis using assms take_put [OF l, of "length txt"]
    by (simp add: IPC_SPRINTF_DECODE_def Let_def t dc_step_def dc_ok_def dc_out_def)
qed

section \<open>Text messages\<close>

text \<open>The message that carries a text with two time stamps, and the line it is printed as.\<close>

definition string_msg :: "u64 \<Rightarrow> u64 \<Rightarrow> byte list \<Rightarrow> byte list" where
  "string_msg t q s = [2, of_nat (22 + length s)] @ [1, 8] @ nat_to_le 8 (unat t) @ [5, 8] @ nat_to_le 8 (unat q) @ [4, of_nat (length s)] @ s"

definition time_text :: "u64 \<Rightarrow> u64 \<Rightarrow> byte list" where
  "time_text t q = [91] @ fmt_u 32 6 (unat t div 1000000000 mod 2 ^ 32) @ [46] @ fmt_u 48 9 (unat t mod 1000000000) @ [47] @ fmt_hex 18 (unat q) @ [93, 32]"

definition string_line :: "u64 \<Rightarrow> u64 \<Rightarrow> byte list \<Rightarrow> byte list" where
  "string_line t q s = time_text t q @ s @ (if s \<noteq> [] \<and> last s = 10 then [] else [10])"

definition holds_msg :: "encode_context \<Rightarrow> byte list \<Rightarrow> bool" where
  "holds_msg e m \<longleftrightarrow> length (ec_buff e) = 255 \<and> ec_hdr e = bytes_tsv_header (take 2 m) \<and> ec_offset e = 2 \<and>
     length m \<le> 255 \<and> buf_get (ec_buff e) 2 (length m - 2) = drop 2 m"

lemma digits_length: "1 < b \<Longrightarrow> 0 < k \<Longrightarrow> n < b ^ k \<Longrightarrow> length (digits b n) \<le> k"
proof (induction k arbitrary: n)
  case (Suc k)
  show ?case
  proof (cases "n < b")
    case False
    then have "k \<noteq> 0" using Suc.prems by (cases k) auto
    moreover have "n div b < b ^ k" using Suc.prems by (simp add: less_mult_imp_div_less mult.commute)
    ultimately show ?thesis using Suc.IH [of "n div b"] Suc.prems False by (subst digits.simps) simp
  qed (subst digits.simps, simp)
qed simp

lemma fmt_length:
  "n < 10 ^ k \<Longrightarrow> 0 < k \<Longrightarrow> length (fmt_u c w n) \<le> max w k"
  "n < 16 ^ k \<Longrightarrow> 0 < k \<Longrightarrow> length (fmt_hex w n) \<le> max w (k + 2)"
  using digits_length [of 10 k n] digits_length [of 16 k n] by (simp_all add: fmt_u_def fmt_hex_def pad_left_def)

lemma time_text_length: "length (time_text t q) \<le> 42"
proof -
  have "length (fmt_u 32 6 (unat t div 1000000000 mod 2 ^ 32)) \<le> max 6 10" by (rule fmt_length) simp_all
  moreover have "length (fmt_u 48 9 (unat t mod 1000000000)) \<le> max 9 9" by (rule fmt_length) simp_all
  moreover have "unat q < 16 ^ 16" using unsigned_less [of q, where 'a = nat] by simp
  then have "length (fmt_hex 18 (unat q)) \<le> max 18 (16 + 2)" by (rule fmt_length) simp
  ultimately show ?thesis by (simp add: time_text_def)
qed

lemma u64_le: "le_to_nat (nat_to_le 8 (unat (x :: u64))) = unat x"
  using unsigned_less [of x, where 'a = nat] by (simp add: le_to_nat_nat_to_le)

lemma msg_parts:
  assumes "holds_msg e m" "m = a @ b @ c" "2 \<le> length a" "length a = i" "length b = n"
  shows "buf_get (ec_buff e) i n = b"
proof -
  have i: "2 + (i - 2) = i" using assms(3,4) by simp
  have "take n (drop (i - 2) (buf_get (ec_buff e) 2 (length m - 2))) = take n (drop (i - 2) (drop 2 m))"
    using assms(1) by (simp add: holds_msg_def)
  also have "\<dots> = b" using assms(2-5) by simp
  also have "take n (drop (i - 2) (buf_get (ec_buff e) 2 (length m - 2))) = take n (drop (2 + (i - 2)) (ec_buff e))"
    using assms by (simp add: buf_get_def drop_take)
  finally show ?thesis unfolding i by (simp add: buf_get_def)
qed

lemma string_values:
  assumes e: "holds_msg e (string_msg t q s)" and s: "length s \<le> 230"
  shows "next_value e TSV_TYPE_TIMESTAMP (nat_to_le 8 (unat t))" "next_value (e\<lparr>ec_offset := 12\<rparr>) TSV_TYPE_QTIMER (nat_to_le 8 (unat q))"
    "next_value (e\<lparr>ec_offset := 22\<rparr>) TSV_TYPE_BYTE_ARRAY s"
proof -
  define T where "T = nat_to_le 8 (unat t)"
  define Q where "Q = nat_to_le 8 (unat q)"
  define h :: "byte list" where "h = [2, of_nat (22 + length s)]"
  define z :: "byte list" where "z = [4, of_nat (length s)]"
  have m: "string_msg t q s = h @ [1, 8] @ T @ [5, 8] @ Q @ z @ s"
    by (simp add: string_msg_def T_def Q_def h_def z_def)
  have l: "length h = 2" "length z = 2" "length T = 8" "length Q = 8" "length (ec_buff e) = 255" "ec_offset e = 2"
    using e by (simp_all add: h_def z_def T_def Q_def holds_msg_def)
  note mp = msg_parts [OF e]
  have v: "buf_get (ec_buff e) 2 2 = [1, 8]" by (rule mp [of h "[1, 8]" "T @ [5, 8] @ Q @ z @ s"]) (simp_all add: m l)
  have v1: "buf_get (ec_buff e) 4 8 = T" by (rule mp [of "h @ [1, 8]" T "[5, 8] @ Q @ z @ s"]) (simp_all add: m l)
  have v2: "buf_get (ec_buff e) 12 2 = [5, 8]" by (rule mp [of "h @ [1, 8] @ T" "[5, 8]" "Q @ z @ s"]) (simp_all add: m l)
  have v3: "buf_get (ec_buff e) 14 8 = Q" by (rule mp [of "h @ [1, 8] @ T @ [5, 8]" Q "z @ s"]) (simp_all add: m l)
  have v4: "buf_get (ec_buff e) 22 2 = z" by (rule mp [of "h @ [1, 8] @ T @ [5, 8] @ Q" z s]) (simp_all add: m l)
  have v5: "buf_get (ec_buff e) 24 (length s) = s" by (rule mp [of "h @ [1, 8] @ T @ [5, 8] @ Q @ z" s "[]"]) (simp_all add: m l)
  show "next_value e TSV_TYPE_TIMESTAMP (nat_to_le 8 (unat t))"
    using v v1 l by (simp add: next_value_def TSV_TYPE_TIMESTAMP_def T_def)
  show "next_value (e\<lparr>ec_offset := 12\<rparr>) TSV_TYPE_QTIMER (nat_to_le 8 (unat q))"
    using v2 v3 l by (simp add: next_value_def TSV_TYPE_QTIMER_def Q_def)
  show "next_value (e\<lparr>ec_offset := 22\<rparr>) TSV_TYPE_BYTE_ARRAY s"
    using v4 v5 l s by (simp add: next_value_def TSV_TYPE_BYTE_ARRAY_def z_def)
qed

lemma byte_array_read_ok:
  assumes e: "next_value e TSV_TYPE_BYTE_ARRAY s" and d: "dc_ok d" "int (length s) \<le> dc_size d" and j: "length junk = 2"
  shows "\<exists>d'. tsv_byte_array_read e d junk = Some (e\<lparr>ec_offset := ec_offset e + 2 + int (length s)\<rparr>, d') \<and> dc_step d s d'"
proof -
  have o: "nat (ec_offset e + 2) = nat (ec_offset e) + 2" and n: "length s < 256" using e unfolding next_value_def by linarith+
  have h: "tsv_read_header e junk = Some (\<lparr>th_type = TSV_TYPE_BYTE_ARRAY, th_size = of_nat (length s)\<rparr>, e\<lparr>ec_offset := ec_offset e + 2\<rparr>)"
    using e j by (simp add: next_value_def read_header_ok bytes_tsv_header_def)
  have r: "tsv_read_data (e\<lparr>ec_offset := ec_offset e + 2\<rparr>) (length s) = Some (s, e\<lparr>ec_offset := ec_offset e + 2 + int (length s)\<rparr>)"
    using e by (simp add: next_value_def read_data_ok o)
  have u: "unat (of_nat (length s) :: byte) = length s" using n by (simp add: unat_of_nat)
  have l: "dc_buff d + length s \<le> length (dc_mem d)" using d by (simp add: dc_ok_def)
  show ?thesis using h r u l d take_put [OF l, of "length s"]
    by (simp add: tsv_byte_array_read_def dc_step_def dc_ok_def dc_out_def)
qed

lemma last_out:
  assumes "dc_ok d" "0 < dc_buff d"
  shows "mem_get (dc_mem d) (dc_buff d - 1) 1 = Some [last (dc_out d)]"
proof -
  obtain k where k: "dc_buff d = Suc k" "k < length (dc_mem d)" using assms by (cases "dc_buff d") (simp_all add: dc_ok_def)
  have "last (dc_out d) = dc_mem d ! k" using k by (simp add: dc_out_def take_Suc_conv_app_nth)
  moreover have "buf_get (dc_mem d) k 1 = [dc_mem d ! k]" using k(2) by (simp add: buf_get_def flip: Cons_nth_drop_Suc)
  ultimately show ?thesis using k by simp
qed

lemma newline_ok:
  assumes "dc_ok d" "0 < dc_size d"
  shows "\<exists>m. mem_put (dc_mem d) (dc_buff d) [10] = Some m \<and>
     dc_step d [10] (d\<lparr>dc_buff := dc_buff d + 1, dc_size := dc_size d - 1, dc_mem := m\<rparr>)"
proof -
  have l: "dc_buff d + length [10 :: byte] \<le> length (dc_mem d)" using assms by (simp add: dc_ok_def)
  show ?thesis using l take_put [OF l, of 1] assms by (simp add: dc_step_def dc_ok_def dc_out_def)
qed

lemma dfunc_string_prints:
  assumes e: "holds_msg e (string_msg t q s)" and s: "length s \<le> 230" and d: "dc_ok d" "1020 \<le> dc_size d" and j: "10 \<le> length junk"
  shows "\<exists>e' d'. dfunc_string junk e d = Some (e', d') \<and> dc_step d (string_line t q s) d' \<and> length (ec_buff e') = 255"
proof -
  note v = string_values [OF e s]
  have l: "length (ec_buff e) = 255" "ec_offset e = 2" using e by (simp_all add: holds_msg_def)
  define x1 where "x1 = [91] @ fmt_u 32 6 (unat t div 1000000000 mod 2 ^ 32) @ [46] @ fmt_u 48 9 (unat t mod 1000000000) @ [] @ [47]"
  define x2 where "x2 = fmt_hex 18 (unat q) @ [93] @ [32]"
  have tt: "time_text t q = x1 @ x2" by (simp add: time_text_def x1_def x2_def)
  have xl: "length x1 + length x2 \<le> 42" using time_text_length [of t q] unfolding tt by simp
  have vr: "tsv_value_read e TSV_TYPE_TIMESTAMP 8 junk = Some (Some (unat t), e\<lparr>ec_offset := 12\<rparr>)"
    using value_read_ok [OF v(1), of junk] j l by (simp add: u64_le)
  have vq: "tsv_value_read (e\<lparr>ec_offset := 12\<rparr>) TSV_TYPE_QTIMER 8 junk = Some (Some (unat q), e\<lparr>ec_offset := 22\<rparr>)"
    using value_read_ok [OF v(2), of junk] j l by (simp add: u64_le)
  obtain d1 where d1: "IPC_SPRINTF_DECODE d x1 = Some d1" "dc_step d x1 d1" using sprintf_ok [OF d(1), of x1] d(2) xl by auto
  obtain d2 where d2: "IPC_SPRINTF_DECODE d1 x2 = Some d2" "dc_step d1 x2 d2" using sprintf_ok [of d1 x2] d1(2) d(2) xl by (auto simp: dc_step_def)
  obtain d3 where d3: "tsv_byte_array_read (e\<lparr>ec_offset := 22\<rparr>) d2 (take 2 junk) = Some (e\<lparr>ec_offset := 24 + int (length s)\<rparr>, d3)" "dc_step d2 s d3"
    using byte_array_read_ok [OF v(3), of d2 "take 2 junk"] d2(2) d1(2) d(2) s xl j by (auto simp: dc_step_def)
  have st: "dc_step d (time_text t q @ s) d3" using dc_step_trans [OF dc_step_trans [OF d1(2) d2(2)] d3(2)] by (simp add: tt)
  have r1: "tsv_timestamp_read e d [] junk = Some (e\<lparr>ec_offset := 12\<rparr>, d1)" using vr d1(1) by (simp add: tsv_timestamp_read_def x1_def)
  have r2: "tsv_qtimer_read (e\<lparr>ec_offset := 12\<rparr>) d1 [32] junk = Some (e\<lparr>ec_offset := 22\<rparr>, d2)" using vq d2(1) by (simp add: tsv_qtimer_read_def x2_def)
  have d3b: "dc_ok d3" "0 < dc_buff d3" "0 < dc_size d3" using st d(2) s time_text_length [of t q] by (simp_all add: dc_step_def time_text_def)
  have la: "last (dc_out d3) = (if s = [] then 32 else last s)" using st by (simp add: dc_step_def time_text_def)
  obtain m where m: "mem_put (dc_mem d3) (dc_buff d3) [10] = Some m"
      "dc_step d3 [10] (d3\<lparr>dc_buff := dc_buff d3 + 1, dc_size := dc_size d3 - 1, dc_mem := m\<rparr>)" using newline_ok [OF d3b(1,3)] by blast
  show ?thesis
  proof (cases "s \<noteq> [] \<and> last s = 10")
    case True
    then show ?thesis using r1 r2 d3(1) d3b st la l last_out [OF d3b(1,2)] by (simp add: dfunc_string_def string_line_def)
  next
    case False
    then show ?thesis using r1 r2 d3(1) d3b m dc_step_trans [OF st m(2)] la l last_out [OF d3b(1,2)]
      by (auto simp: dfunc_string_def string_line_def Let_def)
  qed
qed

end
