(* ===== verification/Ipc_Log.thy ===== *)
theory Ipc_Log
  imports Ipc_Tsv
begin

text \<open>
  The log of the IPC logging facility (\<^verbatim>\<open>kernel/trace/ipc_logging.c\<close>, \<^verbatim>\<open>ipc_logging_private.h\<close>): a ring of
  pages that holds encoded messages, with a destructive read position, a second read position for
  debugfs that leaves the log as it is, and a writer that drops the oldest messages to make space.
  Pointers to pages are indices into the page list; an index outside of it, or a \<^verbatim>\<open>memcpy\<close> that leaves a
  page, makes a definition return \<open>None\<close>.  The 16-bit and 32-bit fields are numbers reduced modulo
  \<open>2 ^ 16\<close> and \<open>2 ^ 32\<close>.  The page size of the kernel is the argument \<open>ps\<close>.
\<close>

section \<open>Data\<close>

type_synonym dfunc = "encode_context \<Rightarrow> decode_context \<Rightarrow> (encode_context \<times> decode_context) option"

record ipc_log_page =
  pg_magic :: u32
  pg_nmagic :: u32
  pg_page_num :: u32
  pg_read_offset :: nat
  pg_write_offset :: nat
  pg_log_id :: u64
  pg_start_time :: u64
  pg_end_time :: u64
  pg_ctx_offset :: u64
  pg_nd_read_offset :: nat
  pg_data :: "byte list"

record ipc_log_context =
  il_magic :: u32
  il_nmagic :: u32
  il_version :: u32
  il_user_version :: u16
  il_header_size :: u16
  il_log_id :: u64
  il_name :: string
  page_list :: "ipc_log_page list"
  first_page :: nat
  last_page :: nat
  write_page :: nat
  read_page :: nat
  nd_read_page :: nat
  write_avail :: nat
  dfunc_info_list :: "(int \<times> dfunc) list"
  read_avail :: nat
  il_refcount :: nat
  destroyed :: bool

text \<open>The header of a page takes 72 bytes; the rest of the page is data.\<close>

definition LOG_PAGE_DATA_SIZE :: "nat \<Rightarrow> nat" where "LOG_PAGE_DATA_SIZE ps = ps - 72"

definition page_at :: "ipc_log_context \<Rightarrow> nat \<Rightarrow> ipc_log_page option" where
  "page_at c i = (if i < length (page_list c) then Some (page_list c ! i) else None)"

definition upd_page :: "nat \<Rightarrow> (ipc_log_page \<Rightarrow> ipc_log_page) \<Rightarrow> ipc_log_context \<Rightarrow> ipc_log_context" where
  "upd_page i f c = c\<lparr>page_list := (page_list c)[i := f (page_list c ! i)]\<rparr>"

text \<open>\<^verbatim>\<open>hdr.offset += n\<close> in 16 bits, and the space behind an offset, a \<^verbatim>\<open>size_t\<close> difference.\<close>

definition off_add :: "nat \<Rightarrow> nat \<Rightarrow> nat" where "off_add o1 n = (o1 + n) mod 2 ^ 16"

definition page_left :: "nat \<Rightarrow> nat \<Rightarrow> nat" where
  "page_left ps o1 = (2 ^ 64 + LOG_PAGE_DATA_SIZE ps - o1) mod 2 ^ 64"

text \<open>\<^verbatim>\<open>complete\<close>, \<^verbatim>\<open>complete_all\<close> and \<^verbatim>\<open>reinit_completion\<close> on the counter of a completion.\<close>

definition UINT_MAX :: nat where "UINT_MAX = 2 ^ 32 - 1"

definition complete :: "nat \<Rightarrow> nat" where "complete n = (if n = UINT_MAX then n else n + 1)"

section \<open>Positions\<close>

definition is_nd_read_empty :: "ipc_log_context \<Rightarrow> bool option" where
  "is_nd_read_empty c =
     (if nd_read_page c \<noteq> write_page c then Some False
      else do { p \<leftarrow> page_at c (nd_read_page c); w \<leftarrow> page_at c (write_page c);
                Some (pg_nd_read_offset p = pg_write_offset w) })"

definition is_read_empty :: "ipc_log_context \<Rightarrow> bool option" where
  "is_read_empty c =
     (if read_page c \<noteq> write_page c then Some False
      else do { p \<leftarrow> page_at c (read_page c); w \<leftarrow> page_at c (write_page c);
                Some (pg_read_offset p = pg_write_offset w) })"

definition is_nd_read_equal_read :: "ipc_log_context \<Rightarrow> bool option" where
  "is_nd_read_equal_read c =
     (if nd_read_page c = read_page c then
        do { p \<leftarrow> page_at c (read_page c); q \<leftarrow> page_at c (nd_read_page c);
             Some (pg_read_offset p = pg_nd_read_offset q) }
      else Some False)"

definition get_next_page :: "ipc_log_context \<Rightarrow> nat \<Rightarrow> nat" where
  "get_next_page c i = (if last_page c = i then first_page c else i + 1)"

section \<open>Reading and dropping\<close>

definition ipc_log_read :: "nat \<Rightarrow> ipc_log_context \<Rightarrow> nat \<Rightarrow> (byte list \<times> ipc_log_context) option" where
  "ipc_log_read ps c n = do {
     p \<leftarrow> page_at c (nd_read_page c);
     let k = min (page_left ps (pg_nd_read_offset p)) n;
     d \<leftarrow> mem_get (pg_data p) (pg_nd_read_offset p) k;
     if k \<noteq> n then do {
       let c1 = upd_page (nd_read_page c) (\<lambda>p. p\<lparr>pg_nd_read_offset := 0\<rparr>) c;
       let c2 = c1\<lparr>nd_read_page := get_next_page c1 (nd_read_page c1)\<rparr>;
       q \<leftarrow> page_at c2 (nd_read_page c2);
       d2 \<leftarrow> mem_get (pg_data q) (pg_nd_read_offset q) (n - k);
       Some (d @ d2, upd_page (nd_read_page c2) (\<lambda>p. p\<lparr>pg_nd_read_offset := off_add (pg_nd_read_offset p) (n - k)\<rparr>) c2)
     }
     else Some (d, upd_page (nd_read_page c) (\<lambda>p. p\<lparr>pg_nd_read_offset := off_add (pg_nd_read_offset p) k\<rparr>) c)
   }"

text \<open>The end of \<^verbatim>\<open>ipc_log_drop\<close>: advance by \<open>k\<close> bytes, \<open>n\<close> of them in all, and take the other position along.\<close>

definition drop_advance :: "nat \<Rightarrow> nat \<Rightarrow> ipc_log_context \<Rightarrow> ipc_log_context option" where
  "drop_advance k n c = do {
     push \<leftarrow> is_nd_read_equal_read c;
     let c1 = upd_page (read_page c) (\<lambda>p. p\<lparr>pg_read_offset := off_add (pg_read_offset p) k\<rparr>) c;
     let c2 = c1\<lparr>write_avail := (write_avail c1 + n) mod 2 ^ 32\<rparr>;
     Some (if push then upd_page (nd_read_page c2) (\<lambda>p. p\<lparr>pg_nd_read_offset := off_add (pg_nd_read_offset p) k\<rparr>) c2 else c2)
   }"

text \<open>The wrap of \<^verbatim>\<open>ipc_log_drop\<close> to the next page.\<close>

definition drop_wrap :: "ipc_log_context \<Rightarrow> ipc_log_context option" where
  "drop_wrap c = do {
     push \<leftarrow> is_nd_read_equal_read c;
     let c1 = upd_page (read_page c) (\<lambda>p. p\<lparr>pg_read_offset := 0\<rparr>) c;
     Some (if push then
         let c2 = upd_page (read_page c1) (\<lambda>p. p\<lparr>pg_nd_read_offset := 0\<rparr>) c1;
             c3 = c2\<lparr>read_page := get_next_page c2 (read_page c2)\<rparr>
         in c3\<lparr>nd_read_page := read_page c3\<rparr>
       else c1\<lparr>read_page := get_next_page c1 (read_page c1)\<rparr>)
   }"

text \<open>\<open>want\<close> tells whether the caller passed a destination.\<close>

definition ipc_log_drop :: "nat \<Rightarrow> ipc_log_context \<Rightarrow> bool \<Rightarrow> nat \<Rightarrow> (byte list \<times> ipc_log_context) option" where
  "ipc_log_drop ps c want n = do {
     p \<leftarrow> page_at c (read_page c);
     let k = min (page_left ps (pg_read_offset p)) n;
     d \<leftarrow> (if want then mem_get (pg_data p) (pg_read_offset p) k else Some []);
     if k \<noteq> n then do {
       c1 \<leftarrow> drop_wrap c;
       q \<leftarrow> page_at c1 (read_page c1);
       d2 \<leftarrow> (if want then mem_get (pg_data q) (pg_read_offset q) (n - k) else Some []);
       c2 \<leftarrow> drop_advance (n - k) n c1;
       Some (d @ d2, c2)
     }
     else do { c1 \<leftarrow> drop_advance k n c; Some (d, c1) }
   }"

definition msg_read :: "nat \<Rightarrow> ipc_log_context \<Rightarrow> encode_context option \<Rightarrow>
    ((errno + nat) \<times> ipc_log_context \<times> encode_context option) option" where
  "msg_read ps c eo = (case eo of None \<Rightarrow> Some (Inl EINVAL, c, None)
   | Some e \<Rightarrow> do {
       emp \<leftarrow> is_nd_read_empty c;
       if emp then Some (Inr 0, c, Some e)
       else do {
         (hb, c1) \<leftarrow> ipc_log_read ps c 2;
         let h = bytes_tsv_header hb;
         (d, c2) \<leftarrow> ipc_log_read ps c1 (unat (th_size h));
         e1 \<leftarrow> buff_put (e\<lparr>ec_hdr := h, ec_offset := 2\<rparr>) 2 d;
         Some (Inr (2 + unat (th_size h)), c2, Some e1)
       }
     })"

definition msg_drop :: "nat \<Rightarrow> ipc_log_context \<Rightarrow> ipc_log_context option" where
  "msg_drop ps c = do {
     emp \<leftarrow> is_read_empty c;
     if emp then Some c
     else do {
       (hb, c1) \<leftarrow> ipc_log_drop ps c True 2;
       (_, c2) \<leftarrow> ipc_log_drop ps c1 False (unat (th_size (bytes_tsv_header hb)));
       Some c2
     }
   }"

section \<open>Writing\<close>

text \<open>The loop that drops messages until the new one fits; it has no other exit.\<close>

partial_function (option) drop_until :: "nat \<Rightarrow> int \<Rightarrow> ipc_log_context \<Rightarrow> ipc_log_context option" where
  "drop_until ps off c =
     (if write_avail c \<le> nat (off mod 2 ^ 32) then do { c1 \<leftarrow> msg_drop ps c; drop_until ps off c1 } else Some c)"

definition write_bytes :: "nat \<Rightarrow> byte list \<Rightarrow> ipc_log_context \<Rightarrow> ipc_log_context option" where
  "write_bytes i bs c = do {
     p \<leftarrow> page_at c i;
     m \<leftarrow> mem_put (pg_data p) (pg_write_offset p) bs;
     Some (upd_page i (\<lambda>p. p\<lparr>pg_data := m\<rparr>) c)
   }"

text \<open>The commit of the message in the buffer of \<open>e\<close>; \<open>t_now\<close> is the value of \<^verbatim>\<open>sched_clock\<close>.\<close>

definition log_commit :: "nat \<Rightarrow> u64 \<Rightarrow> encode_context \<Rightarrow> ipc_log_context \<Rightarrow> ipc_log_context option" where
  "log_commit ps t_now e c = do {
     p \<leftarrow> page_at c (write_page c);
     let n = nat (ec_offset e mod 2 ^ 64);
     let k = min (page_left ps (pg_write_offset p)) n;
     d \<leftarrow> mem_get (ec_buff e) 0 k;
     c1 \<leftarrow> write_bytes (write_page c) d c;
     c2 \<leftarrow> (if k \<noteq> n then do {
         let ca = upd_page (write_page c1) (\<lambda>p. p\<lparr>pg_write_offset := off_add (pg_write_offset p) k, pg_end_time := t_now\<rparr>) c1;
         let cb = ca\<lparr>write_page := get_next_page ca (write_page ca)\<rparr>;
         let cc = upd_page (write_page cb) (\<lambda>p. p\<lparr>pg_write_offset := 0, pg_start_time := t_now\<rparr>) cb;
         d2 \<leftarrow> mem_get (ec_buff e) k (n - k);
         cd \<leftarrow> write_bytes (write_page cc) d2 cc;
         Some (upd_page (write_page cd) (\<lambda>p. p\<lparr>pg_write_offset := off_add (pg_write_offset p) (n - k)\<rparr>) cd)
       }
       else Some (upd_page (write_page c1) (\<lambda>p. p\<lparr>pg_write_offset := off_add (pg_write_offset p) k\<rparr>) c1));
     Some (c2\<lparr>write_avail := nat ((int (write_avail c2) - ec_offset e) mod 2 ^ 32), read_avail := complete (read_avail c2)\<rparr>)
   }"

definition ipc_log_write :: "nat \<Rightarrow> u64 \<Rightarrow> ipc_log_context option \<Rightarrow> encode_context option \<Rightarrow> ipc_log_context option option" where
  "ipc_log_write ps t_now co eo = (case (co, eo) of
     (Some c, Some e) \<Rightarrow> do { c1 \<leftarrow> drop_until ps (ec_offset e) c; c2 \<leftarrow> log_commit ps t_now e c1; Some (Some c2) }
   | _ \<Rightarrow> Some co)"

text \<open>
  The encoding half of \<^verbatim>\<open>ipc_log_string\<close>: \<open>e\<close> is the uninitialised context on the stack, \<open>t_now\<close> and \<open>q_now\<close>
  are the two clocks, \<open>txt\<close> is the formatted text, of which \<^verbatim>\<open>vscnprintf\<close> stores what fits.
\<close>

definition encode_string :: "encode_context \<Rightarrow> u64 \<Rightarrow> u64 \<Rightarrow> byte list \<Rightarrow> encode_context option option" where
  "encode_string e t_now q_now txt = do {
     let e1 = msg_encode_start (Some e) TSV_TYPE_STRING;
     (_, e2) \<leftarrow> tsv_timestamp_write e1 t_now;
     (_, e3) \<leftarrow> tsv_qtimer_write e2 q_now;
     x3 \<leftarrow> e3;
     let avail = MAX_MSG_SIZE - (ec_offset x3 + 2);
     let t = take (nat (avail - 1)) txt;
     x4 \<leftarrow> (if avail \<le> 0 then Some x3 else buff_put x3 (ec_offset x3 + 2) (t @ [0]));
     (_, e5) \<leftarrow> tsv_write_header (Some x4) TSV_TYPE_BYTE_ARRAY (length t);
     x5 \<leftarrow> e5;
     msg_encode_end (Some (x5\<lparr>ec_offset := ec_offset x5 + int (length t)\<rparr>))
   }"

definition ipc_log_string :: "nat \<Rightarrow> ipc_log_context option \<Rightarrow> encode_context \<Rightarrow> u64 \<Rightarrow> u64 \<Rightarrow> u64 \<Rightarrow> byte list \<Rightarrow>
    ((errno + unit) \<times> ipc_log_context option) option" where
  "ipc_log_string ps co e t_now q_now t_write txt =
     (case co of None \<Rightarrow> Some (Inl EINVAL, None)
      | Some c \<Rightarrow> do { e1 \<leftarrow> encode_string e t_now q_now txt;
                     c1 \<leftarrow> ipc_log_write ps t_write (Some c) e1;
                     Some (Inr (), c1) })"

section \<open>Extraction\<close>

text \<open>The deserialisers of a context; the first one registered for a type is used.\<close>

definition add_deserialization_func :: "bool \<Rightarrow> ipc_log_context option \<Rightarrow> int \<Rightarrow> dfunc option \<Rightarrow> (errno + unit) \<times> ipc_log_context option" where
  "add_deserialization_func alloc_ok co type dfo = (case (co, dfo) of
     (Some c, Some f) \<Rightarrow>
       if \<not> alloc_ok then (Inl ENOSPC, co)
       else (Inr (), Some (c\<lparr>dfunc_info_list := dfunc_info_list c @ [(type, f)]\<rparr>))
   | _ \<Rightarrow> (Inl EINVAL, co))"

definition get_deserialization_func :: "ipc_log_context \<Rightarrow> int \<Rightarrow> dfunc option" where
  "get_deserialization_func c type = map_of (dfunc_info_list c) type"

text \<open>The part of \<^verbatim>\<open>ipc_log_context_destroy\<close> under the lock of the context.\<close>

definition context_shutdown :: "ipc_log_context \<Rightarrow> ipc_log_context" where
  "context_shutdown c = c\<lparr>destroyed := True, read_avail := UINT_MAX, dfunc_info_list := []\<rparr>"

text \<open>
  While a message is deserialised the lock is free and other processors may log or destroy the context.
  One list of such events is given for each iteration.
\<close>

datatype log_event = Ev_Write u64 encode_context | Ev_Destroy

fun other_cpus :: "nat \<Rightarrow> log_event list \<Rightarrow> ipc_log_context \<Rightarrow> ipc_log_context option" where
  "other_cpus ps [] c = Some c"
| "other_cpus ps (Ev_Write t e # evs) c = do { r \<leftarrow> ipc_log_write ps t (Some c) (Some e); c1 \<leftarrow> r; other_cpus ps evs c1 }"
| "other_cpus ps (Ev_Destroy # evs) c = other_cpus ps evs (context_shutdown c)"

partial_function (option) extract_loop :: "nat \<Rightarrow> log_event list list \<Rightarrow> ipc_log_context \<Rightarrow> encode_context \<Rightarrow> decode_context \<Rightarrow>
    (ipc_log_context \<times> decode_context) option" where
  "extract_loop ps evs c e d =
     (if dc_size d < MAX_MSG_DECODED_SIZE then Some (c, d)
      else do {
        emp \<leftarrow> is_nd_read_empty c;
        if emp then Some (c, d)
        else do {
          (_, c1, eo) \<leftarrow> msg_read ps c (Some e);
          e1 \<leftarrow> eo;
          (e2, d2) \<leftarrow> (case get_deserialization_func c1 (uint (th_type (ec_hdr e1))) of
              Some f \<Rightarrow> f e1 d
            | None \<Rightarrow> Some (e1, d));
          c2 \<leftarrow> other_cpus ps (concat (take 1 evs)) c1;
          extract_loop ps (drop 1 evs) c2 e2 d2
        }
      })"

definition ipc_log_extract :: "nat \<Rightarrow> log_event list list \<Rightarrow> encode_context \<Rightarrow> ipc_log_context \<Rightarrow> byte list \<Rightarrow> int \<Rightarrow>
    ((errno + int) \<times> ipc_log_context \<times> byte list) option" where
  "ipc_log_extract ps evs e c buff sz =
     (if sz < MAX_MSG_DECODED_SIZE then Some (Inl EINVAL, c, buff)
      else if destroyed c then Some (Inl EIO, c, buff)
      else do {
        (c1, d) \<leftarrow> extract_loop ps evs c e \<lparr>dc_mem = buff, dc_buff = 0, dc_size = sz\<rparr>;
        let ret = sz - dc_size d;
        Some (if ret = 0
              then if destroyed c1 then (Inl EIO, c1, dc_mem d) else (Inr 0, c1\<lparr>read_avail := 0\<rparr>, dc_mem d)
              else (Inr ret, c1, dc_mem d))
      })"

section \<open>Contexts and their registry\<close>

definition IPC_LOG_MAX_CONTEXT_NAME_LEN :: nat where "IPC_LOG_MAX_CONTEXT_NAME_LEN = 32"
definition IPC_LOG_VERSION :: u32 where "IPC_LOG_VERSION = 3"
definition IPC_LOG_CONTEXT_MAGIC_NUM :: u32 where "IPC_LOG_CONTEXT_MAGIC_NUM = 0x25874452"
definition IPC_LOGGING_MAGIC_NUM :: u32 where "IPC_LOGGING_MAGIC_NUM = 0x52784425"
definition LOG_PAGE_FLAG :: u32 where "LOG_PAGE_FLAG = push_bit 31 1"
definition FEATURE_MASK :: u32 where "FEATURE_MASK = 0x10000"

text \<open>
  The global variables: the list of contexts (addresses, in list order), the memory of the contexts
  and the number of buffers registered for a minidump.
\<close>

record ipc_globals =
  ipc_log_context_list :: "u64 list"
  ctx_store :: "u64 \<Rightarrow> ipc_log_context option"
  minidump_buf_cnt :: nat

text \<open>
  The platform: the page size, whether minidump is enabled, the configured limit and which regions
  the minidump driver accepts (by name and number), and the uninitialised bytes a deserialiser starts with.
\<close>

record ipc_env =
  env_page_size :: nat
  env_md_enabled :: bool
  env_md_max :: nat
  env_md_add :: "string \<Rightarrow> nat \<Rightarrow> bool"
  env_junk :: "byte list"

definition register_minidump :: "ipc_env \<Rightarrow> string \<Rightarrow> ipc_globals \<Rightarrow> ipc_globals" where
  "register_minidump env name g =
     (if env_md_enabled env \<and> minidump_buf_cnt g < env_md_max env \<and> env_md_add env name (minidump_buf_cnt g)
      then g\<lparr>minidump_buf_cnt := minidump_buf_cnt g + 1\<rparr> else g)"

text \<open>An allocator is a list of results, \<open>None\<close> for a failure; an exhausted list fails.\<close>

fun take_alloc :: "u64 option list \<Rightarrow> u64 option \<times> u64 option list" where
  "take_alloc [] = (None, [])"
| "take_alloc (a # as) = (a, as)"

definition new_page :: "nat \<Rightarrow> u64 \<Rightarrow> u64 \<Rightarrow> nat \<Rightarrow> ipc_log_page" where
  "new_page ps ctxt pg page_cnt =
     \<lparr>pg_magic = IPC_LOGGING_MAGIC_NUM, pg_nmagic = NOT IPC_LOGGING_MAGIC_NUM,
      pg_page_num = LOG_PAGE_FLAG OR of_nat page_cnt, pg_read_offset = 0, pg_write_offset = 0,
      pg_log_id = ctxt, pg_start_time = 0, pg_end_time = 0, pg_ctx_offset = ctxt - pg,
      pg_nd_read_offset = 0, pg_data = replicate (LOG_PAGE_DATA_SIZE ps) 0\<rparr>"

text \<open>The page loop: the pages made, whether all were, the rest of the allocator, the minidump count.\<close>

fun make_pages :: "ipc_env \<Rightarrow> bool \<Rightarrow> string \<Rightarrow> u64 \<Rightarrow> nat \<Rightarrow> nat \<Rightarrow> u64 option list \<Rightarrow> ipc_globals \<Rightarrow>
    ipc_log_page list option \<times> u64 option list \<times> ipc_globals" where
  "make_pages env md name ctxt cnt 0 as g = (Some [], as, g)"
| "make_pages env md name ctxt cnt (Suc n) as g = (case take_alloc as of
     (None, as1) \<Rightarrow> (None, as1, g)
   | (Some pg, as1) \<Rightarrow>
       let g1 = (if md then register_minidump env name g else g);
           (r, as2, g2) = make_pages env md name ctxt (cnt + 1) n as1 g1
       in (map_option (\<lambda>ps. new_page (env_page_size env) ctxt pg cnt # ps) r, as2, g2))"

definition new_context :: "nat \<Rightarrow> u64 \<Rightarrow> ipc_log_page list \<Rightarrow> string \<Rightarrow> u32 \<Rightarrow> int \<Rightarrow> ipc_log_context" where
  "new_context ps ctxt pages mod_name feature_version max_num_pages =
     \<lparr>il_magic = IPC_LOG_CONTEXT_MAGIC_NUM, il_nmagic = NOT IPC_LOG_CONTEXT_MAGIC_NUM, il_version = IPC_LOG_VERSION,
      il_user_version = ucast (feature_version AND 0xffff), il_header_size = 72, il_log_id = ctxt,
      il_name = take (IPC_LOG_MAX_CONTEXT_NAME_LEN - 1) mod_name, page_list = pages,
      first_page = 0, last_page = length pages - 1, write_page = 0, read_page = 0, nd_read_page = 0,
      write_avail = nat ((max_num_pages * int (LOG_PAGE_DATA_SIZE ps)) mod 2 ^ 32),
      dfunc_info_list = [], read_avail = 0, il_refcount = 1, destroyed = False\<rparr>"

text \<open>
  \<^verbatim>\<open>create_ctx_debugfs\<close> also registers the deserialiser of text messages.
\<close>

definition create_ctx_debugfs :: "ipc_env \<Rightarrow> bool \<Rightarrow> ipc_log_context \<Rightarrow> ipc_log_context" where
  "create_ctx_debugfs env alloc_ok c = (case snd (add_deserialization_func alloc_ok (Some c)
       (uint TSV_TYPE_STRING) (Some (dfunc_string (env_junk env)))) of Some c1 \<Rightarrow> c1 | None \<Rightarrow> c)"

definition find_context :: "ipc_globals \<Rightarrow> string \<Rightarrow> u64 option" where
  "find_context g mod_name =
     find (\<lambda>a. case ctx_store g a of Some c \<Rightarrow> il_name c = mod_name | None \<Rightarrow> False) (ipc_log_context_list g)"

definition ipc_log_context_create :: "ipc_env \<Rightarrow> int \<Rightarrow> string \<Rightarrow> u32 \<Rightarrow> u64 option list \<Rightarrow> ipc_globals \<Rightarrow>
    u64 option \<times> u64 option list \<times> ipc_globals" where
  "ipc_log_context_create env max_num_pages mod_name feature_version as g = (case find_context g mod_name of
     Some a \<Rightarrow> (Some a, as, g)
   | None \<Rightarrow> (case take_alloc as of
       (None, as1) \<Rightarrow> (None, as1, g)
     | (Some ctxt, as1) \<Rightarrow>
         let md = (feature_version AND FEATURE_MASK \<noteq> 0);
             g1 = (if md then register_minidump env ''ipc_ctxt'' g else g);
             (r, as2, g2) = make_pages env md mod_name ctxt 0 (nat max_num_pages) as1 g1
         in (case r of None \<Rightarrow> (None, as2, g2)
             | Some pages \<Rightarrow>
                 let (a, as3) = take_alloc as2;
                     c = create_ctx_debugfs env (a \<noteq> None)
                           (new_context (env_page_size env) ctxt pages mod_name feature_version max_num_pages);
                     front = (md \<and> minidump_buf_cnt g2 < env_md_max env)
                 in (Some ctxt, as3,
                     g2\<lparr>ctx_store := (ctx_store g2)(ctxt := Some c),
                        ipc_log_context_list := (if front then ctxt # ipc_log_context_list g2 else ipc_log_context_list g2 @ [ctxt])\<rparr>))))"

text \<open>\<^verbatim>\<open>ipc_log_context_put\<close> drops a reference; the last one frees the context with its pages.\<close>

definition ipc_log_context_free :: "u64 \<Rightarrow> ipc_globals \<Rightarrow> ipc_globals" where
  "ipc_log_context_free a g = g\<lparr>ctx_store := (ctx_store g)(a := None)\<rparr>"

definition ipc_log_context_put :: "u64 \<Rightarrow> ipc_globals \<Rightarrow> ipc_globals" where
  "ipc_log_context_put a g = (case ctx_store g a of None \<Rightarrow> g
   | Some c \<Rightarrow> if il_refcount c = 1 then ipc_log_context_free a g
       else g\<lparr>ctx_store := (ctx_store g)(a := Some (c\<lparr>il_refcount := il_refcount c - 1\<rparr>))\<rparr>)"

definition ipc_log_context_destroy :: "u64 option \<Rightarrow> ipc_globals \<Rightarrow> ipc_globals" where
  "ipc_log_context_destroy co g = (case co of None \<Rightarrow> g
   | Some a \<Rightarrow>
       let g1 = g\<lparr>ctx_store := (ctx_store g)(a := map_option context_shutdown (ctx_store g a))\<rparr>;
           g2 = g1\<lparr>ipc_log_context_list := remove1 a (ipc_log_context_list g1)\<rparr>
       in ipc_log_context_put a g2)"

section \<open>Absolute positions\<close>

text \<open>
  A position counts the bytes since the creation of the log.  A page that has been passed completely
  is left only with the next byte, so the offset runs from one to the page size, except at the start.
\<close>

definition pos_q :: "nat \<Rightarrow> nat \<Rightarrow> nat" where "pos_q D x = (if x = 0 then 0 else (x - 1) div D)"
definition pos_off :: "nat \<Rightarrow> nat \<Rightarrow> nat" where "pos_off D x = (if x = 0 then 0 else (x - 1) mod D + 1)"

lemma pos_eq: "pos_q D x * D + pos_off D x = x"
  by (simp add: pos_q_def pos_off_def)

lemma pos_off_le: "0 < D \<Longrightarrow> pos_off D x \<le> D"
  by (simp add: pos_off_def Suc_le_eq)

lemma pos_off_0: "pos_off D x = 0 \<longleftrightarrow> x = 0"
  by (simp add: pos_off_def)

lemma pos_uniq: "0 < k \<Longrightarrow> k \<le> D \<Longrightarrow> pos_q D (q * D + k) = q \<and> pos_off D (q * D + k) = k"
  by (cases k) (simp_all add: pos_q_def pos_off_def)

lemma pos_stay:
  assumes "0 < D" "pos_off D x + n \<le> D"
  shows "pos_q D (x + n) = pos_q D x \<and> pos_off D (x + n) = pos_off D x + n"
proof (cases "x + n = 0")
  case False
  then have k: "0 < pos_off D x + n" using pos_off_0 [of D x] by auto
  have e: "x + n = pos_q D x * D + (pos_off D x + n)" using pos_eq [of D x] by linarith
  show ?thesis unfolding e using pos_uniq [OF k assms(2), of "pos_q D x"] .
qed simp

lemma pos_wrap:
  assumes "0 < D" "D < pos_off D x + n" "n \<le> D"
  shows "pos_q D (x + n) = pos_q D x + 1 \<and> pos_off D (x + n) = n - (D - pos_off D x)"
proof -
  have k: "0 < n - (D - pos_off D x)" "n - (D - pos_off D x) \<le> D" using assms pos_off_le [OF assms(1), of x] by linarith+
  have "(pos_q D x + 1) * D = pos_q D x * D + D" by simp
  then have e: "x + n = (pos_q D x + 1) * D + (n - (D - pos_off D x))"
    using pos_eq [of D x] assms pos_off_le [OF assms(1), of x] by linarith
  show ?thesis unfolding e using pos_uniq [OF k, of "pos_q D x + 1"] .
qed

lemma pos_inj:
  assumes "0 < D" "x < y" "y - x < N * D"
  shows "\<not> (pos_q D x mod N = pos_q D y mod N \<and> pos_off D x = pos_off D y)"
proof
  assume a: "pos_q D x mod N = pos_q D y mod N \<and> pos_off D x = pos_off D y"
  then have e: "pos_q D y * D = pos_q D x * D + (y - x)" using pos_eq [of D x] pos_eq [of D y] assms(2) by linarith
  then have l: "pos_q D x < pos_q D y" using assms(2) by (metis add_gr_0 less_add_same_cancel1 mult_less_cancel2 zero_less_diff)
  have "(pos_q D y - pos_q D x) mod N = 0" using a l by (metis mod_eq_dvd_iff_nat less_imp_le mod_0_imp_dvd dvd_imp_mod_0)
  then have "N \<le> pos_q D y - pos_q D x" using l by (metis dvd_imp_le mod_0_imp_dvd zero_less_diff)
  then have "N * D \<le> (pos_q D y - pos_q D x) * D" by simp
  also have "\<dots> = y - x" using e by (simp add: diff_mult_distrib)
  finally show False using assms(3) by simp
qed

lemma byte_here:
  assumes "0 < D" "pos_off D x + j < D"
  shows "(x + j) div D = pos_q D x \<and> (x + j) mod D = pos_off D x + j"
proof -
  have e: "x + j = pos_off D x + j + pos_q D x * D" using pos_eq [of D x] by linarith
  show ?thesis unfolding e using assms by simp
qed

lemma byte_next:
  assumes "0 < D" "D \<le> pos_off D x + j" "j < D"
  shows "(x + j) div D = pos_q D x + 1 \<and> (x + j) mod D = j - (D - pos_off D x)"
proof -
  have "(pos_q D x + 1) * D = pos_q D x * D + D" by simp
  then have e: "x + j = j - (D - pos_off D x) + (pos_q D x + 1) * D"
    using pos_eq [of D x] assms pos_off_le [OF assms(1), of x] by linarith
  have k: "j - (D - pos_off D x) < D" using assms by linarith
  show ?thesis unfolding e using k assms(1) by (simp only: div_mult_self1 mod_mult_self1 div_less mod_less add_0_right)
qed

section \<open>The ring of pages\<close>

text \<open>The shape of an initialised log; it never changes.\<close>

definition log_shape :: "nat \<Rightarrow> ipc_log_context \<Rightarrow> bool" where
  "log_shape ps c \<longleftrightarrow> 4096 \<le> ps \<and> ps \<le> 65536 \<and> page_list c \<noteq> [] \<and>
     length (page_list c) * LOG_PAGE_DATA_SIZE ps < 2 ^ 32 \<and> first_page c = 0 \<and> last_page c = length (page_list c) - 1 \<and>
     (\<forall>p \<in> set (page_list c). length (pg_data p) = LOG_PAGE_DATA_SIZE ps)"

text \<open>The page of a position, a position of a reader, and the bytes from a position on.\<close>

definition pos_page :: "nat \<Rightarrow> ipc_log_context \<Rightarrow> nat \<Rightarrow> nat" where
  "pos_page ps c x = pos_q (LOG_PAGE_DATA_SIZE ps) x mod length (page_list c)"

definition reader_at :: "(ipc_log_page \<Rightarrow> nat) \<Rightarrow> nat \<Rightarrow> nat \<Rightarrow> ipc_log_context \<Rightarrow> nat \<Rightarrow> bool" where
  "reader_at f i ps c x \<longleftrightarrow> i = pos_page ps c x \<and>
     (\<forall>j < length (page_list c). f (page_list c ! j) = (if j = i then pos_off (LOG_PAGE_DATA_SIZE ps) x else 0))"

definition log_byte :: "nat \<Rightarrow> ipc_log_context \<Rightarrow> nat \<Rightarrow> byte" where
  "log_byte ps c k = pg_data (page_list c ! (k div LOG_PAGE_DATA_SIZE ps mod length (page_list c))) ! (k mod LOG_PAGE_DATA_SIZE ps)"

definition log_bytes :: "nat \<Rightarrow> ipc_log_context \<Rightarrow> nat \<Rightarrow> nat \<Rightarrow> byte list" where
  "log_bytes ps c x n = map (log_byte ps c) [x..<x + n]"

text \<open>Moving a reader changes its page pointer and its offset in every page.\<close>

definition move_nd :: "nat \<Rightarrow> nat \<Rightarrow> ipc_log_context \<Rightarrow> ipc_log_context" where
  "move_nd ps x c = c\<lparr>nd_read_page := pos_page ps c x, page_list := map (\<lambda>j. (page_list c ! j)
     \<lparr>pg_nd_read_offset := if j = pos_page ps c x then pos_off (LOG_PAGE_DATA_SIZE ps) x else 0\<rparr>) [0..<length (page_list c)]\<rparr>"

definition move_rd :: "nat \<Rightarrow> nat \<Rightarrow> ipc_log_context \<Rightarrow> ipc_log_context" where
  "move_rd ps x c = c\<lparr>read_page := pos_page ps c x, page_list := map (\<lambda>j. (page_list c ! j)
     \<lparr>pg_read_offset := if j = pos_page ps c x then pos_off (LOG_PAGE_DATA_SIZE ps) x else 0\<rparr>) [0..<length (page_list c)]\<rparr>"

lemma shape_size: "log_shape ps c \<Longrightarrow> 4024 \<le> LOG_PAGE_DATA_SIZE ps \<and> LOG_PAGE_DATA_SIZE ps < 65536"
  by (auto simp: log_shape_def LOG_PAGE_DATA_SIZE_def)

lemma shape_data: "log_shape ps c \<Longrightarrow> i < length (page_list c) \<Longrightarrow> length (pg_data (page_list c ! i)) = LOG_PAGE_DATA_SIZE ps"
  by (simp add: log_shape_def)

lemma pos_page_less [simp]: "log_shape ps c \<Longrightarrow> pos_page ps c x < length (page_list c)"
  by (simp add: log_shape_def pos_page_def)

lemma page_at_pos [simp]: "log_shape ps c \<Longrightarrow> page_at c (pos_page ps c x) = Some (page_list c ! pos_page ps c x)"
  by (simp add: page_at_def)

lemma page_left_pos: "log_shape ps c \<Longrightarrow> page_left ps (pos_off (LOG_PAGE_DATA_SIZE ps) x) = LOG_PAGE_DATA_SIZE ps - pos_off (LOG_PAGE_DATA_SIZE ps) x"
proof -
  assume c: "log_shape ps c"
  define D where "D = LOG_PAGE_DATA_SIZE ps"
  have "pos_off D x \<le> D" "D < 65536" using pos_off_le [of D x] shape_size [OF c] by (simp_all add: D_def)
  then have "2 ^ 64 + D - pos_off D x = 2 ^ 64 + (D - pos_off D x)" "D - pos_off D x < 2 ^ 64" by simp_all
  then show ?thesis unfolding page_left_def D_def [symmetric] by (simp only: mod_add_self1 mod_less)
qed

lemma next_page: "log_shape ps c \<Longrightarrow> i < length (page_list c) \<Longrightarrow> get_next_page c i = (i + 1) mod length (page_list c)"
  by (auto simp: get_next_page_def log_shape_def)

lemma pos_page_stay:
  "log_shape ps c \<Longrightarrow> pos_off (LOG_PAGE_DATA_SIZE ps) x + n \<le> LOG_PAGE_DATA_SIZE ps \<Longrightarrow>
   pos_page ps c (x + n) = pos_page ps c x \<and> pos_off (LOG_PAGE_DATA_SIZE ps) (x + n) = pos_off (LOG_PAGE_DATA_SIZE ps) x + n"
  using pos_stay [of "LOG_PAGE_DATA_SIZE ps" x n] shape_size [of ps c] by (simp add: pos_page_def)

lemma pos_page_wrap:
  assumes "log_shape ps c" "LOG_PAGE_DATA_SIZE ps < pos_off (LOG_PAGE_DATA_SIZE ps) x + n" "n \<le> 255"
  shows "pos_page ps c (x + n) = get_next_page c (pos_page ps c x)"
    and "pos_off (LOG_PAGE_DATA_SIZE ps) (x + n) = n - (LOG_PAGE_DATA_SIZE ps - pos_off (LOG_PAGE_DATA_SIZE ps) x)"
  using pos_wrap [OF _ assms(2)] shape_size [OF assms(1)] assms(3) next_page [OF assms(1) pos_page_less [OF assms(1)]]
  by (simp_all add: pos_page_def mod_Suc_eq)

text \<open>Data of a page as bytes of the log, before and after a page boundary.\<close>

lemma log_bytes_here:
  assumes "log_shape ps c" "pos_off (LOG_PAGE_DATA_SIZE ps) x + n \<le> LOG_PAGE_DATA_SIZE ps"
  shows "log_bytes ps c x n = buf_get (pg_data (page_list c ! pos_page ps c x)) (pos_off (LOG_PAGE_DATA_SIZE ps) x) n"
proof (rule nth_equalityI)
  have len: "length (pg_data (page_list c ! pos_page ps c x)) = LOG_PAGE_DATA_SIZE ps"
    using shape_data [OF assms(1)] pos_page_less [OF assms(1)] by simp
  then show l: "length (log_bytes ps c x n) = length (buf_get (pg_data (page_list c ! pos_page ps c x)) (pos_off (LOG_PAGE_DATA_SIZE ps) x) n)"
    using assms(2) by (simp add: log_bytes_def)
  fix j assume "j < length (log_bytes ps c x n)"
  then have j: "j < n" by (simp add: log_bytes_def)
  then show "log_bytes ps c x n ! j = buf_get (pg_data (page_list c ! pos_page ps c x)) (pos_off (LOG_PAGE_DATA_SIZE ps) x) n ! j"
    using byte_here [of "LOG_PAGE_DATA_SIZE ps" x j] assms(2) shape_size [OF assms(1)] len
    by (simp add: log_bytes_def log_byte_def pos_page_def nth_buf_get)
qed

lemma log_bytes_split: "k \<le> n \<Longrightarrow> log_bytes ps c x n = log_bytes ps c x k @ log_bytes ps c (x + k) (n - k)"
  using upt_add_eq_append [of x "x + k" "n - k"] by (simp add: log_bytes_def)

lemma length_log_bytes [simp]: "length (log_bytes ps c x n) = n"
  by (simp add: log_bytes_def)

lemma log_bytes_wrap:
  assumes "log_shape ps c" "LOG_PAGE_DATA_SIZE ps < pos_off (LOG_PAGE_DATA_SIZE ps) x + n" "n \<le> 255"
  defines "k \<equiv> LOG_PAGE_DATA_SIZE ps - pos_off (LOG_PAGE_DATA_SIZE ps) x"
  shows "log_bytes ps c x n = buf_get (pg_data (page_list c ! pos_page ps c x)) (pos_off (LOG_PAGE_DATA_SIZE ps) x) k @
     buf_get (pg_data (page_list c ! get_next_page c (pos_page ps c x))) 0 (n - k)"
proof -
  define D where "D = LOG_PAGE_DATA_SIZE ps"
  have D: "0 < D" "255 < D" using shape_size [OF assms(1)] by (simp_all add: D_def)
  have o: "pos_off D x \<le> D" by (rule pos_off_le [OF D(1)])
  have k: "k \<le> n" "pos_off D x + k = D" "n - k \<le> D" using assms(2,3) o D by (simp_all add: k_def D_def)
  let ?q = "get_next_page c (pos_page ps c x)"
  have q: "?q < length (page_list c)"
    using pos_page_wrap(1) [OF assms(1-3)] pos_page_less [OF assms(1)] by metis
  have "log_bytes ps c (x + k) (n - k) = buf_get (pg_data (page_list c ! ?q)) 0 (n - k)"
  proof (rule nth_equalityI)
    fix j assume "j < length (log_bytes ps c (x + k) (n - k))"
    then have j: "j < n - k" by simp
    have "(x + (k + j)) div D = pos_q D x + 1 \<and> (x + (k + j)) mod D = j"
      using byte_next [OF D(1), of x "k + j"] k j assms(3) D by (simp add: k_def D_def)
    moreover have "?q = (pos_q D x + 1) mod length (page_list c)"
      using pos_page_wrap(1) [OF assms(1-3)] pos_wrap [OF D(1), of x n] assms(2,3) D by (simp add: pos_page_def D_def)
    ultimately show "log_bytes ps c (x + k) (n - k) ! j = buf_get (pg_data (page_list c ! ?q)) 0 (n - k) ! j"
      using j k shape_data [OF assms(1) q] by (simp add: log_bytes_def log_byte_def nth_buf_get D_def add.assoc)
  qed (use k shape_data [OF assms(1) q] in \<open>simp add: D_def\<close>)
  then show ?thesis
    using log_bytes_split [OF k(1), of ps c x] log_bytes_here [OF assms(1), of x k] k(2) by (simp add: D_def)
qed

lemma off_add_small: "a + b < 65536 \<Longrightarrow> off_add a b = a + b"
  by (simp add: off_add_def)

lemma ipc_log_read_eq:
  assumes c: "log_shape ps c" and at: "reader_at pg_nd_read_offset (nd_read_page c) ps c x" and n: "n \<le> 255"
  shows "ipc_log_read ps c n = Some (log_bytes ps c x n, move_nd ps (x + n) c)"
proof -
  define D where "D = LOG_PAGE_DATA_SIZE ps"
  define i where "i = pos_page ps c x"
  have D: "0 < D" "255 < D" "D < 65536" using shape_size [OF c] by (simp_all add: D_def)
  have off: "pg_nd_read_offset (page_list c ! j) = (if j = i then pos_off D x else 0)" if "j < length (page_list c)" for j
    using at that by (simp add: reader_at_def D_def i_def)
  have i: "nd_read_page c = i" "i < length (page_list c)" using at c by (simp_all add: reader_at_def i_def)
  have o: "pos_off D x \<le> D" by (rule pos_off_le [OF D(1)])
  have len: "length (pg_data (page_list c ! j)) = D" if "j < length (page_list c)" for j
    using shape_data [OF c that] by (simp add: D_def)
  have left: "page_left ps (pos_off D x) = D - pos_off D x" using page_left_pos [OF c] by (simp add: D_def)
  show ?thesis
  proof (cases "pos_off D x + n \<le> D")
    case True
    then have p: "pos_page ps c (x + n) = i" "pos_off D (x + n) = pos_off D x + n"
      using pos_page_stay [OF c] by (simp_all add: D_def i_def)
    have "upd_page i (\<lambda>p. p\<lparr>pg_nd_read_offset := off_add (pg_nd_read_offset p) n\<rparr>) c = move_nd ps (x + n) c"
      using i off True D unfolding upd_page_def move_nd_def p D_def [symmetric]
      by (auto intro!: ipc_log_context.equality nth_equalityI simp: nth_list_update off_add_small)
    moreover have "log_bytes ps c x n = buf_get (pg_data (page_list c ! i)) (pos_off D x) n"
      using log_bytes_here [OF c] True by (simp add: D_def i_def)
    ultimately show ?thesis using i off True len left by (simp add: ipc_log_read_def page_at_def)
  next
    case False
    define k where "k = D - pos_off D x"
    define q where "q = get_next_page c i"
    have k: "k < n" "pos_off D x + k = D" "n - k \<le> D" using False n D o by (simp_all add: k_def)
    have p: "pos_page ps c (x + n) = q" "pos_off D (x + n) = n - k"
      using pos_page_wrap [OF c _ n, of x] False by (simp_all add: D_def i_def q_def k_def)
    have q: "q < length (page_list c)" using p(1) pos_page_less [OF c] by metis
    have "upd_page q (\<lambda>p. p\<lparr>pg_nd_read_offset := off_add (pg_nd_read_offset p) (n - k)\<rparr>)
       ((upd_page i (\<lambda>p. p\<lparr>pg_nd_read_offset := 0\<rparr>) c)\<lparr>nd_read_page := q\<rparr>) = move_nd ps (x + n) c"
      using i q off k D unfolding upd_page_def move_nd_def p D_def [symmetric]
      by (auto intro!: ipc_log_context.equality nth_equalityI simp: nth_list_update off_add_small)
    moreover have "log_bytes ps c x n = buf_get (pg_data (page_list c ! i)) (pos_off D x) k @ buf_get (pg_data (page_list c ! q)) 0 (n - k)"
      using log_bytes_wrap [OF c _ n, of x] False by (simp add: D_def i_def q_def k_def)
    moreover have "get_next_page (upd_page i f c) j = get_next_page c j" for f j by (simp add: get_next_page_def upd_page_def)
    ultimately show ?thesis using i q off k len left
      by (simp add: ipc_log_read_def page_at_def k_def [symmetric] q_def [symmetric] upd_page_def nth_list_update)
  qed
qed

lemma readers_equal:
  assumes c: "log_shape ps c" and r: "reader_at pg_read_offset (read_page c) ps c R"
    and m: "reader_at pg_nd_read_offset (nd_read_page c) ps c M"
    and d: "R \<le> M" "M - R < length (page_list c) * LOG_PAGE_DATA_SIZE ps"
  shows "is_nd_read_equal_read c = Some (R = M)"
proof (cases "R = M")
  case True
  then show ?thesis using c r m by (auto simp: is_nd_read_equal_read_def reader_at_def page_at_def)
next
  case False
  then show ?thesis using r m pos_inj [of "LOG_PAGE_DATA_SIZE ps" R M] d shape_size [OF c] pos_page_less [OF c, of R]
    by (auto simp: is_nd_read_equal_read_def reader_at_def page_at_def pos_page_def)
qed

definition dropped :: "nat \<Rightarrow> nat \<Rightarrow> nat \<Rightarrow> nat \<Rightarrow> ipc_log_context \<Rightarrow> ipc_log_context" where
  "dropped ps R M n c = (let c1 = (move_rd ps (R + n) c)\<lparr>write_avail := (write_avail c + n) mod 2 ^ 32\<rparr>
     in if R = M then move_nd ps (R + n) c1 else c1)"

lemma list_update_map:
  assumes "i < length xs" "\<And>j. j < length xs \<Longrightarrow> j \<noteq> i \<Longrightarrow> f j (xs ! j) = xs ! j" "y = f i (xs ! i)"
  shows "xs[i := y] = map (\<lambda>j. f j (xs ! j)) [0..<length xs]"
  using assms by (intro nth_equalityI) (simp_all add: nth_list_update)

lemma drop_advance_eq:
  assumes i: "read_page c = i" "i < length (page_list c)" "i = pos_page ps c x" and push: "is_nd_read_equal_read c = Some push"
    and off: "\<And>j. j < length (page_list c) \<Longrightarrow> j \<noteq> i \<Longrightarrow> pg_read_offset (page_list c ! j) = 0"
      "off_add (pg_read_offset (page_list c ! i)) k = pos_off (LOG_PAGE_DATA_SIZE ps) x"
    and nd: "push \<Longrightarrow> nd_read_page c = i" "\<And>j. push \<Longrightarrow> j < length (page_list c) \<Longrightarrow> j \<noteq> i \<Longrightarrow> pg_nd_read_offset (page_list c ! j) = 0"
      "push \<Longrightarrow> off_add (pg_nd_read_offset (page_list c ! i)) k = pos_off (LOG_PAGE_DATA_SIZE ps) x"
  shows "drop_advance k n c = Some (let c1 = (move_rd ps x c)\<lparr>write_avail := (write_avail c + n) mod 2 ^ 32\<rparr>
     in if push then move_nd ps x c1 else c1)"
proof -
  let ?p = "page_list c ! i" and ?o = "pos_off (LOG_PAGE_DATA_SIZE ps) x"
  define l where "l = map (\<lambda>j. (page_list c ! j)\<lparr>pg_read_offset := if j = i then ?o else 0\<rparr>) [0..<length (page_list c)]"
  have l: "(page_list c)[i := ?p\<lparr>pg_read_offset := off_add (pg_read_offset ?p) k\<rparr>] = l"
    unfolding l_def by (rule list_update_map) (use i off in simp_all)
  have n: "length l = length (page_list c)" by (simp add: l_def)
  have l2: "l[i := (l ! i)\<lparr>pg_nd_read_offset := off_add (pg_nd_read_offset (l ! i)) k\<rparr>] =
      map (\<lambda>j. (l ! j)\<lparr>pg_nd_read_offset := if j = i then ?o else 0\<rparr>) [0..<length l]" if push
    by (rule list_update_map) (use i nd that in \<open>simp_all add: l_def\<close>)
  have m: "move_rd ps x c = c\<lparr>read_page := i, page_list := l\<rparr>" using i(3) by (simp add: move_rd_def l_def)
  have pp: "pos_page ps (c\<lparr>read_page := i, page_list := l, write_avail := w\<rparr>) x = i" for w
    using i(3) n by (simp add: pos_page_def)
  show ?thesis
    using push i(1) nd(1) l2 by (simp add: drop_advance_def upd_page_def Let_def m pp move_nd_def l n)
qed

lemma ipc_log_drop_eq:
  assumes c: "log_shape ps c" and r: "reader_at pg_read_offset (read_page c) ps c R"
    and m: "reader_at pg_nd_read_offset (nd_read_page c) ps c M"
    and d: "R \<le> M" "M - R < length (page_list c) * LOG_PAGE_DATA_SIZE ps" and n: "n \<le> 255"
  shows "ipc_log_drop ps c want n = Some (if want then log_bytes ps c R n else [], dropped ps R M n c)"
proof -
  define D where "D = LOG_PAGE_DATA_SIZE ps"
  define i where "i = pos_page ps c R"
  have D: "0 < D" "255 < D" "D < 65536" using shape_size [OF c] by (simp_all add: D_def)
  have off: "pg_read_offset (page_list c ! j) = (if j = i then pos_off D R else 0)" if "j < length (page_list c)" for j
    using r that by (simp add: reader_at_def D_def i_def)
  define l where "l = pos_page ps c M"
  have l: "R = M \<Longrightarrow> l = i" by (simp add: l_def i_def)
  have noff: "pg_nd_read_offset (page_list c ! j) = (if j = l then pos_off D M else 0)" if "j < length (page_list c)" for j
    using m that by (simp add: reader_at_def D_def l_def)
  have nd: "nd_read_page c = l" using m by (simp add: reader_at_def l_def)
  have i: "read_page c = i" "i < length (page_list c)" using r c by (simp_all add: reader_at_def i_def)
  have o: "pos_off D R \<le> D" by (rule pos_off_le [OF D(1)])
  have len: "length (pg_data (page_list c ! j)) = D" if "j < length (page_list c)" for j
    using shape_data [OF c that] by (simp add: D_def)
  have left: "page_left ps (pos_off D R) = D - pos_off D R" using page_left_pos [OF c] by (simp add: D_def)
  note eq = readers_equal [OF c r m d]
  note mv = move_rd_def move_nd_def dropped_def upd_page_def drop_advance_def
  show ?thesis
  proof (cases "pos_off D R + n \<le> D")
    case True
    then have p: "pos_page ps c (R + n) = i" "pos_off D (R + n) = pos_off D R + n"
      using pos_page_stay [OF c] by (simp_all add: D_def i_def)
    have p1: "pos_q D (R + n) mod length (page_list c) = i" using p(1) by (simp add: pos_page_def D_def)
    have "drop_advance n n c = Some (dropped ps R M n c)"
      unfolding dropped_def
      by (rule drop_advance_eq [where i = i]) (use i p(1) eq off p(2) True D noff nd l in \<open>auto simp: off_add_small D_def\<close>)
    moreover have "log_bytes ps c R n = buf_get (pg_data (page_list c ! i)) (pos_off D R) n"
      using log_bytes_here [OF c] True by (simp add: D_def i_def)
    ultimately show ?thesis using i off True len left by (simp add: ipc_log_drop_def page_at_def)
  next
    case False
    define k where "k = D - pos_off D R"
    define q where "q = get_next_page c i"
    have k: "k < n" "pos_off D R + k = D" "n - k \<le> D" using False n D o by (simp_all add: k_def)
    have p: "pos_page ps c (R + n) = q" "pos_off D (R + n) = n - k"
      using pos_page_wrap [OF c _ n, of R] False by (simp_all add: D_def i_def q_def k_def)
    have p1: "pos_q D (R + n) mod length (page_list c) = q" using p(1) by (simp add: pos_page_def D_def)
    have q: "q < length (page_list c)" using p(1) pos_page_less [OF c] by metis
    have R0: "0 < R" using False n D by (cases "R = 0") (simp_all add: pos_off_def)
    define c1 where "c1 = (if R = M then c\<lparr>page_list := (page_list c)[i := (page_list c ! i)\<lparr>pg_read_offset := 0, pg_nd_read_offset := 0\<rparr>], read_page := q, nd_read_page := q\<rparr>
      else c\<lparr>page_list := (page_list c)[i := (page_list c ! i)\<lparr>pg_read_offset := 0\<rparr>], read_page := q\<rparr>)"
    have gn: "get_next_page (c\<lparr>page_list := l\<rparr>) j = get_next_page c j" for l j by (simp add: get_next_page_def)
    have w: "drop_wrap c = Some c1" using eq i by (auto simp: drop_wrap_def c1_def upd_page_def gn q_def Let_def)
    have z: "pg_read_offset (page_list c1 ! q) = 0" using i q off by (auto simp: c1_def nth_list_update)
    have e1: "is_nd_read_equal_read c1 = Some (R = M)"
      using i q off noff nd l R0 d(1) pos_off_0 [of D M]
      by (auto simp: c1_def is_nd_read_equal_read_def page_at_def nth_list_update)
    have pl: "length (page_list c1) = length (page_list c)" "read_page c1 = q" "pg_data (page_list c1 ! q) = pg_data (page_list c ! q)"
      using i q by (auto simp: c1_def nth_list_update)
    have "drop_advance (n - k) n c1 = Some (let c2 = (move_rd ps (R + n) c1)\<lparr>write_avail := (write_avail c1 + n) mod 2 ^ 32\<rparr>
       in if R = M then move_nd ps (R + n) c2 else c2)"
    proof (rule drop_advance_eq [where i = q])
      show "off_add (pg_read_offset (page_list c1 ! q)) (n - k) = pos_off (LOG_PAGE_DATA_SIZE ps) (R + n)"
        using z p(2) k D by (simp add: off_add_small D_def)
      show "q = pos_page ps c1 (R + n)" using p1 pl(1) by (simp add: pos_page_def D_def)
      have nz: "pg_nd_read_offset (page_list c1 ! j) = 0" if "R = M" "j < length (page_list c1)" for j
        using that noff l i by (auto simp: c1_def nth_list_update)
      then show "off_add (pg_nd_read_offset (page_list c1 ! q)) (n - k) = pos_off (LOG_PAGE_DATA_SIZE ps) (R + n)" if "R = M"
        using that p(2) k D pl q by (simp add: off_add_small D_def)
      show "pg_nd_read_offset (page_list c1 ! j) = 0" if "R = M" "j < length (page_list c1)" for j using nz that by simp
      show "pg_read_offset (page_list c1 ! j) = 0" if "j < length (page_list c1)" for j
        using that [unfolded pl(1)] off [of j] i by (auto simp: c1_def nth_list_update)
    qed (use pl q e1 in \<open>auto simp: c1_def\<close>)
    moreover have "\<dots> = Some (dropped ps R M n c)"
    proof (cases "R = M")
      case True
      then show ?thesis using i by (auto simp: dropped_def Let_def c1_def move_rd_def move_nd_def pos_page_def nth_list_update)
    next
      case False
      then show ?thesis using i by (auto simp: dropped_def Let_def c1_def move_rd_def pos_page_def nth_list_update)
    qed
    ultimately have a: "drop_advance (n - k) n c1 = Some (dropped ps R M n c)" by simp
    have b: "log_bytes ps c R n = buf_get (pg_data (page_list c ! i)) (pos_off D R) k @ buf_get (pg_data (page_list c ! q)) 0 (n - k)"
      using log_bytes_wrap [OF c _ n, of R] False by (simp add: D_def i_def q_def k_def)
    show ?thesis using i q off k len left pl z w a b
      by (simp add: ipc_log_drop_def page_at_def k_def [symmetric])
  qed
qed

section \<open>The log as a list of messages\<close>

text \<open>
  \<open>ipc_log_ok ps c ms k\<close>: the context holds the messages \<open>ms\<close>, oldest first, of which debugfs has read
  the first \<open>k\<close>.  \<open>R\<close>, \<open>M\<close> and \<open>W\<close> are the positions of the two readers and of the writer.
\<close>

definition msg_ok :: "byte list \<Rightarrow> bool" where
  "msg_ok m \<longleftrightarrow> 2 \<le> length m \<and> length m \<le> 255 \<and> unat (m ! 1) = length m - 2"

definition log_capacity :: "nat \<Rightarrow> ipc_log_context \<Rightarrow> nat" where
  "log_capacity ps c = length (page_list c) * LOG_PAGE_DATA_SIZE ps"

definition log_state :: "nat \<Rightarrow> ipc_log_context \<Rightarrow> nat \<Rightarrow> nat \<Rightarrow> nat \<Rightarrow> bool" where
  "log_state ps c R M W \<longleftrightarrow> log_shape ps c \<and>
     reader_at pg_read_offset (read_page c) ps c R \<and> reader_at pg_nd_read_offset (nd_read_page c) ps c M \<and>
     write_page c = pos_page ps c W \<and> pg_write_offset (page_list c ! write_page c) = pos_off (LOG_PAGE_DATA_SIZE ps) W \<and>
     R \<le> M \<and> M \<le> W \<and> W - R < log_capacity ps c \<and> write_avail c = log_capacity ps c - (W - R)"

definition ipc_log_ok :: "nat \<Rightarrow> ipc_log_context \<Rightarrow> byte list list \<Rightarrow> nat \<Rightarrow> bool" where
  "ipc_log_ok ps c ms k \<longleftrightarrow> (\<exists>R M W. log_state ps c R M W \<and> log_bytes ps c R (W - R) = concat ms \<and>
     (\<forall>m \<in> set ms. msg_ok m) \<and> k \<le> length ms \<and> M = R + length (concat (take k ms)))"

text \<open>Moving a reader keeps everything else.\<close>

lemma log_byte_cong: "map pg_data (page_list c') = map pg_data (page_list c) \<Longrightarrow> page_list c \<noteq> [] \<Longrightarrow> log_byte ps c' = log_byte ps c"
proof
  fix k assume a: "map pg_data (page_list c') = map pg_data (page_list c)" "page_list c \<noteq> []"
  have l: "length (page_list c') = length (page_list c)" using a(1) by (metis length_map)
  let ?i = "k div LOG_PAGE_DATA_SIZE ps mod length (page_list c)"
  have "?i < length (page_list c)" using a(2) by simp
  then have "pg_data (page_list c' ! ?i) = pg_data (page_list c ! ?i)" using a(1) l by (metis nth_map)
  then show "log_byte ps c' k = log_byte ps c k" using l by (simp add: log_byte_def)
qed

lemma move_data:
  "map pg_data (page_list (move_nd ps x c)) = map pg_data (page_list c)"
  "map pg_data (page_list (move_rd ps x c)) = map pg_data (page_list c)"
  "length (page_list (move_nd ps x c)) = length (page_list c)"
  "length (page_list (move_rd ps x c)) = length (page_list c)"
  by (auto intro: nth_equalityI simp: move_nd_def move_rd_def)

lemma log_shape_cong:
  "map pg_data (page_list c') = map pg_data (page_list c) \<Longrightarrow> first_page c' = first_page c \<Longrightarrow> last_page c' = last_page c \<Longrightarrow>
   log_shape ps c' = log_shape ps c"
proof -
  assume a: "map pg_data (page_list c') = map pg_data (page_list c)" "first_page c' = first_page c" "last_page c' = last_page c"
  have l: "length (page_list c') = length (page_list c)" using a(1) by (metis length_map)
  have s: "pg_data ` set (page_list c') = pg_data ` set (page_list c)" using arg_cong [OF a(1), of set] by simp
  have "(\<forall>p \<in> set (page_list c'). length (pg_data p) = n) = (\<forall>d \<in> pg_data ` set (page_list c'). length d = n)" for n by simp
  then have "(\<forall>p \<in> set (page_list c'). length (pg_data p) = n) = (\<forall>p \<in> set (page_list c). length (pg_data p) = n)" for n
    unfolding s by simp
  moreover have "(page_list c' = []) = (page_list c = [])" using l by (metis length_0_conv)
  ultimately show ?thesis using a(2,3) l by (simp add: log_shape_def)
qed

lemma move_shape [simp]:
  "log_shape ps (move_nd ps' x c) = log_shape ps c" "log_shape ps (move_rd ps' x c) = log_shape ps c"
  "pos_page ps (move_nd ps' x c) y = pos_page ps c y" "pos_page ps (move_rd ps' x c) y = pos_page ps c y"
  "log_capacity ps (move_nd ps' x c) = log_capacity ps c" "log_capacity ps (move_rd ps' x c) = log_capacity ps c"
proof -
  show "log_shape ps (move_nd ps' x c) = log_shape ps c"
    by (rule log_shape_cong [OF move_data(1)]) (simp_all add: move_nd_def)
  show "log_shape ps (move_rd ps' x c) = log_shape ps c"
    by (rule log_shape_cong [OF move_data(2)]) (simp_all add: move_rd_def)
qed (simp_all add: pos_page_def log_capacity_def move_data)

lemma move_bytes:
  "log_shape ps c \<Longrightarrow> log_bytes ps (move_nd ps' x c) y n = log_bytes ps c y n"
  "log_shape ps c \<Longrightarrow> log_bytes ps (move_rd ps' x c) y n = log_bytes ps c y n"
  using log_byte_cong [OF move_data(1)] log_byte_cong [OF move_data(2)] by (simp_all add: log_bytes_def log_shape_def)

lemma avail_irrelevant [simp]:
  "log_shape ps (c\<lparr>write_avail := w\<rparr>) = log_shape ps c" "pos_page ps (c\<lparr>write_avail := w\<rparr>) x = pos_page ps c x"
  "log_bytes ps (c\<lparr>write_avail := w\<rparr>) x n = log_bytes ps c x n" "log_capacity ps (c\<lparr>write_avail := w\<rparr>) = log_capacity ps c"
  "reader_at f i ps (c\<lparr>write_avail := w\<rparr>) x = reader_at f i ps c x"
  by (simp_all add: log_shape_def pos_page_def log_bytes_def log_byte_def [abs_def] log_capacity_def reader_at_def)

lemma move_readers:
  assumes c: "log_shape ps c"
  shows "reader_at pg_nd_read_offset (nd_read_page (move_nd ps x c)) ps (move_nd ps x c) x"
    "reader_at pg_read_offset (read_page (move_rd ps x c)) ps (move_rd ps x c) x"
    "reader_at pg_read_offset (read_page (move_nd ps x c)) ps (move_nd ps x c) y = reader_at pg_read_offset (read_page c) ps c y"
    "reader_at pg_nd_read_offset (nd_read_page (move_rd ps x c)) ps (move_rd ps x c) y = reader_at pg_nd_read_offset (nd_read_page c) ps c y"
  using c by (auto simp: reader_at_def move_nd_def move_rd_def pos_page_def)

lemma move_writer:
  assumes "log_shape ps c" "write_page c < length (page_list c)"
  shows "write_page (move_nd ps x c) = write_page c" "write_page (move_rd ps x c) = write_page c"
    "write_avail (move_nd ps x c) = write_avail c" "write_avail (move_rd ps x c) = write_avail c"
    "pg_write_offset (page_list (move_nd ps x c) ! write_page c) = pg_write_offset (page_list c ! write_page c)"
    "pg_write_offset (page_list (move_rd ps x c) ! write_page c) = pg_write_offset (page_list c ! write_page c)"
  using assms by (simp_all add: move_nd_def move_rd_def)

lemma log_state_nd:
  assumes "log_state ps c R M W" "R \<le> x" "x \<le> W"
  shows "log_state ps (move_nd ps x c) R x W"
proof -
  have c: "log_shape ps c" and w: "write_page c < length (page_list c)" using assms by (simp_all add: log_state_def)
  have "write_page c = pos_page ps c W" "pg_write_offset (page_list c ! write_page c) = pos_off (LOG_PAGE_DATA_SIZE ps) W"
    "reader_at pg_read_offset (read_page c) ps c R" "W - R < log_capacity ps c" "write_avail c = log_capacity ps c - (W - R)"
    using assms(1) by (auto simp: log_state_def)
  then show ?thesis unfolding log_state_def using c assms(2,3) move_readers [OF c, of x] move_writer [OF c w, of x] by auto
qed

lemma log_state_drop:
  assumes s: "log_state ps c R M W" and n: "R + n \<le> W" "R = M \<or> R + n \<le> M"
  shows "log_state ps (dropped ps R M n c) (R + n) (max M (R + n)) W"
proof -
  have c: "log_shape ps c" and w: "write_page c < length (page_list c)" using s by (simp_all add: log_state_def)
  have cap: "log_capacity ps c < 2 ^ 32" using c by (simp add: log_shape_def log_capacity_def)
  have f: "write_page c = pos_page ps c W" "pg_write_offset (page_list c ! write_page c) = pos_off (LOG_PAGE_DATA_SIZE ps) W"
    "W - R < log_capacity ps c" "write_avail c = log_capacity ps c - (W - R)" "R \<le> M" "M \<le> W"
    and m: "reader_at pg_nd_read_offset (nd_read_page c) ps c M"
    using s by (auto simp: log_state_def)
  have "write_avail c + n = log_capacity ps c - (W - (R + n))" using f n by linarith
  then have a: "(write_avail c + n) mod 2 ^ 32 = log_capacity ps c - (W - (R + n))" using cap by simp
  define c1 where "c1 = (move_rd ps (R + n) c)\<lparr>write_avail := (write_avail c + n) mod 2 ^ 32\<rparr>"
  have c1: "log_shape ps c1" "write_page c1 < length (page_list c1)" using c w by (simp_all add: c1_def move_data move_writer)
  note mr = move_readers [OF c, of "R + n"] and mw = move_writer [OF c w, of "R + n"]
  have b: "reader_at pg_read_offset (read_page c1) ps c1 (R + n)" "write_page c1 = pos_page ps c1 W"
    "pg_write_offset (page_list c1 ! write_page c1) = pos_off (LOG_PAGE_DATA_SIZE ps) W"
    "W - (R + n) < log_capacity ps c1" "write_avail c1 = log_capacity ps c1 - (W - (R + n))"
    "reader_at pg_nd_read_offset (nd_read_page c1) ps c1 M"
    using mr mw f a n m by (simp_all add: c1_def)
  show ?thesis
  proof (cases "R = M")
    case True
    show ?thesis using True n b move_readers [OF c1(1), of "R + n"] move_writer [OF c1, of "R + n"] c1
      unfolding dropped_def Let_def c1_def [symmetric] log_state_def by auto
  next
    case False
    then show ?thesis using n b c1 f unfolding dropped_def Let_def c1_def [symmetric] log_state_def by auto
  qed
qed

lemma log_bytes_sub: "log_bytes ps c R n = xs \<Longrightarrow> i + m \<le> n \<Longrightarrow> log_bytes ps c (R + i) m = take m (drop i xs)"
  by (auto simp: log_bytes_def drop_map take_map add.assoc)

lemma concat_at: "k < length ms \<Longrightarrow> concat ms = concat (take k ms) @ ms ! k @ concat (drop (Suc k) ms)"
  by (metis concat.simps(2) concat_append id_take_nth_drop)

lemma concat_Suc: "k < length ms \<Longrightarrow> concat (take (Suc k) ms) = concat (take k ms) @ ms ! k"
  by (simp add: take_Suc_conv_app_nth)

lemma msg_bytes:
  assumes "log_bytes ps c R n = concat ms" "k < length ms" "msg_ok (ms ! k)"
  defines "M \<equiv> R + length (concat (take k ms))"
  shows "log_bytes ps c M 2 = take 2 (ms ! k)" "log_bytes ps c (M + 2) (length (ms ! k) - 2) = drop 2 (ms ! k)"
    "M + length (ms ! k) \<le> R + n" "th_size (bytes_tsv_header (take 2 (ms ! k))) = ms ! k ! 1"
proof -
  have n: "n = length (concat ms)" using arg_cong [OF assms(1), of length] by simp
  have l: "2 \<le> length (ms ! k)" using assms(3) by (simp add: msg_ok_def)
  note cc = concat_at [OF assms(2)]
  have le: "length (concat (take k ms)) + length (ms ! k) \<le> n" unfolding n cc by simp
  then show "M + length (ms ! k) \<le> R + n" by (simp add: M_def)
  show "log_bytes ps c M 2 = take 2 (ms ! k)"
    using log_bytes_sub [OF assms(1), of "length (concat (take k ms))" 2] le l by (simp add: M_def cc)
  show "log_bytes ps c (M + 2) (length (ms ! k) - 2) = drop 2 (ms ! k)"
    using log_bytes_sub [OF assms(1), of "length (concat (take k ms)) + 2" "length (ms ! k) - 2"] le l
    by (simp add: M_def cc add.assoc)
  show "th_size (bytes_tsv_header (take 2 (ms ! k))) = ms ! k ! 1" by (simp add: bytes_tsv_header_def)
qed

lemma reader_writer:
  assumes "log_state ps c R M W"
  shows "is_read_empty c = Some (R = W)" "is_nd_read_empty c = Some (M = W)"
proof -
  have c: "log_shape ps c" and w: "write_page c = pos_page ps c W" "pg_write_offset (page_list c ! pos_page ps c W) = pos_off (LOG_PAGE_DATA_SIZE ps) W"
    and r: "reader_at pg_read_offset (read_page c) ps c R" "reader_at pg_nd_read_offset (nd_read_page c) ps c M"
    and d: "R \<le> M" "M \<le> W" "W - R < length (page_list c) * LOG_PAGE_DATA_SIZE ps"
    using assms by (auto simp: log_state_def log_capacity_def)
  have D: "0 < LOG_PAGE_DATA_SIZE ps" using shape_size [OF c] by simp
  have "R = W \<or> \<not> (pos_page ps c R = pos_page ps c W \<and> pos_off (LOG_PAGE_DATA_SIZE ps) R = pos_off (LOG_PAGE_DATA_SIZE ps) W)"
    using pos_inj [OF D, of R W] d by (auto simp: pos_page_def)
  then show "is_read_empty c = Some (R = W)"
    using r(1) w c by (auto simp: is_read_empty_def reader_at_def page_at_def)
  have "M = W \<or> \<not> (pos_page ps c M = pos_page ps c W \<and> pos_off (LOG_PAGE_DATA_SIZE ps) M = pos_off (LOG_PAGE_DATA_SIZE ps) W)"
    using pos_inj [OF D, of M W] d by (auto simp: pos_page_def)
  then show "is_nd_read_empty c = Some (M = W)"
    using r(2) w c by (auto simp: is_nd_read_empty_def reader_at_def page_at_def)
qed

lemma concat_len_0: "\<forall>m \<in> set ms. msg_ok m \<Longrightarrow> length (concat ms) = 0 \<longleftrightarrow> ms = []"
  by (cases ms) (auto simp: msg_ok_def)

lemma log_empty:
  assumes "ipc_log_ok ps c ms k"
  shows "is_read_empty c = Some (ms = [])" "is_nd_read_empty c = Some (k = length ms)"
proof -
  obtain R M W where s: "log_state ps c R M W" and b: "log_bytes ps c R (W - R) = concat ms" and ok: "\<forall>m \<in> set ms. msg_ok m"
    and k: "k \<le> length ms" "M = R + length (concat (take k ms))" using assms by (auto simp: ipc_log_ok_def)
  have W: "W - R = length (concat ms)" using arg_cong [OF b, of length] by simp
  have le: "R \<le> W" using s by (simp add: log_state_def)
  show "is_read_empty c = Some (ms = [])" using reader_writer(1) [OF s] W le concat_len_0 [OF ok] by auto
  have "concat ms = concat (take k ms) @ concat (drop k ms)" by (metis append_take_drop_id concat_append)
  moreover have "length (concat (drop k ms)) = 0 \<longleftrightarrow> k = length ms"
    using concat_len_0 [of "drop k ms"] ok k(1) by (auto dest: in_set_dropD)
  ultimately have "M = W \<longleftrightarrow> k = length ms" using W le k(2) by auto
  then show "is_nd_read_empty c = Some (k = length ms)" using reader_writer(2) [OF s] by simp
qed

text \<open>Reading the next message for debugfs.\<close>

lemma msg_read_next:
  assumes "ipc_log_ok ps c ms k" "k < length ms" "length (ec_buff e) = 255"
  defines "m \<equiv> ms ! k"
  shows "\<exists>x. msg_read ps c (Some e) = Some (Inr (length m), move_nd ps x c, Some (e\<lparr>ec_hdr := bytes_tsv_header (take 2 m),
      ec_offset := 2, ec_buff := buf_put (ec_buff e) 2 (drop 2 m)\<rparr>)) \<and> ipc_log_ok ps (move_nd ps x c) ms (Suc k)"
proof -
  obtain R M W where s: "log_state ps c R M W" and b: "log_bytes ps c R (W - R) = concat ms" and ok: "\<forall>m \<in> set ms. msg_ok m"
    and k: "M = R + length (concat (take k ms))" using assms(1) by (auto simp: ipc_log_ok_def)
  have m: "msg_ok m" using ok assms(2) by (simp add: m_def)
  then have l: "2 \<le> length m" "length m \<le> 255" "unat (m ! 1) = length m - 2" by (simp_all add: msg_ok_def)
  note mb = msg_bytes [OF b assms(2), folded m_def, OF m, folded k]
  have c: "log_shape ps c" and nd: "reader_at pg_nd_read_offset (nd_read_page c) ps c M" and le: "R \<le> M" "M \<le> W" using s by (simp_all add: log_state_def)
  have mw: "M + length m \<le> W" using mb(3) le by simp
  define c1 where "c1 = move_nd ps (M + 2) c"
  have c1: "log_shape ps c1" "reader_at pg_nd_read_offset (nd_read_page c1) ps c1 (M + 2)"
    using c move_readers [OF c] by (simp_all add: c1_def)
  have r1: "ipc_log_read ps c 2 = Some (take 2 m, c1)" using ipc_log_read_eq [OF c nd, of 2] mb(1) by (simp add: c1_def)
  have "log_bytes ps c1 (M + 2) (length m - 2) = drop 2 m" using mb(2) move_bytes [OF c] by (simp add: c1_def)
  moreover have mm: "move_nd ps y (move_nd ps x c) = move_nd ps y c" for x y
    unfolding move_nd_def by (auto simp: pos_page_def)
  moreover have a: "M + 2 + (length m - 2) = M + length m" using l by simp
  ultimately have r2: "ipc_log_read ps c1 (length m - 2) = Some (drop 2 m, move_nd ps (M + length m) c)"
    using ipc_log_read_eq [OF c1, of "length m - 2", unfolded a] l by (simp add: c1_def)
  have "msg_read ps c (Some e) = Some (Inr (length m), move_nd ps (M + length m) c, Some (e\<lparr>ec_hdr := bytes_tsv_header (take 2 m),
      ec_offset := 2, ec_buff := buf_put (ec_buff e) 2 (drop 2 m)\<rparr>))"
    using log_empty(2) [OF assms(1)] assms(2,3) r1 r2 mb(4) l by (simp add: msg_read_def buff_put_def)
  moreover have "ipc_log_ok ps (move_nd ps (M + length m) c) ms (Suc k)"
    unfolding ipc_log_ok_def
    using log_state_nd [OF s, of "M + length m"] mw le b ok assms(2) move_bytes [OF c] k
    by (intro exI [of _ R] exI [of _ "M + length m"] exI [of _ W]) (simp add: concat_Suc m_def)
  ultimately show ?thesis by blast
qed

text \<open>What no log operation touches.\<close>

definition log_same :: "ipc_log_context \<Rightarrow> ipc_log_context \<Rightarrow> bool" where
  "log_same c c' \<longleftrightarrow> dfunc_info_list c' = dfunc_info_list c \<and> destroyed c' = destroyed c \<and> il_name c' = il_name c \<and>
     length (page_list c') = length (page_list c)"

lemma log_same_refl [simp]: "log_same c c"
  by (simp add: log_same_def)

lemma log_same_trans: "log_same a b \<Longrightarrow> log_same b c \<Longrightarrow> log_same a c"
  by (simp add: log_same_def)

lemma dropped_facts:
  assumes "log_shape ps c"
  shows "log_bytes ps (dropped ps R M n c) x k = log_bytes ps c x k" "log_shape ps (dropped ps R M n c)" "log_same c (dropped ps R M n c)"
  using assms by (simp_all add: dropped_def Let_def move_bytes log_same_def) (simp_all add: move_rd_def move_nd_def)

lemma msg_drop_oldest:
  assumes "ipc_log_ok ps c (m # ms) k"
  shows "\<exists>c'. msg_drop ps c = Some c' \<and> ipc_log_ok ps c' ms (k - 1) \<and> log_same c c'"
proof -
  obtain R M W where s: "log_state ps c R M W" and b: "log_bytes ps c R (W - R) = concat (m # ms)" and ok: "\<forall>x \<in> set (m # ms). msg_ok x"
    and k: "k \<le> length (m # ms)" "M = R + length (concat (take k (m # ms)))" using assms by (auto simp: ipc_log_ok_def)
  have l: "2 \<le> length m" "length m \<le> 255" "unat (m ! 1) = length m - 2" using ok by (simp_all add: msg_ok_def)
  have W: "W - R = length m + length (concat ms)" using arg_cong [OF b, of length] by simp
  have k0: "R = M \<or> R + length m \<le> M" using k(2) by (cases k) auto
  have c: "log_shape ps c" using s by (simp add: log_state_def)
  note mb = msg_bytes [OF b, of 0, simplified] 
  have mb1: "log_bytes ps c R 2 = take 2 m" "th_size (bytes_tsv_header (take 2 m)) = m ! 1" using mb ok by simp_all
  define c1 where "c1 = dropped ps R M 2 c"
  define M1 where "M1 = max M (R + 2)"
  have c1: "log_shape ps c1" using dropped_facts(2) [OF c] by (simp add: c1_def)
  have s1: "log_state ps c1 (R + 2) M1 W" unfolding c1_def M1_def by (rule log_state_drop [OF s]) (use k0 l W in auto)
  define c2 where "c2 = dropped ps (R + 2) M1 (length m - 2) c1"
  have s2: "log_state ps c2 (R + length m) (max M (R + length m)) W"
  proof -
    have e: "R + 2 + (length m - 2) = R + length m" "max M1 (R + length m) = max M (R + length m)" using l by (auto simp: M1_def)
    have "R + 2 + (length m - 2) \<le> W" "R + 2 = M1 \<or> R + 2 + (length m - 2) \<le> M1" using k0 l W by (auto simp: M1_def)
    from log_state_drop [OF s1 this] show ?thesis unfolding e c2_def .
  qed
  have d1: "ipc_log_drop ps c True 2 = Some (take 2 m, c1)"
    using ipc_log_drop_eq [OF c, of R M 2 True] s mb1 by (auto simp: log_state_def log_capacity_def c1_def)
  have d2: "ipc_log_drop ps c1 False (length m - 2) = Some ([], c2)"
    using ipc_log_drop_eq [OF c1, of "R + 2" M1 "length m - 2" False] s1 l by (auto simp: log_state_def log_capacity_def c2_def)
  have "msg_drop ps c = Some c2"
    using log_empty(1) [OF assms] d1 d2 mb1 l by (simp add: msg_drop_def)
  moreover have "ipc_log_ok ps c2 ms (k - 1)"
  proof -
    have "W - (R + length m) = length (concat ms)" using W by linarith
    then have "log_bytes ps c2 (R + length m) (W - (R + length m)) = concat ms"
      using log_bytes_sub [OF b, of "length m" "length (concat ms)"] W dropped_facts(1) [OF c] dropped_facts(1) [OF c1]
      by (simp add: c2_def c1_def)
    moreover have "max M (R + length m) = R + length m + length (concat (take (k - 1) ms))" using k(2) by (cases k) auto
    moreover have "k - 1 \<le> length ms" using k(1) by simp
    ultimately show ?thesis using s2 ok unfolding ipc_log_ok_def by auto
  qed
  moreover have "log_same c c2"
    using dropped_facts(3) [OF c, of R M 2] dropped_facts(3) [OF c1, of "R + 2" M1 "length m - 2"]
    unfolding c1_def [symmetric] c2_def [symmetric] by (rule log_same_trans)
  ultimately show ?thesis by blast
qed

text \<open>The number of messages dropped for a new one of \<open>n\<close> bytes.\<close>

fun evicted :: "nat \<Rightarrow> nat \<Rightarrow> byte list list \<Rightarrow> nat" where
  "evicted cap n [] = 0"
| "evicted cap n (m # ms) = (if length (concat (m # ms)) + n < cap then 0 else Suc (evicted cap n ms))"

lemma evicted_fits: "n < cap \<Longrightarrow> length (concat (drop (evicted cap n ms) ms)) + n < cap"
  by (induction ms) auto

lemma evicted_le: "evicted cap n ms \<le> length ms"
  by (induction ms) auto

lemma log_avail:
  assumes "ipc_log_ok ps c ms k"
  shows "write_avail c = log_capacity ps c - length (concat ms)" "length (concat ms) < log_capacity ps c" "log_capacity ps c < 2 ^ 32" "4024 \<le> log_capacity ps c"
proof -
  obtain R M W where s: "log_state ps c R M W" and b: "log_bytes ps c R (W - R) = concat ms" using assms by (auto simp: ipc_log_ok_def)
  have "W - R = length (concat ms)" using arg_cong [OF b, of length] by simp
  then show "write_avail c = log_capacity ps c - length (concat ms)" "length (concat ms) < log_capacity ps c" using s by (simp_all add: log_state_def)
  have c: "log_shape ps c" using s by (simp add: log_state_def)
  then show "log_capacity ps c < 2 ^ 32" by (simp add: log_shape_def log_capacity_def)
  have "1 * 4024 \<le> length (page_list c) * LOG_PAGE_DATA_SIZE ps"
    using c shape_size [OF c] by (intro mult_le_mono) (auto simp: log_shape_def Suc_le_eq)
  then show "4024 \<le> log_capacity ps c" by (simp add: log_capacity_def)
qed

lemma drop_until_evicts:
  assumes "ipc_log_ok ps c ms k" "0 \<le> off" "off \<le> 255"
  shows "\<exists>c'. drop_until ps off c = Some c' \<and> log_same c c' \<and>
     ipc_log_ok ps c' (drop (evicted (log_capacity ps c) (nat off) ms) ms) (k - evicted (log_capacity ps c) (nat off) ms)"
  using assms(1)
proof (induction ms arbitrary: c k)
  case Nil
  then have "\<not> write_avail c \<le> nat (off mod 2 ^ 32)" using log_avail [OF Nil] assms(2,3) by simp
  then show ?case using Nil by (subst drop_until.simps) auto
next
  case (Cons m ms)
  have n: "nat (off mod 2 ^ 32) = nat off" using assms(2,3) by simp
  show ?case
  proof (cases "length (concat (m # ms)) + nat off < log_capacity ps c")
    case True
    then have "\<not> write_avail c \<le> nat (off mod 2 ^ 32)" using log_avail [OF Cons.prems] n by simp
    then show ?thesis using Cons.prems True by (subst drop_until.simps) auto
  next
    case False
    then have w: "write_avail c \<le> nat (off mod 2 ^ 32)" using log_avail [OF Cons.prems] n by simp
    obtain c1 where c1: "msg_drop ps c = Some c1" "ipc_log_ok ps c1 ms (k - 1)" "log_same c c1" using msg_drop_oldest [OF Cons.prems] by auto
    have cap: "log_capacity ps c1 = log_capacity ps c" using c1(3) by (simp add: log_capacity_def log_same_def)
    obtain c' where c': "drop_until ps off c1 = Some c'" "log_same c1 c'"
      "ipc_log_ok ps c' (drop (evicted (log_capacity ps c) (nat off) ms) ms) (k - 1 - evicted (log_capacity ps c) (nat off) ms)"
      using Cons.IH [OF c1(2)] by (auto simp: cap)
    have "drop_until ps off c = Some c'" using w c1(1) c'(1) by (subst drop_until.simps) simp
    then show ?thesis using c'(3) log_same_trans [OF c1(3) c'(2)] False by auto
  qed
qed

text \<open>A write to a page as a write to the log.\<close>

lemma loc_inj:
  assumes "0 < (D :: nat)" "x < y" "y - x < N * D"
  shows "\<not> (x div D mod N = y div D mod N \<and> x mod D = y mod D)"
proof -
  have "pos_q D (z + 1) = z div D" "pos_off D (z + 1) = z mod D + 1" for z by (simp_all add: pos_q_def pos_off_def)
  then show ?thesis using pos_inj [OF assms(1), of "x + 1" "y + 1" N] assms by simp
qed

lemma put_bytes:
  assumes c: "log_shape ps c" and i: "i < length (page_list c)" "k + length xs \<le> LOG_PAGE_DATA_SIZE ps"
    and d: "map pg_data (page_list c') = (map pg_data (page_list c))[i := buf_put (pg_data (page_list c ! i)) k xs]"
    and loc: "\<And>t. t < length xs \<Longrightarrow> (W + t) div LOG_PAGE_DATA_SIZE ps mod length (page_list c) = i \<and> (W + t) mod LOG_PAGE_DATA_SIZE ps = k + t"
    and x: "R \<le> x" "x < W + length xs" "R \<le> W" "W + length xs - R \<le> log_capacity ps c"
  shows "log_byte ps c' x = (if W \<le> x then xs ! (x - W) else log_byte ps c x)"
proof -
  define D where "D = LOG_PAGE_DATA_SIZE ps"
  define N where "N = length (page_list c)"
  have D: "0 < D" using shape_size [OF c] by (simp add: D_def)
  have l: "length (page_list c') = N" using arg_cong [OF d, of length] by (simp add: N_def)
  define j where "j = x div D mod N"
  have j: "j < N" unfolding j_def by (rule mod_less_divisor) (use i(1) in \<open>auto simp: N_def\<close>)
  have dj: "pg_data (page_list c' ! j) = (if j = i then buf_put (pg_data (page_list c ! i)) k xs else pg_data (page_list c ! j))"
    using arg_cong [OF d, of "\<lambda>l. l ! j"] j l i by (simp add: nth_list_update N_def)
  have len: "length (pg_data (page_list c ! i)) = D" using shape_data [OF c i(1)] by (simp add: D_def)
  have b: "log_byte ps c' x = (if j = i \<and> k \<le> x mod D \<and> x mod D < k + length xs then xs ! (x mod D - k) else log_byte ps c x)"
    using dj len i(2) D unfolding log_byte_def l D_def [symmetric] N_def [symmetric] j_def [symmetric]
    by (auto simp: nth_buf_put)
  show ?thesis
  proof (cases "W \<le> x")
    case True
    then have e: "j = i" "x mod D = k + (x - W)" using loc [of "x - W"] x by (simp_all add: j_def D_def N_def)
    have "x mod D - k = x - W" "k \<le> x mod D" "x mod D < k + length xs" using e(2) True x(2) by linarith+
    then show ?thesis using b True e(1) by simp
  next
    case False
    have "\<not> (j = i \<and> k \<le> x mod D \<and> x mod D < k + length xs)"
    proof
      assume a: "j = i \<and> k \<le> x mod D \<and> x mod D < k + length xs"
      then obtain t where t: "x mod D = k + t" "t < length xs" using le_Suc_ex by force
      have "(W + t) div D mod N = x div D mod N \<and> (W + t) mod D = x mod D" using loc [OF t(2)] t(1) a j_def by (simp add: D_def N_def)
      moreover have "x < W + t" "W + t - x < N * D" using False t x by (simp_all add: log_capacity_def D_def N_def)
      ultimately show False using loc_inj [OF D, of x "W + t" N] by simp
    qed
    then show ?thesis using b False by auto
  qed
qed

lemma append_bytes:
  assumes "\<And>x. R \<le> x \<Longrightarrow> x < W + length m \<Longrightarrow> log_byte ps c' x = (if W \<le> x then m ! (x - W) else log_byte ps c x)" "R \<le> W"
  shows "log_bytes ps c' R (W + length m - R) = log_bytes ps c R (W - R) @ m"
  by (rule nth_equalityI) (use assms in \<open>auto simp: log_bytes_def nth_append add.commute\<close>)

lemma reader_cong:
  "map f (page_list c') = map f (page_list c) \<Longrightarrow> reader_at f i ps c' x = reader_at f i ps c x"
proof -
  assume a: "map f (page_list c') = map f (page_list c)"
  have "length (page_list c') = length (page_list c)" using a by (metis length_map)
  moreover from this have "f (page_list c' ! j) = f (page_list c ! j)" if "j < length (page_list c)" for j
    using a that by (metis nth_map)
  ultimately show ?thesis by (simp add: reader_at_def pos_page_def)
qed

text \<open>What an append must establish.\<close>

lemma log_appended:
  assumes s: "log_state ps c R M W" and b: "log_bytes ps c R (W - R) = concat ms" "\<forall>m \<in> set ms. msg_ok m"
    and k: "k \<le> length ms" "M = R + length (concat (take k ms))"
    and m: "msg_ok m" "W - R + length m < log_capacity ps c"
    and wr: "write_page c' = pos_page ps c (W + length m)"
      "pg_write_offset (page_list c' ! write_page c') = pos_off (LOG_PAGE_DATA_SIZE ps) (W + length m)"
      "\<And>x. R \<le> x \<Longrightarrow> x < W + length m \<Longrightarrow> log_byte ps c' x = (if W \<le> x then m ! (x - W) else log_byte ps c x)"
    and same: "log_shape ps c'" "log_same c c'" "read_page c' = read_page c" "nd_read_page c' = nd_read_page c"
      "map pg_read_offset (page_list c') = map pg_read_offset (page_list c)"
      "map pg_nd_read_offset (page_list c') = map pg_nd_read_offset (page_list c)"
      "write_avail c' = write_avail c - length m"
  shows "ipc_log_ok ps c' (ms @ [m]) k"
proof -
  have le: "R \<le> M" "M \<le> W" "write_avail c = log_capacity ps c - (W - R)"
    and r: "reader_at pg_read_offset (read_page c) ps c R" "reader_at pg_nd_read_offset (nd_read_page c) ps c M" using s by (simp_all add: log_state_def)
  have cap: "log_capacity ps c' = log_capacity ps c" "pos_page ps c' y = pos_page ps c y" for y
    using same(2) by (simp_all add: log_capacity_def log_same_def pos_page_def)
  have "log_state ps c' R M (W + length m)"
    unfolding log_state_def
  proof (intro conjI)
    show "W + length m - R < log_capacity ps c'" using m le cap by linarith
    show "write_avail c' = log_capacity ps c' - (W + length m - R)" using same(7) m le cap by linarith
    show "pg_write_offset (page_list c' ! write_page c') = pos_off (LOG_PAGE_DATA_SIZE ps) (W + length m)" by (rule wr(2))
  qed (use wr(1) le r same cap reader_cong [OF same(5)] reader_cong [OF same(6)] in simp_all)
  moreover have "log_bytes ps c' R (W + length m - R) = concat (ms @ [m])"
    using append_bytes [OF wr(3)] le b by simp
  ultimately show ?thesis unfolding ipc_log_ok_def using b(2) m(1) k by (intro exI [of _ R] exI [of _ M] exI [of _ "W + length m"]) simp
qed

text \<open>The context after a commit that stays in its page, and after one that moves on to the next page.\<close>

definition stay_ctx :: "nat \<Rightarrow> nat \<Rightarrow> byte list \<Rightarrow> ipc_log_context \<Rightarrow> ipc_log_context" where
  "stay_ctx ps W m c = (let i = pos_page ps c W; D = LOG_PAGE_DATA_SIZE ps in
     c\<lparr>page_list := (page_list c)[i := (page_list c ! i)
          \<lparr>pg_data := buf_put (pg_data (page_list c ! i)) (pos_off D W) m, pg_write_offset := pos_off D W + length m\<rparr>],
       write_avail := write_avail c - length m, read_avail := complete (read_avail c)\<rparr>)"

definition wrap_first :: "nat \<Rightarrow> u64 \<Rightarrow> nat \<Rightarrow> byte list \<Rightarrow> ipc_log_context \<Rightarrow> ipc_log_context" where
  "wrap_first ps t W m c = (let i = pos_page ps c W; D = LOG_PAGE_DATA_SIZE ps in
     c\<lparr>page_list := (page_list c)[i := (page_list c ! i)
          \<lparr>pg_data := buf_put (pg_data (page_list c ! i)) (pos_off D W) (take (D - pos_off D W) m), pg_write_offset := D, pg_end_time := t\<rparr>],
       write_page := get_next_page c i\<rparr>)"

definition wrap_ctx :: "nat \<Rightarrow> u64 \<Rightarrow> nat \<Rightarrow> byte list \<Rightarrow> ipc_log_context \<Rightarrow> ipc_log_context" where
  "wrap_ctx ps t W m c = (let c1 = wrap_first ps t W m c; q = write_page c1; k = LOG_PAGE_DATA_SIZE ps - pos_off (LOG_PAGE_DATA_SIZE ps) W in
     c1\<lparr>page_list := (page_list c1)[q := (page_list c1 ! q)
          \<lparr>pg_start_time := t, pg_data := buf_put (pg_data (page_list c1 ! q)) 0 (drop k m), pg_write_offset := length m - k\<rparr>],
       write_avail := write_avail c1 - length m, read_avail := complete (read_avail c1)\<rparr>)"

lemma commit_facts:
  assumes s: "log_state ps c R M W" and m: "msg_ok m" "W - R + length m < log_capacity ps c"
    and e: "ec_offset e = int (length m)" "take (length m) (ec_buff e) = m"
  shows "nat ((int (write_avail c) - int (length m)) mod 2 ^ 32) = write_avail c - length m"
    "nat (ec_offset e mod 2 ^ 64) = length m" "length m \<le> length (ec_buff e)" "length m \<le> 255"
    "k + j \<le> length m \<Longrightarrow> buf_get (ec_buff e) k j = take j (drop k m)"
proof -
  show n: "length m \<le> 255" using m(1) by (simp add: msg_ok_def)
  show "nat (ec_offset e mod 2 ^ 64) = length m" using e(1) n by simp
  show "length m \<le> length (ec_buff e)" using arg_cong [OF e(2), of length] by simp
  have "log_capacity ps c < 2 ^ 32" "write_avail c = log_capacity ps c - (W - R)"
    using s by (auto simp: log_state_def log_shape_def log_capacity_def)
  then have "write_avail c - length m < 2 ^ 32" "length m \<le> write_avail c" using m(2) by simp_all
  then show "nat ((int (write_avail c) - int (length m)) mod 2 ^ 32) = write_avail c - length m" by (simp flip: of_nat_diff)
  assume "k + j \<le> length m"
  then have "take j (drop k (take (length m) (ec_buff e))) = buf_get (ec_buff e) k j" by (simp add: buf_get_def drop_take min_def)
  then show "buf_get (ec_buff e) k j = take j (drop k m)" unfolding e(2) by simp
qed

lemma commit_stay:
  assumes s: "log_state ps c R M W" and m: "msg_ok m" "W - R + length m < log_capacity ps c"
    and e: "ec_offset e = int (length m)" "take (length m) (ec_buff e) = m"
    and stay: "pos_off (LOG_PAGE_DATA_SIZE ps) W + length m \<le> LOG_PAGE_DATA_SIZE ps"
  shows "log_commit ps t e c = Some (stay_ctx ps W m c)"
proof -
  define D where "D = LOG_PAGE_DATA_SIZE ps"
  define i where "i = pos_page ps c W"
  have c: "log_shape ps c" using s by (simp add: log_state_def)
  have i: "i < length (page_list c)" using c by (simp add: i_def)
  have w: "write_page c = i" "pg_write_offset (page_list c ! i) = pos_off D W" using s by (auto simp: log_state_def i_def D_def)
  have len: "length (pg_data (page_list c ! i)) = D" "D < 65536" using shape_data [OF c i] shape_size [OF c] by (simp_all add: D_def)
  have left: "page_left ps (pos_off D W) = D - pos_off D W" using page_left_pos [OF c] by (simp add: D_def)
  note f = commit_facts [OF s m e] commit_facts(5) [OF s m e, of 0 "length m", simplified]
  have mn: "min (D - pos_off D W) (length m) = length m" using stay by (simp add: D_def)
  show ?thesis
    using w i len left stay f e unfolding log_commit_def write_bytes_def upd_page_def page_at_def stay_ctx_def D_def [symmetric] i_def [symmetric] Let_def
    by (simp add: mn off_add_small)
qed

lemma commit_wrap:
  assumes s: "log_state ps c R M W" and m: "msg_ok m" "W - R + length m < log_capacity ps c"
    and e: "ec_offset e = int (length m)" "take (length m) (ec_buff e) = m"
    and wrap: "LOG_PAGE_DATA_SIZE ps < pos_off (LOG_PAGE_DATA_SIZE ps) W + length m"
  shows "log_commit ps t e c = Some (wrap_ctx ps t W m c)"
proof -
  define D where "D = LOG_PAGE_DATA_SIZE ps"
  define i where "i = pos_page ps c W"
  define k where "k = D - pos_off D W"
  define q where "q = get_next_page c i"
  have c: "log_shape ps c" using s by (simp add: log_state_def)
  have i: "i < length (page_list c)" using c by (simp add: i_def)
  have w: "write_page c = i" "pg_write_offset (page_list c ! i) = pos_off D W" using s by (auto simp: log_state_def i_def D_def)
  have len: "length (pg_data (page_list c ! j)) = D" if "j < length (page_list c)" for j using shape_data [OF c that] by (simp add: D_def)
  have D: "255 < D" "D < 65536" "pos_off D W \<le> D" using shape_size [OF c] pos_off_le [of D W] by (simp_all add: D_def)
  have left: "page_left ps (pos_off D W) = k" using page_left_pos [OF c] by (simp add: D_def k_def)
  note f = commit_facts [OF s m e]
  have k: "k < length m" "pos_off D W + k = D" "length m - k \<le> 255" using wrap f(4) D by (simp_all add: k_def D_def)
  have q: "q < length (page_list c)" using pos_page_wrap(1) [OF c wrap f(4)] pos_page_less [OF c] by (metis q_def i_def)
  have gn: "get_next_page (c\<lparr>page_list := l\<rparr>) j = get_next_page c j" for l j by (simp add: get_next_page_def)
  have b: "buf_get (ec_buff e) 0 k = take k m" "buf_get (ec_buff e) k (length m - k) = drop k m" using f(5) k by simp_all
  have mn: "min k (length m) = k" using k by simp
  define c1 where "c1 = c\<lparr>page_list := (page_list c)[i := (page_list c ! i)\<lparr>pg_data := buf_put (pg_data (page_list c ! i)) (pos_off D W) (take k m)\<rparr>]\<rparr>"
  have w1: "write_bytes i (take k m) c = Some c1"
    using i w len k by (simp add: write_bytes_def page_at_def c1_def upd_page_def)
  define ca where "ca = upd_page i (\<lambda>p. p\<lparr>pg_write_offset := off_add (pg_write_offset p) k, pg_end_time := t\<rparr>) c1"
  have wf: "ca\<lparr>write_page := get_next_page ca i\<rparr> = wrap_first ps t W m c" "write_page ca = i"
    using i w k D by (simp_all add: ca_def c1_def upd_page_def wrap_first_def Let_def off_add_small gn D_def [symmetric] i_def [symmetric] k_def [symmetric])
  define cb where "cb = wrap_first ps t W m c"
  have cb: "write_page cb = q" "length (page_list cb) = length (page_list c)" "length (pg_data (page_list cb ! q)) = D"
      "write_avail cb = write_avail c" "read_avail cb = read_avail c"
    using i q len k by (auto simp: cb_def wrap_first_def Let_def i_def [symmetric] q_def nth_list_update D_def [symmetric] k_def [symmetric])
  define cc where "cc = upd_page q (\<lambda>p. p\<lparr>pg_write_offset := 0, pg_start_time := t\<rparr>) cb"
  define cd where "cd = upd_page q (\<lambda>p. p\<lparr>pg_data := buf_put (pg_data (page_list cb ! q)) 0 (drop k m)\<rparr>) cc"
  have w2: "write_bytes q (drop k m) cc = Some cd"
    using q cb k D by (simp add: write_bytes_def page_at_def cc_def cd_def upd_page_def)
  have "(let c2 = upd_page q (\<lambda>p. p\<lparr>pg_write_offset := off_add (pg_write_offset p) (length m - k)\<rparr>) cd
     in c2\<lparr>write_avail := write_avail c - length m, read_avail := complete (read_avail c2)\<rparr>) = wrap_ctx ps t W m c"
    using q cb k D unfolding wrap_ctx_def cb_def [symmetric] Let_def D_def [symmetric] k_def [symmetric]
    by (simp add: cd_def cc_def upd_page_def off_add_small)
  moreover have wp: "write_page c1 = i" "write_page cd = q" "write_page cc = q"
      "write_avail (upd_page q g cd) = write_avail c" "write_page (upd_page q g cd) = q" for g
    using cb w by (simp_all add: c1_def cd_def cc_def upd_page_def)
  moreover have g: "page_at c i = Some (page_list c ! i)" "mem_get (ec_buff e) 0 k = Some (take k m)"
      "mem_get (ec_buff e) k (length m - k) = Some (drop k m)" "k \<noteq> length m"
    using i b k f(3) by (simp_all add: page_at_def)
  ultimately show ?thesis
    unfolding log_commit_def
    by (simp only: w g f(1) f(2) [unfolded e(1)] left mn w1 wp Option.bind.simps Let_def if_True not_False_eq_True ca_def [symmetric] wf cb_def [symmetric] cb cc_def [symmetric] w2 e(1))
qed

lemma stay_facts:
  assumes s: "log_state ps c R M W" and m: "msg_ok m" "W - R + length m < log_capacity ps c"
    and stay: "pos_off (LOG_PAGE_DATA_SIZE ps) W + length m \<le> LOG_PAGE_DATA_SIZE ps"
  defines "c' \<equiv> stay_ctx ps W m c"
  shows "write_page c' = pos_page ps c (W + length m)"
    "pg_write_offset (page_list c' ! write_page c') = pos_off (LOG_PAGE_DATA_SIZE ps) (W + length m)"
    "R \<le> x \<Longrightarrow> x < W + length m \<Longrightarrow> log_byte ps c' x = (if W \<le> x then m ! (x - W) else log_byte ps c x)"
    "log_shape ps c'"
proof -
  define D where "D = LOG_PAGE_DATA_SIZE ps"
  define i where "i = pos_page ps c W"
  have c: "log_shape ps c" "R \<le> W" and w: "write_page c = i" using s by (auto simp: log_state_def i_def)
  have i: "i < length (page_list c)" using c by (simp add: i_def)
  have D: "0 < D" "length (pg_data (page_list c ! i)) = D" using shape_size [OF c(1)] shape_data [OF c(1) i] by (simp_all add: D_def)
  have p: "pos_page ps c (W + length m) = i" "pos_off D (W + length m) = pos_off D W + length m"
    using pos_page_stay [OF c(1) stay] by (simp_all add: i_def D_def)
  then show "write_page c' = pos_page ps c (W + length m)" using w by (simp add: c'_def stay_ctx_def Let_def)
  show "pg_write_offset (page_list c' ! write_page c') = pos_off (LOG_PAGE_DATA_SIZE ps) (W + length m)"
    using p w i by (simp add: c'_def stay_ctx_def Let_def i_def [symmetric] D_def [symmetric])
  have d: "map pg_data (page_list c') = (map pg_data (page_list c))[i := buf_put (pg_data (page_list c ! i)) (pos_off D W) m]"
    by (simp add: c'_def stay_ctx_def Let_def map_update i_def D_def)
  show "log_byte ps c' x = (if W \<le> x then m ! (x - W) else log_byte ps c x)" if x: "R \<le> x" "x < W + length m"
  proof (rule put_bytes [OF c(1) i _ d _ x c(2)])
    show "(W + t) div LOG_PAGE_DATA_SIZE ps mod length (page_list c) = i \<and> (W + t) mod LOG_PAGE_DATA_SIZE ps = pos_off D W + t"
      if "t < length m" for t
      using byte_here [OF D(1), of W t] stay that by (simp add: D_def i_def pos_page_def)
    show "W + length m - R \<le> log_capacity ps c" using m(2) c(2) by linarith
  qed (use stay in \<open>simp add: D_def\<close>)
  show "log_shape ps c'"
    using c(1) D(2) stay i by (auto simp: c'_def stay_ctx_def Let_def log_shape_def i_def [symmetric] D_def [symmetric] dest!: set_update_subset_insert [THEN subsetD])
qed

lemma wrap_first_facts:
  fixes t :: u64
  assumes s: "log_state ps c R M W" and m: "msg_ok m" "W - R + length m < log_capacity ps c"
    and wrap: "LOG_PAGE_DATA_SIZE ps < pos_off (LOG_PAGE_DATA_SIZE ps) W + length m"
  defines "c' \<equiv> wrap_first ps t W m c" and "k \<equiv> LOG_PAGE_DATA_SIZE ps - pos_off (LOG_PAGE_DATA_SIZE ps) W"
  shows "write_page c' = pos_page ps c (W + length m)" "k < length m"
    "R \<le> x \<Longrightarrow> x < W + k \<Longrightarrow> log_byte ps c' x = (if W \<le> x then take k m ! (x - W) else log_byte ps c x)"
    "log_shape ps c'" "length (page_list c') = length (page_list c)"
proof -
  define D where "D = LOG_PAGE_DATA_SIZE ps"
  define i where "i = pos_page ps c W"
  have c: "log_shape ps c" "R \<le> W" using s by (auto simp: log_state_def)
  have i: "i < length (page_list c)" using c by (simp add: i_def)
  have D: "0 < D" "length (pg_data (page_list c ! i)) = D" "pos_off D W \<le> D"
    using shape_size [OF c(1)] shape_data [OF c(1) i] pos_off_le [of D W] by (simp_all add: D_def)
  have m2: "length m \<le> 255" using m(1) by (simp add: msg_ok_def)
  show "write_page c' = pos_page ps c (W + length m)"
    using pos_page_wrap(1) [OF c(1) wrap m2] by (simp add: c'_def wrap_first_def Let_def)
  show k: "k < length m" using wrap D(3) unfolding k_def D_def by linarith
  have kD: "pos_off D W + k = D" using D by (simp add: k_def D_def)
  have d: "map pg_data (page_list c') = (map pg_data (page_list c))[i := buf_put (pg_data (page_list c ! i)) (pos_off D W) (take k m)]"
    by (simp add: c'_def wrap_first_def Let_def map_update i_def D_def k_def)
  have lk: "length (take k m) = k" using k by simp
  show "log_byte ps c' x = (if W \<le> x then take k m ! (x - W) else log_byte ps c x)" if x: "R \<le> x" "x < W + k"
  proof (rule put_bytes [OF c(1) i _ d _ x(1) _ c(2)])
    show "(W + t) div LOG_PAGE_DATA_SIZE ps mod length (page_list c) = i \<and> (W + t) mod LOG_PAGE_DATA_SIZE ps = pos_off D W + t"
      if "t < length (take k m)" for t
      using byte_here [OF D(1), of W t] kD lk that by (simp add: D_def i_def pos_page_def)
    show "W + length (take k m) - R \<le> log_capacity ps c" using m(2) c(2) k lk by linarith
  qed (use kD lk x(2) in \<open>simp_all add: D_def\<close>)
  show "log_shape ps c'"
    using c(1) D(2) kD lk i by (auto simp: c'_def wrap_first_def Let_def log_shape_def i_def [symmetric] D_def [symmetric] k_def [symmetric] dest!: set_update_subset_insert [THEN subsetD])
  show "length (page_list c') = length (page_list c)" by (simp add: c'_def wrap_first_def Let_def)
qed

lemma wrap_facts:
  fixes t :: u64
  assumes s: "log_state ps c R M W" and m: "msg_ok m" "W - R + length m < log_capacity ps c"
    and wrap: "LOG_PAGE_DATA_SIZE ps < pos_off (LOG_PAGE_DATA_SIZE ps) W + length m"
  defines "c' \<equiv> wrap_ctx ps t W m c"
  shows "write_page c' = pos_page ps c (W + length m)"
    "pg_write_offset (page_list c' ! write_page c') = pos_off (LOG_PAGE_DATA_SIZE ps) (W + length m)"
    "R \<le> x \<Longrightarrow> x < W + length m \<Longrightarrow> log_byte ps c' x = (if W \<le> x then m ! (x - W) else log_byte ps c x)"
    "log_shape ps c'"
proof -
  define D where "D = LOG_PAGE_DATA_SIZE ps"
  define k where "k = D - pos_off D W"
  define c1 where "c1 = wrap_first ps t W m c"
  define q where "q = pos_page ps c (W + length m)"
  note f = wrap_first_facts(1) [OF s m wrap, of t, folded c1_def] wrap_first_facts(2) [OF s m wrap, folded D_def, folded k_def]
    wrap_first_facts(3) [OF s m wrap, where t = t, folded c1_def D_def, folded k_def]
    wrap_first_facts(4) [OF s m wrap, of t, folded c1_def] wrap_first_facts(5) [OF s m wrap, of t, folded c1_def]
  have c: "log_shape ps c" "R \<le> W" using s by (auto simp: log_state_def)
  have q: "q < length (page_list c1)" "write_page c1 = q" using c f(1,5) by (simp_all add: q_def)
  have D: "0 < D" "255 < D" "length (pg_data (page_list c1 ! q)) = D" "pos_off D W \<le> D"
    using shape_size [OF c(1)] shape_data [OF f(4) q(1)] pos_off_le [of D W] by (simp_all add: D_def)
  have m2: "length m \<le> 255" using m(1) by (simp add: msg_ok_def)
  have e: "c' = c1\<lparr>page_list := (page_list c1)[q := (page_list c1 ! q)\<lparr>pg_start_time := t, pg_data := buf_put (pg_data (page_list c1 ! q)) 0 (drop k m), pg_write_offset := length m - k\<rparr>],
       write_avail := write_avail c1 - length m, read_avail := complete (read_avail c1)\<rparr>"
    by (simp add: c'_def wrap_ctx_def Let_def c1_def [symmetric] q(2) D_def k_def)
  show "write_page c' = pos_page ps c (W + length m)" by (simp add: e q(2) q_def)
  have wp: "write_page c' = q" by (simp add: e q(2))
  show "pg_write_offset (page_list c' ! write_page c') = pos_off (LOG_PAGE_DATA_SIZE ps) (W + length m)"
    unfolding wp pos_page_wrap(2) [OF c(1) wrap m2] using q(1) by (simp add: e k_def D_def)
  have d: "map pg_data (page_list c') = (map pg_data (page_list c1))[q := buf_put (pg_data (page_list c1 ! q)) 0 (drop k m)]"
    by (simp add: e map_update)
  have lk: "length (drop k m) = length m - k" by simp
  show "log_byte ps c' x = (if W \<le> x then m ! (x - W) else log_byte ps c x)" if x: "R \<le> x" "x < W + length m"
  proof -
    have "log_byte ps c' x = (if W + k \<le> x then drop k m ! (x - (W + k)) else log_byte ps c1 x)"
    proof (rule put_bytes [OF f(4) q(1) _ d _ x(1)])
      show "(W + k + u) div LOG_PAGE_DATA_SIZE ps mod length (page_list c1) = q \<and> (W + k + u) mod LOG_PAGE_DATA_SIZE ps = 0 + u"
        if "u < length (drop k m)" for u
        using byte_next [OF D(1), of W "k + u"] pos_wrap [OF D(1), of W "length m"] wrap that m2 D f(2,5)
        by (simp add: q_def pos_page_def D_def k_def add.assoc)
      show "W + k + length (drop k m) - R \<le> log_capacity ps c1"
        using m(2) c(2) f(2,5) by (simp add: log_capacity_def)
    qed (use m2 D x f(2) c(2) in \<open>simp_all add: D_def\<close>)
    then show ?thesis using f(3) [of x] x f(2) c(2) by (auto simp: add.commute)
  qed
  show "log_shape ps c'"
    using f(4) D(2,3) m2 q(1) by (auto simp: e log_shape_def D_def [symmetric] dest!: set_update_subset_insert [THEN subsetD])
qed

lemma map_keep: "f y = f (xs ! i) \<Longrightarrow> map f (xs[i := y]) = map f xs"
  by (cases "i < length xs") (simp_all add: map_update list_update_same_conv list_update_beyond)

lemma log_commit_appends:
  assumes ok: "ipc_log_ok ps c ms k" and m: "msg_ok m" "length (concat ms) + length m < log_capacity ps c"
    and e: "ec_offset e = int (length m)" "take (length m) (ec_buff e) = m"
  shows "\<exists>c'. log_commit ps t e c = Some c' \<and> ipc_log_ok ps c' (ms @ [m]) k \<and> log_same c c' \<and> read_avail c' = complete (read_avail c)"
proof -
  obtain R M W where s: "log_state ps c R M W" and b: "log_bytes ps c R (W - R) = concat ms" "\<forall>m \<in> set ms. msg_ok m"
    and k: "k \<le> length ms" "M = R + length (concat (take k ms))" using ok by (auto simp: ipc_log_ok_def)
  have "W - R = length (concat ms)" using arg_cong [OF b(1), of length] by simp
  then have cap: "W - R + length m < log_capacity ps c" using m(2) by simp
  show ?thesis
  proof (cases "pos_off (LOG_PAGE_DATA_SIZE ps) W + length m \<le> LOG_PAGE_DATA_SIZE ps")
    case True
    define c' where "c' = stay_ctx ps W m c"
    note f = stay_facts [OF s m(1) cap True, folded c'_def]
    have same: "log_same c c'" "read_page c' = read_page c" "nd_read_page c' = nd_read_page c" "write_avail c' = write_avail c - length m"
      "read_avail c' = complete (read_avail c)" "map pg_read_offset (page_list c') = map pg_read_offset (page_list c)"
      "map pg_nd_read_offset (page_list c') = map pg_nd_read_offset (page_list c)"
      by (simp_all add: log_same_def c'_def stay_ctx_def Let_def map_keep)
    have "ipc_log_ok ps c' (ms @ [m]) k"
      by (rule log_appended [OF s b k m(1) cap f(1,2) f(3) f(4) same(1-3) same(6,7) same(4)])
    then show ?thesis using commit_stay [OF s m(1) cap e True] same(1,5) by (auto simp: c'_def)
  next
    case False
    then have wrap: "LOG_PAGE_DATA_SIZE ps < pos_off (LOG_PAGE_DATA_SIZE ps) W + length m" by simp
    define c' where "c' = wrap_ctx ps t W m c"
    note f = wrap_facts(1) [OF s m(1) cap wrap, of t, folded c'_def] wrap_facts(2) [OF s m(1) cap wrap, of t, folded c'_def]
      wrap_facts(3) [OF s m(1) cap wrap, where t = t, folded c'_def] wrap_facts(4) [OF s m(1) cap wrap, of t, folded c'_def]
    have same: "log_same c c'" "read_page c' = read_page c" "nd_read_page c' = nd_read_page c" "write_avail c' = write_avail c - length m"
      "read_avail c' = complete (read_avail c)" "map pg_read_offset (page_list c') = map pg_read_offset (page_list c)"
      "map pg_nd_read_offset (page_list c') = map pg_nd_read_offset (page_list c)"
      by (simp_all add: log_same_def c'_def wrap_ctx_def wrap_first_def Let_def map_keep)
    have "ipc_log_ok ps c' (ms @ [m]) k"
      by (rule log_appended [OF s b k m(1) cap f(1,2) f(3) f(4) same(1-3) same(6,7) same(4)])
    then show ?thesis using commit_wrap [OF s m(1) cap e wrap] same(1,5) by (auto simp: c'_def)
  qed
qed

text \<open>A finished encode context: the buffer holds a well-formed message.\<close>

definition enc_msg :: "encode_context \<Rightarrow> byte list" where
  "enc_msg e = take (nat (ec_offset e)) (ec_buff e)"

definition enc_ok :: "encode_context \<Rightarrow> bool" where
  "enc_ok e \<longleftrightarrow> 0 \<le> ec_offset e \<and> nat (ec_offset e) \<le> length (ec_buff e) \<and> msg_ok (enc_msg e)"

lemma enc_facts: "enc_ok e \<Longrightarrow> ec_offset e = int (length (enc_msg e)) \<and> take (length (enc_msg e)) (ec_buff e) = enc_msg e \<and> length (enc_msg e) \<le> 255"
  by (auto simp: enc_ok_def enc_msg_def msg_ok_def min_def)

lemma ipc_log_write_appends:
  assumes ok: "ipc_log_ok ps c ms k" and e: "enc_ok e"
  defines "d \<equiv> evicted (log_capacity ps c) (length (enc_msg e)) ms"
  shows "\<exists>c'. ipc_log_write ps t (Some c) (Some e) = Some (Some c') \<and> ipc_log_ok ps c' (drop d ms @ [enc_msg e]) (k - d) \<and>
     log_same c c' \<and> read_avail c' \<noteq> 0"
proof -
  have m: "msg_ok (enc_msg e)" using e by (simp add: enc_ok_def)
  note f = enc_facts [OF e]
  obtain c1 where c1: "drop_until ps (ec_offset e) c = Some c1" "log_same c c1" "ipc_log_ok ps c1 (drop d ms) (k - d)"
    using drop_until_evicts [OF ok, of "ec_offset e"] f by (auto simp: d_def)
  have cap: "log_capacity ps c1 = log_capacity ps c" using c1(2) by (simp add: log_capacity_def log_same_def)
  have "length (concat (drop d ms)) + length (enc_msg e) < log_capacity ps c1"
    unfolding cap d_def by (rule evicted_fits) (use f log_avail(4) [OF ok] in simp)
  then obtain c' where c': "log_commit ps t e c1 = Some c'" "ipc_log_ok ps c' (drop d ms @ [enc_msg e]) (k - d)" "log_same c1 c'"
      "read_avail c' = complete (read_avail c1)"
    using log_commit_appends [OF c1(3) m] f by blast
  have "read_avail c' \<noteq> 0" using c'(4) by (simp add: complete_def UINT_MAX_def split: if_splits)
  then show ?thesis using c1 c' log_same_trans [OF c1(2) c'(3)] by (auto simp: ipc_log_write_def)
qed

lemma evicted_least: "0 < evicted cap n ms \<Longrightarrow> cap \<le> length (concat (drop (evicted cap n ms - 1) ms)) + n"
proof (induction ms)
  case (Cons m ms)
  then show ?case by (cases "evicted cap n ms") (auto split: if_splits)
qed simp

lemma string_buffer:
  assumes "length b = 255" "length T = 8" "length Q = 8" "length s \<le> 230" "length h = 2" "length z = 2"
  defines "b5 \<equiv> buf_put (buf_put (buf_put (buf_put (buf_put b 2 ([1, 8] @ T)) 12 ([5, 8] @ Q)) 24 (s @ [0 :: byte])) 22 z) 0 h"
  shows "length b5 = 255" "take (24 + length s) b5 = h @ [1, 8] @ T @ [5, 8] @ Q @ z @ s"
proof -
  define b1 where "b1 = buf_put b 2 ([1, 8] @ T)"
  define b2 where "b2 = buf_put b1 12 ([5, 8] @ Q)"
  define b3 where "b3 = buf_put b2 24 s"
  define b3' where "b3' = buf_put b3 (24 + length s) [0]"
  define b4 where "b4 = buf_put b3' 22 z"
  have l: "length b1 = 255" "length b2 = 255" "length b3 = 255" "length b3' = 255" "length b4 = 255"
    using assms by (simp_all add: b1_def b2_def b3_def b3'_def b4_def)
  have "buf_put b2 24 (s @ [0]) = b3'" using buf_put_put [of 24 s "[0]" b2] l assms(4) by (simp add: b3_def b3'_def)
  then have b5: "b5 = buf_put b4 0 h" by (simp only: b5_def b1_def [symmetric] b2_def [symmetric] b4_def)
  then show l5: "length b5 = 255" using l assms(5) by simp
  have g: "buf_get b5 0 2 = h" using buf_get_put_same [of 0 h b4] l assms(5) by (simp add: b5)
  have k: "buf_get b5 i n = buf_get b4 i n" if "2 \<le> i" "i + n \<le> 255" for i n
    unfolding b5 by (rule buf_get_put_disjoint) (use that l assms in simp_all)
  have g4: "buf_get b4 22 2 = z" using buf_get_put_same [of 22 z b3'] l assms(6) by (simp add: b4_def)
  have k4: "buf_get b4 i n = buf_get b3' i n" if "i + n \<le> 255" "i + n \<le> 22 \<or> 24 \<le> i" for i n
    unfolding b4_def by (rule buf_get_put_disjoint) (use that l assms in auto)
  have k3: "buf_get b3' i n = buf_get b3 i n" if "i + n \<le> 24 + length s" for i n
    unfolding b3'_def by (rule buf_get_put_disjoint) (use that l assms in auto)
  have g3: "buf_get b3 24 (length s) = s" unfolding b3_def by (rule buf_get_put_same) (use l assms in simp)
  have k2: "buf_get b3 i n = buf_get b2 i n" if "i + n \<le> 24" for i n
    unfolding b3_def by (rule buf_get_put_disjoint) (use that l assms in auto)
  have g2: "buf_get b2 12 10 = [5, 8] @ Q" using buf_get_put_same [of 12 "[5, 8] @ Q" b1] l assms(3) by (simp add: b2_def)
  have g1: "buf_get b2 2 10 = [1, 8] @ T"
    using buf_get_put_same [of 2 "[1, 8] @ T" b] buf_get_put_disjoint [of 12 "[5, 8] @ Q" b1 2 10] l assms(1-3) by (simp add: b2_def b1_def)
  have "take (24 + length s) b5 = buf_get b5 0 (2 + (10 + (10 + (2 + length s))))" by (simp add: buf_get_def)
  also have "\<dots> = buf_get b5 0 2 @ buf_get b5 2 10 @ buf_get b5 12 10 @ buf_get b5 22 2 @ buf_get b5 24 (length s)"
    using l5 assms(4) by (subst buf_get_append, simp)+ (simp add: numeral_2_eq_2)
  also have "\<dots> = h @ [1, 8] @ T @ [5, 8] @ Q @ z @ s"
    using g g1 g2 g3 g4 assms(4) by (simp add: k k4 k3 k2)
  finally show "take (24 + length s) b5 = h @ [1, 8] @ T @ [5, 8] @ Q @ z @ s" .
qed

lemma string_msg_ok: "length s \<le> 230 \<Longrightarrow> msg_ok (string_msg t q s) \<and> length (string_msg t q s) = 24 + length s"
  by (simp add: string_msg_def msg_ok_def unat_of_nat flip: of_nat_add)

lemma encode_string_ok:
  assumes "length (ec_buff e) = 255"
  shows "\<exists>e'. encode_string e t q txt = Some (Some e') \<and> enc_ok e' \<and> enc_msg e' = string_msg t q (take 230 txt)"
proof -
  define s where "s = take 230 txt"
  have s: "length s \<le> 230" by (simp add: s_def)
  define T where "T = nat_to_le 8 (unat t)"
  define Q where "Q = nat_to_le 8 (unat q)"
  have l: "length T = 8" "length Q = 8" by (simp_all add: T_def Q_def)
  define b1 where "b1 = buf_put (ec_buff e) 2 ([1, 8] @ T)"
  define b2 where "b2 = buf_put b1 12 ([5, 8] @ Q)"
  define b3 where "b3 = buf_put b2 24 (s @ [0])"
  define b4 where "b4 = buf_put b3 22 [4, of_nat (length s)]"
  define h where "h = \<lparr>th_type = (2 :: byte), th_size = of_nat (22 + length s)\<rparr>"
  define e' where "e' = e\<lparr>ec_hdr := h, ec_buff := buf_put b4 0 (tsv_header_bytes h), ec_offset := 24 + int (length s)\<rparr>"
  define e1 where "e1 = e\<lparr>ec_hdr := \<lparr>th_type = 2, th_size = 0\<rparr>, ec_offset := 2\<rparr>"
  have bl: "length b1 = 255" "length b2 = 255" "length b3 = 255" "length b4 = 255" using assms l s by (simp_all add: b1_def b2_def b3_def b4_def)
  have st: "msg_encode_start (Some e) TSV_TYPE_STRING = Some e1" by (simp add: msg_encode_start_def e1_def TSV_TYPE_STRING_def)
  have w1: "tsv_timestamp_write (Some e1) t = Some (Inr (), Some (e1\<lparr>ec_buff := b1, ec_offset := 12\<rparr>))"
    using value_write_ok [of e1 T TSV_TYPE_TIMESTAMP] assms l by (simp add: e1_def tsv_timestamp_write_def T_def TSV_TYPE_TIMESTAMP_def b1_def)
  have w2: "tsv_qtimer_write (Some (e1\<lparr>ec_buff := b1, ec_offset := 12\<rparr>)) q = Some (Inr (), Some (e1\<lparr>ec_buff := b2, ec_offset := 22\<rparr>))"
    using value_write_ok [of "e1\<lparr>ec_buff := b1, ec_offset := 12\<rparr>" Q TSV_TYPE_QTIMER] bl l by (simp add: tsv_qtimer_write_def Q_def TSV_TYPE_QTIMER_def b2_def)
  have w3: "buff_put (e1\<lparr>ec_buff := b2, ec_offset := 22\<rparr>) 24 (s @ [0]) = Some (e1\<lparr>ec_buff := b3, ec_offset := 22\<rparr>)"
    using bl s by (simp add: buff_put_def b3_def)
  have w4: "tsv_write_header (Some (e1\<lparr>ec_buff := b3, ec_offset := 22\<rparr>)) TSV_TYPE_BYTE_ARRAY (length s) = Some (Inr (), Some (e1\<lparr>ec_buff := b4, ec_offset := 24\<rparr>))"
    using write_header_ok [of "e1\<lparr>ec_buff := b3, ec_offset := 22\<rparr>" TSV_TYPE_BYTE_ARRAY "length s"] bl by (simp add: b4_def TSV_TYPE_BYTE_ARRAY_def)
  have w5: "msg_encode_end (Some (e1\<lparr>ec_buff := b4, ec_offset := 24 + int (length s)\<rparr>)) = Some (Some e')"
    using bl by (simp add: msg_encode_end_def Let_def e'_def e1_def h_def tsv_header_bytes_def)
  have "encode_string e t q txt = Some (Some e')"
    using w1 w2 w3 w4 w5 st by (simp add: encode_string_def MAX_MSG_SIZE_def s_def [symmetric] del: length_take)
  moreover have "enc_msg e' = string_msg t q s"
    using string_buffer(2) [OF assms l s, of "tsv_header_bytes h" "[4, of_nat (length s)]"]
    by (simp add: enc_msg_def e'_def b4_def b3_def b2_def b1_def h_def tsv_header_bytes_def string_msg_def T_def Q_def nat_add_distrib)
  moreover have "enc_ok e'"
    using string_msg_ok [OF s, of t q] calculation(2) bl s by (simp add: enc_ok_def) (simp add: e'_def tsv_header_bytes_def)
  ultimately show ?thesis unfolding s_def by blast
qed

section \<open>Extraction returns\<close>

lemma ok_irrelevant [simp]:
  "ipc_log_ok ps (context_shutdown c) ms k = ipc_log_ok ps c ms k" "ipc_log_ok ps (c\<lparr>read_avail := n\<rparr>) ms k = ipc_log_ok ps c ms k"
  by (simp_all add: ipc_log_ok_def log_state_def log_shape_def reader_at_def pos_page_def log_capacity_def log_bytes_def log_byte_def [abs_def] context_shutdown_def)

text \<open>
  \<open>deser_ok P c\<close>: on every message that satisfies \<open>P\<close>, the deserialisers of the context stay inside the
  output buffer, which has room for the largest decoded message.
\<close>

definition deser_ok :: "(byte list \<Rightarrow> bool) \<Rightarrow> ipc_log_context \<Rightarrow> bool" where
  "deser_ok P c \<longleftrightarrow> (\<forall>(ty, f) \<in> set (dfunc_info_list c). \<forall>m e d. msg_ok m \<and> P m \<and> uint (m ! 0) = ty \<and> holds_msg e m \<and> dc_ok d \<and> 1020 \<le> dc_size d \<longrightarrow>
     (\<exists>e' d'. f e d = Some (e', d') \<and> dc_ok d' \<and> length (ec_buff e') = 255))"

fun event_ok :: "(byte list \<Rightarrow> bool) \<Rightarrow> log_event \<Rightarrow> bool" where
  "event_ok P (Ev_Write t e) = (enc_ok e \<and> P (enc_msg e))"
| "event_ok P Ev_Destroy = True"

lemma other_cpus_ok:
  assumes "ipc_log_ok ps c ms k" "\<forall>m \<in> set ms. P m" "\<forall>ev \<in> set evs. event_ok P ev" "deser_ok P c"
  shows "\<exists>c' ms' k'. other_cpus ps evs c = Some c' \<and> ipc_log_ok ps c' ms' k' \<and> (\<forall>m \<in> set ms'. P m) \<and>
     length ms' - k' \<le> length ms - k + length evs \<and> deser_ok P c'"
  using assms
proof (induction evs arbitrary: c ms k)
  case Nil
  then show ?case by auto
next
  case (Cons ev evs)
  show ?case
  proof (cases ev)
    case (Ev_Write t e)
    then have e: "enc_ok e" "P (enc_msg e)" using Cons.prems(3) by simp_all
    define d where "d = evicted (log_capacity ps c) (length (enc_msg e)) ms"
    obtain c1 where c1: "ipc_log_write ps t (Some c) (Some e) = Some (Some c1)" "ipc_log_ok ps c1 (drop d ms @ [enc_msg e]) (k - d)" "log_same c c1"
      using ipc_log_write_appends [OF Cons.prems(1) e(1), of t] by (auto simp: d_def)
    have kl: "k \<le> length ms" using Cons.prems(1) by (auto simp: ipc_log_ok_def)
    have "\<forall>m \<in> set (drop d ms @ [enc_msg e]). P m" using Cons.prems(2) e(2) by (auto dest: in_set_dropD)
    moreover have "deser_ok P c1" using Cons.prems(4) c1(3) by (simp add: deser_ok_def log_same_def)
    ultimately obtain c' ms' k' where "other_cpus ps evs c1 = Some c'" "ipc_log_ok ps c' ms' k'" "\<forall>m \<in> set ms'. P m" "deser_ok P c'"
      "length ms' - k' \<le> length (drop d ms @ [enc_msg e]) - (k - d) + length evs"
      using Cons.IH [OF c1(2)] Cons.prems(3) by auto
    then show ?thesis using c1(1) kl Ev_Write by (intro exI [of _ c'] exI [of _ ms'] exI [of _ k']) simp
  next
    case Ev_Destroy
    have "deser_ok P (context_shutdown c)" by (simp add: deser_ok_def context_shutdown_def)
    then obtain c' ms' k' where "other_cpus ps evs (context_shutdown c) = Some c'" "ipc_log_ok ps c' ms' k'" "\<forall>m \<in> set ms'. P m" "deser_ok P c'"
      "length ms' - k' \<le> length ms - k + length evs"
      using Cons.IH [of "context_shutdown c" ms k] Cons.prems by auto
    then show ?thesis using Ev_Destroy by (intro exI [of _ c'] exI [of _ ms'] exI [of _ k']) simp
  qed
qed

lemma extract_step:
  assumes ok: "ipc_log_ok ps c ms k" "k < length ms" "\<forall>m \<in> set ms. P m" and de: "deser_ok P c"
    and d: "dc_ok d" "1020 \<le> dc_size d" and e: "length (ec_buff e) = 255"
  shows "\<exists>c1 r e1 e2 d2. msg_read ps c (Some e) = Some (r, c1, Some e1) \<and> ipc_log_ok ps c1 ms (Suc k) \<and> dfunc_info_list c1 = dfunc_info_list c \<and>
     destroyed c1 = destroyed c \<and> holds_msg e1 (ms ! k) \<and>
     (case get_deserialization_func c1 (uint (th_type (ec_hdr e1))) of Some f \<Rightarrow> f e1 d | None \<Rightarrow> Some (e1, d)) = Some (e2, d2) \<and>
     dc_ok d2 \<and> length (ec_buff e2) = 255"
proof -
  define m where "m = ms ! k"
  have m: "msg_ok m" "P m" using ok by (auto simp: ipc_log_ok_def m_def)
  have l: "2 \<le> length m" "length m \<le> 255" using m(1) by (simp_all add: msg_ok_def)
  define e1 where "e1 = e\<lparr>ec_hdr := bytes_tsv_header (take 2 m), ec_offset := 2, ec_buff := buf_put (ec_buff e) 2 (drop 2 m)\<rparr>"
  obtain x where x: "msg_read ps c (Some e) = Some (Inr (length m), move_nd ps x c, Some e1)" "ipc_log_ok ps (move_nd ps x c) ms (Suc k)"
    using msg_read_next [OF ok(1,2) e] by (auto simp: m_def e1_def)
  have h: "holds_msg e1 m" using buf_get_put_same [of 2 "drop 2 m" "ec_buff e"] l e by (simp add: holds_msg_def e1_def)
  have ty: "uint (th_type (ec_hdr e1)) = uint (m ! 0)" using l by (simp add: e1_def bytes_tsv_header_def)
  have df: "dfunc_info_list (move_nd ps x c) = dfunc_info_list c" "destroyed (move_nd ps x c) = destroyed c" by (simp_all add: move_nd_def)
  have "\<exists>e2 d2. (case get_deserialization_func (move_nd ps x c) (uint (th_type (ec_hdr e1))) of Some f \<Rightarrow> f e1 d | None \<Rightarrow> Some (e1, d)) = Some (e2, d2) \<and>
     dc_ok d2 \<and> length (ec_buff e2) = 255"
  proof (cases "get_deserialization_func (move_nd ps x c) (uint (th_type (ec_hdr e1)))")
    case None
    then show ?thesis using h d by (simp add: holds_msg_def)
  next
    case (Some f)
    then have "(uint (m ! 0), f) \<in> set (dfunc_info_list c)" by (simp add: get_deserialization_func_def df ty map_of_SomeD)
    then have "\<exists>e' d'. f e1 d = Some (e', d') \<and> dc_ok d' \<and> length (ec_buff e') = 255" using de m h d by (fastforce simp: deser_ok_def)
    then show ?thesis using Some by auto
  qed
  then show ?thesis using x h df by (auto simp: m_def)
qed

lemma extract_loop_returns:
  assumes "ipc_log_ok ps c ms k" "\<forall>m \<in> set ms. P m" "\<forall>ev \<in> set (concat evs). event_ok P ev" "deser_ok P c"
    "dc_ok d" "length (ec_buff e) = 255"
  shows "\<exists>c' d' ms' k'. extract_loop ps evs c e d = Some (c', d') \<and> dc_ok d' \<and> ipc_log_ok ps c' ms' k'"
  using assms
proof (induction "length ms - k + length (concat evs)" arbitrary: ms k evs c d e rule: less_induct)
  case less
  note em = log_empty(2) [OF less.prems(1)]
  show ?case
  proof (cases "dc_size d < MAX_MSG_DECODED_SIZE \<or> k = length ms")
    case True
    then show ?thesis using less.prems(1,5) em by (subst extract_loop.simps) auto
  next
    case False
    then have k: "k < length ms" using less.prems(1) by (auto simp: ipc_log_ok_def)
    have sz: "1020 \<le> dc_size d" using False by (simp add: MAX_MSG_DECODED_SIZE_def MAX_MSG_SIZE_def)
    obtain c1 r e1 e2 d2 where s: "msg_read ps c (Some e) = Some (r, c1, Some e1)" "ipc_log_ok ps c1 ms (Suc k)" "dfunc_info_list c1 = dfunc_info_list c"
      "(case get_deserialization_func c1 (uint (th_type (ec_hdr e1))) of Some f \<Rightarrow> f e1 d | None \<Rightarrow> Some (e1, d)) = Some (e2, d2)"
      "dc_ok d2" "length (ec_buff e2) = 255"
      using extract_step [OF less.prems(1) k less.prems(2,4,5) sz less.prems(6)] by blast
    have de: "deser_ok P c1" using less.prems(4) s(3) by (simp add: deser_ok_def)
    have ce: "concat evs = concat (take 1 evs) @ concat (drop 1 evs)" by (metis append_take_drop_id concat_append)
    obtain c2 ms2 k2 where c2: "other_cpus ps (concat (take 1 evs)) c1 = Some c2" "ipc_log_ok ps c2 ms2 k2" "\<forall>m \<in> set ms2. P m" "deser_ok P c2"
      "length ms2 - k2 \<le> length ms - Suc k + length (concat (take 1 evs))"
      using other_cpus_ok [OF s(2) less.prems(2) _ de, of "concat (take 1 evs)"] less.prems(3) unfolding ce by auto
    have "length ms2 - k2 + length (concat (drop 1 evs)) < length ms - k + length (concat evs)" using c2(5) k unfolding ce by simp
    moreover have "\<forall>ev \<in> set (concat (drop 1 evs)). event_ok P ev" using less.prems(3) unfolding ce by auto
    ultimately obtain c' d' ms' k' where "extract_loop ps (drop 1 evs) c2 e2 d2 = Some (c', d')" "dc_ok d'" "ipc_log_ok ps c' ms' k'"
      using less.hyps [of ms2 k2 "drop 1 evs" c2 d2 e2] c2(2-4) s(5,6) by blast
    moreover have "extract_loop ps evs c e d = extract_loop ps (drop 1 evs) c2 e2 d2"
      using False em s(1,4) c2(1) by (subst extract_loop.simps) (simp add: not_less)
    ultimately show ?thesis by auto
  qed
qed

section \<open>New contexts\<close>

lemma make_pages_ok:
  "make_pages env md name ctxt cnt n as g = (Some pages, as', g') \<Longrightarrow>
   length pages = n \<and> (\<forall>p \<in> set pages. pg_read_offset p = 0 \<and> pg_write_offset p = 0 \<and> pg_nd_read_offset p = 0 \<and>
     length (pg_data p) = LOG_PAGE_DATA_SIZE (env_page_size env)) \<and>
   ctx_store g' = ctx_store g \<and> ipc_log_context_list g' = ipc_log_context_list g"
proof (induction n arbitrary: cnt as g pages as' g')
  case (Suc n)
  then obtain pg as1 where a: "take_alloc as = (Some pg, as1)" by (auto split: prod.splits option.splits)
  define g1 where "g1 = (if md then register_minidump env name g else g)"
  obtain r as2 g2 where r: "make_pages env md name ctxt (cnt + 1) n as1 g1 = (r, as2, g2)" by (metis prod_cases3)
  obtain ps where ps: "r = Some ps" "pages = new_page (env_page_size env) ctxt pg cnt # ps" "g' = g2"
    using Suc.prems a r by (auto simp: g1_def)
  have "ctx_store g1 = ctx_store g \<and> ipc_log_context_list g1 = ipc_log_context_list g" by (simp add: g1_def register_minidump_def)
  then show ?case using Suc.IH [OF r [unfolded ps(1)]] ps by (auto simp: new_page_def)
qed simp

lemma create_ctx_debugfs_fields:
  "\<exists>l. create_ctx_debugfs env b c = c\<lparr>dfunc_info_list := l\<rparr>"
  by (cases b) (auto simp: create_ctx_debugfs_def add_deserialization_func_def intro: exI [of _ "dfunc_info_list c"])

lemma new_context_ok:
  assumes "length pages = nat n" "0 < n" "\<forall>p \<in> set pages. pg_read_offset p = 0 \<and> pg_write_offset p = 0 \<and> pg_nd_read_offset p = 0 \<and>
     length (pg_data p) = LOG_PAGE_DATA_SIZE ps" "4096 \<le> ps" "ps \<le> 65536" "nat n * LOG_PAGE_DATA_SIZE ps < 2 ^ 32"
  shows "ipc_log_ok ps ((new_context ps ctxt pages name fv n)\<lparr>dfunc_info_list := l\<rparr>) [] 0"
proof -
  let ?c = "(new_context ps ctxt pages name fv n)\<lparr>dfunc_info_list := l\<rparr>"
  have ne: "pages \<noteq> []" using assms(1,2) by auto
  have z: "\<forall>j < length pages. pg_read_offset (pages ! j) = 0 \<and> pg_write_offset (pages ! j) = 0 \<and> pg_nd_read_offset (pages ! j) = 0"
    using assms(3) by simp
  define N where "N = nat n * LOG_PAGE_DATA_SIZE ps"
  have "n * int (LOG_PAGE_DATA_SIZE ps) = int N" using assms(2) by (simp add: N_def)
  moreover have "int N mod 2 ^ 32 = int N" using assms(6) by (simp add: N_def [symmetric])
  ultimately have w: "nat ((n * int (LOG_PAGE_DATA_SIZE ps)) mod 2 ^ 32) = nat n * LOG_PAGE_DATA_SIZE ps" by (simp only: N_def [symmetric] nat_int)
  have sh: "log_shape ps ?c" using assms ne by (simp add: log_shape_def new_context_def)
  have "0 < LOG_PAGE_DATA_SIZE ps" using assms(4) by (simp add: LOG_PAGE_DATA_SIZE_def)
  then have "log_state ps ?c 0 0 0" using sh ne z w assms(1,2)
    by (simp add: log_state_def reader_at_def pos_page_def pos_q_def pos_off_def log_capacity_def new_context_def)
  then show ?thesis unfolding ipc_log_ok_def by (intro exI [of _ 0]) (simp add: log_bytes_def)
qed

text \<open>What a successful creation of a context that did not exist has done.\<close>

lemma context_create_new:
  assumes "ipc_log_context_create env n name fv as g = (Some a, as', g')" "find_context g name = None"
  obtains pages l where "length pages = nat n" "\<forall>p \<in> set pages. pg_read_offset p = 0 \<and> pg_write_offset p = 0 \<and> pg_nd_read_offset p = 0 \<and>
     length (pg_data p) = LOG_PAGE_DATA_SIZE (env_page_size env)"
    "ctx_store g' = (ctx_store g)(a := Some ((new_context (env_page_size env) a pages name fv n)\<lparr>dfunc_info_list := l\<rparr>))"
    "set (ipc_log_context_list g') = insert a (set (ipc_log_context_list g))"
proof -
  obtain ctxt as1 where a: "take_alloc as = (Some ctxt, as1)" using assms by (auto simp: ipc_log_context_create_def split: prod.splits option.splits)
  define md where "md = (fv AND FEATURE_MASK \<noteq> 0)"
  define g1 where "g1 = (if md then register_minidump env ''ipc_ctxt'' g else g)"
  obtain r as2 g2 where r: "make_pages env md name ctxt 0 (nat n) as1 g1 = (r, as2, g2)" by (metis prod_cases3)
  obtain pages where p: "r = Some pages" using assms a r by (cases r) (auto simp: ipc_log_context_create_def md_def g1_def Let_def)
  note mp = make_pages_ok [OF r [unfolded p]]
  have g1: "ctx_store g1 = ctx_store g" "ipc_log_context_list g1 = ipc_log_context_list g" by (simp_all add: g1_def register_minidump_def)
  obtain b as3 where b: "take_alloc as2 = (b, as3)" by (cases "take_alloc as2")
  obtain l where l: "create_ctx_debugfs env (b \<noteq> None) (new_context (env_page_size env) ctxt pages name fv n) =
      (new_context (env_page_size env) ctxt pages name fv n)\<lparr>dfunc_info_list := l\<rparr>" using create_ctx_debugfs_fields by blast
  have e: "a = ctxt" "g' = g2\<lparr>ctx_store := (ctx_store g2)(ctxt := Some ((new_context (env_page_size env) ctxt pages name fv n)\<lparr>dfunc_info_list := l\<rparr>)),
      ipc_log_context_list := (if md \<and> minidump_buf_cnt g2 < env_md_max env then ctxt # ipc_log_context_list g2 else ipc_log_context_list g2 @ [ctxt])\<rparr>"
    using assms a r p b l [unfolded not_None_eq]
    by (auto simp: ipc_log_context_create_def md_def [symmetric] g1_def [symmetric] Let_def)
  show ?thesis by (rule that [of pages l]) (use mp g1 e in auto)
qed

text \<open>A small log and a small message for the examples.\<close>

definition demo_log :: ipc_log_context where
  "demo_log = (new_context 4096 64 [new_page 4096 64 128 0] ''demo'' 0 1)\<lparr>dfunc_info_list := [(2, dfunc_string (replicate 10 0))]\<rparr>"

definition demo_enc :: encode_context where
  "demo_enc = \<lparr>ec_hdr = \<lparr>th_type = 7, th_size = 1\<rparr>, ec_buff = [7, 1, 42] @ replicate 252 0, ec_offset = 3\<rparr>"

definition demo_ipc_env :: ipc_env where
  "demo_ipc_env = \<lparr>env_page_size = 4096, env_md_enabled = False, env_md_max = 0, env_md_add = (\<lambda>_ _. False), env_junk = replicate 10 0\<rparr>"

definition no_contexts :: ipc_globals where
  "no_contexts = \<lparr>ipc_log_context_list = [], ctx_store = (\<lambda>_. None), minidump_buf_cnt = 0\<rparr>"

lemma demo_log_ok: "ipc_log_ok 4096 demo_log [] 0"
  unfolding demo_log_def by (rule new_context_ok) (simp_all add: new_page_def LOG_PAGE_DATA_SIZE_def)

lemma demo_enc_ok: "enc_ok demo_enc" "enc_msg demo_enc = [7, 1, 42]"
proof -
  show e: "enc_msg demo_enc = [7, 1, 42]" by (simp add: enc_msg_def demo_enc_def numeral_3_eq_3)
  show "enc_ok demo_enc" by (simp add: enc_ok_def e msg_ok_def) (simp add: demo_enc_def)
qed

section \<open>Properties\<close>

text \<open>
  C4: a write to a log appends its message, drops the oldest messages until it fits and no more, and
  leaves the other messages as they were; debugfs still has the same messages to read, as far as they
  are still there; the loop that drops messages ends, and a waiting reader is woken.
\<close>

theorem ipc_log_write_refines:
  assumes "ipc_log_ok ps c ms k" "enc_ok e"
  shows "\<exists>c' d. ipc_log_write ps t (Some c) (Some e) = Some (Some c') \<and> ipc_log_ok ps c' (drop d ms @ [enc_msg e]) (k - d) \<and>
     d \<le> length ms \<and> length (concat (drop d ms)) + length (enc_msg e) < log_capacity ps c \<and>
     (0 < d \<longrightarrow> log_capacity ps c \<le> length (concat (drop (d - 1) ms)) + length (enc_msg e)) \<and> read_avail c' \<noteq> 0"
proof -
  define d where "d = evicted (log_capacity ps c) (length (enc_msg e)) ms"
  obtain c' where "ipc_log_write ps t (Some c) (Some e) = Some (Some c')" "ipc_log_ok ps c' (drop d ms @ [enc_msg e]) (k - d)" "read_avail c' \<noteq> 0"
    using ipc_log_write_appends [OF assms, of t] by (auto simp: d_def)
  moreover have "length (concat (drop d ms)) + length (enc_msg e) < log_capacity ps c"
    unfolding d_def by (rule evicted_fits) (use enc_facts [OF assms(2)] log_avail(4) [OF assms(1)] in simp)
  ultimately show ?thesis using evicted_le evicted_least unfolding d_def by blast
qed

theorem ipc_log_write_refines_witness:
  "\<exists>c'. ipc_log_write 4096 0 (Some demo_log) (Some demo_enc) = Some (Some c') \<and> ipc_log_ok 4096 c' [[7, 1, 42]] 0 \<and> read_avail c' \<noteq> 0"
  using ipc_log_write_refines [OF demo_log_ok demo_enc_ok(1), of 0] by (auto simp: demo_enc_ok(2))


text \<open>A log with one text message, extracted while another processor logs a second one.\<close>

lemma demo_deser_ok: "deser_ok (\<lambda>m. \<exists>t q s. length s \<le> 230 \<and> m = string_msg t q s) demo_log"
  using dfunc_string_prints [where junk = "replicate 10 0"]
  by (fastforce simp: deser_ok_def demo_log_def dc_step_def)


text \<open>
  C23: a text that is logged comes out of debugfs as one line with its two time stamps, cut to 230 bytes
  and ended by a newline.
\<close>

theorem ipc_log_string_extract:
  assumes ok: "ipc_log_ok ps c ms (length ms)" "\<not> destroyed c" and df: "get_deserialization_func c 2 = Some (dfunc_string junk)" "10 \<le> length junk"
    and e: "length (ec_buff e) = 255" and buff: "1020 \<le> length buff"
  shows "\<exists>c1 c2 out. ipc_log_string ps (Some c) e t q tw txt = Some (Inr (), Some c1) \<and>
     ipc_log_extract ps [] e c1 buff (int (length buff)) = Some (Inr (int (length (string_line t q (take 230 txt)))), c2, out) \<and>
     take (length (string_line t q (take 230 txt))) out = string_line t q (take 230 txt)"
proof -
  define s where "s = take 230 txt"
  define m where "m = string_msg t q s"
  define d where "d = \<lparr>dc_mem = buff, dc_buff = 0, dc_size = int (length buff)\<rparr>"
  obtain e1 where e1: "encode_string e t q txt = Some (Some e1)" "enc_ok e1" "enc_msg e1 = m" using encode_string_ok [OF e, of t q "txt"] unfolding m_def s_def by blast
  define v where "v = evicted (log_capacity ps c) (length m) ms"
  define k where "k = length (drop v ms)"
  obtain c1 where w: "ipc_log_write ps tw (Some c) (Some e1) = Some (Some c1)" and c1: "ipc_log_ok ps c1 (drop v ms @ [m]) k" "log_same c c1"
    using ipc_log_write_appends [OF ok(1) e1(2), of tw] evicted_le [of "log_capacity ps c" "length m" ms] by (auto simp: e1(3) v_def k_def)
  have k: "k < length (drop v ms @ [m])" "(drop v ms @ [m]) ! k = m" unfolding k_def by (simp, rule nth_append_length)
  obtain x e2 where r: "msg_read ps c1 (Some e) = Some (Inr (length m), move_nd ps x c1, Some e2)" "ipc_log_ok ps (move_nd ps x c1) (drop v ms @ [m]) (Suc k)"
    and e2: "e2 = e\<lparr>ec_hdr := bytes_tsv_header (take 2 m), ec_offset := 2, ec_buff := buf_put (ec_buff e) 2 (drop 2 m)\<rparr>"
    using msg_read_next [OF c1(1) k(1) e] unfolding k(2) by blast
  have sl: "length s \<le> 230" by (simp add: s_def)
  have "holds_msg e2 m" using buf_get_put_same [of 2 "drop 2 m" "ec_buff e"] string_msg_ok [OF sl, of t q] e sl by (simp add: holds_msg_def e2 m_def)
  then obtain e3 d3 where p: "dfunc_string junk e2 d = Some (e3, d3)" "dc_step d (string_line t q s) d3"
    using dfunc_string_prints [of e2 t q s d junk] sl df(2) buff by (auto simp: m_def d_def dc_ok_def)
  have ty: "uint (th_type (ec_hdr e2)) = 2" by (simp add: e2 m_def string_msg_def bytes_tsv_header_def)
  have g: "get_deserialization_func (move_nd ps x c1) 2 = Some (dfunc_string junk)"
    using df(1) c1(2) by (simp add: get_deserialization_func_def move_nd_def log_same_def)
  have l2: "extract_loop ps [] (move_nd ps x c1) e3 d3 = Some (move_nd ps x c1, d3)"
    using log_empty(2) [OF r(2)] by (subst extract_loop.simps) (simp add: k_def)
  have "extract_loop ps [] c1 e d = Some (move_nd ps x c1, d3)"
    using log_empty(2) [OF c1(1)] k(1) r(1) p(1) g ty l2 buff
    by (subst extract_loop.simps) (simp add: d_def MAX_MSG_DECODED_SIZE_def MAX_MSG_SIZE_def)
  moreover have "int (length buff) - dc_size d3 = int (length (string_line t q s))" "int (length buff) \<noteq> dc_size d3"
    "take (length (string_line t q s)) (dc_mem d3) = string_line t q s"
    using p(2) by (auto simp: dc_step_def d_def dc_out_def string_line_def time_text_def)
  moreover have "\<not> destroyed c1" using ok(2) c1(2) by (simp add: log_same_def)
  ultimately have "ipc_log_extract ps [] e c1 buff (int (length buff)) = Some (Inr (int (length (string_line t q s))), move_nd ps x c1, dc_mem d3)"
    using buff by (simp add: ipc_log_extract_def d_def [symmetric] Let_def MAX_MSG_DECODED_SIZE_def MAX_MSG_SIZE_def)
  moreover have "ipc_log_string ps (Some c) e t q tw txt = Some (Inr (), Some c1)" using e1(1) w by (simp add: ipc_log_string_def)
  ultimately show ?thesis using \<open>take (length (string_line t q s)) (dc_mem d3) = string_line t q s\<close> unfolding s_def [symmetric] by blast
qed

theorem ipc_log_string_extract_witness:
  "\<exists>c1 c2 out. ipc_log_string 4096 (Some demo_log) demo_enc 1500000000 255 0 [72, 105] = Some (Inr (), Some c1) \<and>
     ipc_log_extract 4096 [] demo_enc c1 (replicate 2000 0) (int (length (replicate 2000 (0 :: byte)))) =
       Some (Inr (int (length (string_line 1500000000 255 (take 230 [72, 105])))), c2, out)"
  using ipc_log_string_extract [of 4096 demo_log "[]" "replicate 10 0" demo_enc "replicate 2000 0" 1500000000 255 0 "[72, 105]"] demo_log_ok
  by (auto simp: demo_log_def new_context_def get_deserialization_func_def demo_enc_def)

text \<open>
  C32: a context that is created is well-formed: an empty log of the requested number of pages, under the
  first 31 characters of its name; with a name that fits, creating it again returns the same context.
\<close>

theorem ipc_context_create_ok:
  assumes "ipc_log_context_create env n name fv as g = (Some a, as', g')" "find_context g name = None"
    and "0 < n" "4096 \<le> env_page_size env" "env_page_size env \<le> 65536" "nat n * LOG_PAGE_DATA_SIZE (env_page_size env) < 2 ^ 32"
  shows "\<exists>c. ctx_store g' a = Some c \<and> ipc_log_ok (env_page_size env) c [] 0 \<and> length (page_list c) = nat n \<and> il_name c = take 31 name \<and>
     (length name < 32 \<longrightarrow> ipc_log_context_create env n' name fv' as' g' = (Some a, as', g'))"
proof -
  obtain pages l where p: "length pages = nat n" "\<forall>p \<in> set pages. pg_read_offset p = 0 \<and> pg_write_offset p = 0 \<and> pg_nd_read_offset p = 0 \<and>
     length (pg_data p) = LOG_PAGE_DATA_SIZE (env_page_size env)"
    and g: "ctx_store g' = (ctx_store g)(a := Some ((new_context (env_page_size env) a pages name fv n)\<lparr>dfunc_info_list := l\<rparr>))"
      "set (ipc_log_context_list g') = insert a (set (ipc_log_context_list g))"
    using context_create_new [OF assms(1,2)] by blast
  define c where "c = (new_context (env_page_size env) a pages name fv n)\<lparr>dfunc_info_list := l\<rparr>"
  have nm: "il_name c = take 31 name" "length (page_list c) = nat n" using p(1) by (simp_all add: c_def new_context_def IPC_LOG_MAX_CONTEXT_NAME_LEN_def)
  have "ipc_log_context_create env n' name fv' as' g' = (Some a, as', g')" if "length name < 32"
  proof -
    have "find_context g' name = Some a"
    proof (cases "find_context g' name")
      case None
      then show ?thesis using g nm that by (auto simp: find_context_def find_None_iff c_def [symmetric])
    next
      case (Some b)
      then have b: "b \<in> set (ipc_log_context_list g')" "case ctx_store g' b of Some c \<Rightarrow> il_name c = name | None \<Rightarrow> False"
        by (auto simp: find_context_def find_Some_iff)
      have "b = a"
      proof (rule ccontr)
        assume "b \<noteq> a"
        then show False using b g assms(2) by (auto simp: find_context_def find_None_iff split: option.splits)
      qed
      then show ?thesis using Some by simp
    qed
    then show ?thesis by (simp add: ipc_log_context_create_def)
  qed
  then show ?thesis using new_context_ok [OF p(1) assms(3) p(2) assms(4-6)] g nm by (auto simp: c_def)
qed

theorem ipc_context_create_ok_witness:
  "\<exists>c g'. ipc_log_context_create demo_ipc_env 1 ''demo'' 0 [Some 64, Some 128, Some 192] no_contexts = (Some 64, [], g') \<and>
     ctx_store g' 64 = Some c \<and> ipc_log_ok 4096 c [] 0"
proof -
  obtain g' where g: "ipc_log_context_create demo_ipc_env 1 ''demo'' 0 [Some 64, Some 128, Some 192] no_contexts = (Some 64, [], g')"
    by (simp add: ipc_log_context_create_def find_context_def no_contexts_def Let_def)
  have "find_context no_contexts ''demo'' = None" by (simp add: find_context_def no_contexts_def)
  from ipc_context_create_ok [OF g this, of 1 0] show ?thesis using g by (auto simp: demo_ipc_env_def LOG_PAGE_DATA_SIZE_def)
qed

text \<open>
  A name of 32 characters or more is stored without its end and compared in full, so its context is
  never found again: every further creation under that name makes another context.
\<close>

theorem ipc_long_name_not_found:
  assumes "\<forall>a c. ctx_store g a = Some c \<longrightarrow> length (il_name c) \<le> 31" "32 \<le> length name"
    and "ipc_log_context_create env n name fv as g = (Some a, as', g')"
  shows "a \<in> set (ipc_log_context_list g') \<and> find_context g' name = None"
proof -
  have none: "find_context h name = None" if "\<forall>a c. ctx_store h a = Some c \<longrightarrow> length (il_name c) \<le> 31" for h
  proof -
    have "il_name c \<noteq> name" if c: "ctx_store h b = Some c" for b c
    proof -
      have "length (il_name c) \<le> 31" using c \<open>\<forall>a c. ctx_store h a = Some c \<longrightarrow> length (il_name c) \<le> 31\<close> by blast
      then show ?thesis using assms(2) by (cases "il_name c = name") simp_all
    qed
    then have "\<not> (case ctx_store h b of Some c \<Rightarrow> il_name c = name | None \<Rightarrow> False)" for b by (cases "ctx_store h b") simp_all
    then show ?thesis unfolding find_context_def find_None_iff by blast
  qed
  obtain pages l where g: "ctx_store g' = (ctx_store g)(a := Some ((new_context (env_page_size env) a pages name fv n)\<lparr>dfunc_info_list := l\<rparr>))"
      "set (ipc_log_context_list g') = insert a (set (ipc_log_context_list g))"
    by (rule context_create_new [OF assms(3) none [OF assms(1)]])
  have "\<forall>a c. ctx_store g' a = Some c \<longrightarrow> length (il_name c) \<le> 31"
  proof (intro allI impI)
    fix b c assume "ctx_store g' b = Some c"
    then show "length (il_name c) \<le> 31"
      using assms(1) g(1) by (cases "b = a") (auto simp: new_context_def IPC_LOG_MAX_CONTEXT_NAME_LEN_def)
  qed
  then have "find_context g' name = None" by (rule none)
  then show ?thesis using g(2) by simp
qed

theorem ipc_long_name_not_found_witness:
  "\<exists>g'. ipc_log_context_create demo_ipc_env 1 (replicate 32 CHR ''x'') 0 [Some 64, Some 128, Some 192] no_contexts = (Some 64, [], g') \<and>
     64 \<in> set (ipc_log_context_list g') \<and> find_context g' (replicate 32 CHR ''x'') = None"
proof -
  obtain g' where g: "ipc_log_context_create demo_ipc_env 1 (replicate 32 CHR ''x'') 0 [Some 64, Some 128, Some 192] no_contexts = (Some 64, [], g')"
    by (simp add: ipc_log_context_create_def find_context_def no_contexts_def Let_def)
  from ipc_long_name_not_found [OF _ _ g] show ?thesis using g by (auto simp: no_contexts_def)
qed

end
