(* ===== verification/Qmi_Encdec.thy ===== *)
theory Qmi_Encdec
  imports Prelude "HOL-Library.Monad_Syntax"
begin

text \<open>
  The encoder and decoder of QMI messages (\<^verbatim>\<open>drivers/soc/qcom/qmi_encdec.c\<close>).  A message is described by
  an array of element descriptions that ends with \<open>QMI_EOTI\<close>; C structures and message buffers are
  lists of bytes, and a pointer into one of them is an index.  Reading past the end of a description,
  or an access outside of a buffer, makes a definition return \<open>None\<close>.  Numbers that are \<^verbatim>\<open>u32\<close> in C are
  reduced modulo \<open>2 ^ 32\<close> where C computes them.
\<close>

section \<open>Descriptions of messages\<close>

datatype qmi_elem_type =
    QMI_EOTI | QMI_OPT_FLAG | QMI_DATA_LEN
  | QMI_UNSIGNED_1_BYTE | QMI_UNSIGNED_2_BYTE | QMI_UNSIGNED_4_BYTE | QMI_UNSIGNED_8_BYTE
  | QMI_SIGNED_2_BYTE_ENUM | QMI_SIGNED_4_BYTE_ENUM | QMI_STRUCT | QMI_STRING

datatype qmi_array_type = NO_ARRAY | STATIC_ARRAY | VAR_LEN_ARRAY

text \<open>A null pointer to a nested description is \<open>None\<close>.\<close>

datatype qmi_elem_info =
  Elem (data_type: qmi_elem_type) (elem_len: nat) (elem_size: nat) (array_type: qmi_array_type)
    (tlv_type: byte) (offset: nat) (ei_array: "qmi_elem_info list option")

definition TLV_SIZE :: nat where "TLV_SIZE = 3"
definition OPTIONAL_TLV_TYPE_START :: nat where "OPTIONAL_TLV_TYPE_START = 0x10"

definition add32 :: "nat \<Rightarrow> nat \<Rightarrow> nat" where "add32 a b = (a + b) mod 2 ^ 32"
definition sub32 :: "nat \<Rightarrow> nat \<Rightarrow> nat" where "sub32 a b = (a + (2 ^ 32 - b mod 2 ^ 32)) mod 2 ^ 32"
definition mul32 :: "nat \<Rightarrow> nat \<Rightarrow> nat" where "mul32 a b = (a * b) mod 2 ^ 32"

text \<open>A length prefix takes one byte or two.\<close>

definition data_len_sz :: "qmi_elem_info \<Rightarrow> nat" where "data_len_sz e = (if elem_size e = 1 then 1 else 2)"
definition string_len_sz :: "qmi_elem_info \<Rightarrow> nat" where "string_len_sz e = (if elem_len e \<le> 255 then 1 else 2)"

fun skip_same :: "byte \<Rightarrow> qmi_elem_info list \<Rightarrow> qmi_elem_info list option" where
  "skip_same t [] = None"
| "skip_same t (e # es) = (if tlv_type e = t then skip_same t es else Some (e # es))"

fun skip_to_next_elem :: "qmi_elem_info list \<Rightarrow> nat \<Rightarrow> qmi_elem_info list option" where
  "skip_to_next_elem [] level = None"
| "skip_to_next_elem (e # es) level = (if level > 1 then Some es else skip_same (tlv_type e) es)"

lemma skip_same_length: "skip_same t es = Some es' \<Longrightarrow> size_list size es' \<le> size_list size es \<and> length es' \<le> length es"
  by (induction es) (auto split: if_splits)

lemma skip_length: "skip_to_next_elem es level = Some es' \<Longrightarrow> size_list size es' < size_list size es \<and> length es' < length es"
  by (cases es) (auto split: if_splits dest!: skip_same_length)

lemma sub_size: "(case ei_array e of None \<Rightarrow> 0 | Some x \<Rightarrow> size_list size x) < size e"
  by (cases e) (auto split: option.splits)

lemma sub_size2: "Suc (2 * (case ei_array e of None \<Rightarrow> 0 | Some x \<Rightarrow> size_list size x)) < 2 * size e"
  using sub_size [of e] by linarith

section \<open>The minimum length\<close>

text \<open>The sum, before it is reduced to the width of an \<^verbatim>\<open>int\<close>.\<close>

function min_len :: "qmi_elem_info list \<Rightarrow> nat \<Rightarrow> nat option" where
  "min_len [] level = None"
| "min_len (e # es) level =
     (if data_type e = QMI_EOTI then Some 0
      else if data_type e = QMI_OPT_FLAG then do { es' \<leftarrow> skip_to_next_elem (e # es) level; min_len es' level }
      else if data_type e = QMI_DATA_LEN then map_option (\<lambda>n. data_len_sz e + n) (min_len es level)
      else do {
        n \<leftarrow> (case data_type e of
            QMI_STRUCT \<Rightarrow> (case ei_array e of None \<Rightarrow> Some 0 | Some sub \<Rightarrow> min_len sub (level + 1))
          | QMI_STRING \<Rightarrow> Some ((if level > 1 then string_len_sz e else 0) + elem_len e * elem_size e)
          | _ \<Rightarrow> Some (elem_len e * elem_size e));
        rest \<leftarrow> min_len es level;
        Some (n + (if level = 1 then TLV_SIZE else 0) + rest)
      })"
  by pat_completeness auto
termination
proof (relation "measure (\<lambda>(es, level). size_list size es)")
  fix e es level es' assume "skip_to_next_elem (e # es) level = Some es'"
  then show "((es', level), e # es, level) \<in> measure (\<lambda>(es, level). size_list size es)" using skip_length by fastforce
next
  fix e :: qmi_elem_info and es level sub assume "ei_array e = Some sub"
  then show "((sub, level + 1), e # es, level) \<in> measure (\<lambda>(es, level). size_list size es)" by (cases e) simp
qed auto

definition qmi_calc_min_msg_len :: "qmi_elem_info list option \<Rightarrow> nat \<Rightarrow> nat option" where
  "qmi_calc_min_msg_len eio level = (case eio of None \<Rightarrow> Some 0 | Some ei \<Rightarrow> map_option (\<lambda>n. n mod 2 ^ 32) (min_len ei level))"

section \<open>Encoding\<close>

text \<open>
  \<open>out\<close> is the memory of the message and \<open>dst\<close> the place to write to; \<open>inb\<close> is the memory of the C
  structure and \<open>src\<close> the place to read from.  The result is the C return value and the message.
\<close>

fun qmi_encode_basic_elem :: "byte list \<Rightarrow> nat \<Rightarrow> byte list \<Rightarrow> nat \<Rightarrow> nat \<Rightarrow> nat \<Rightarrow> (nat \<times> byte list) option" where
  "qmi_encode_basic_elem out dst inb src 0 sz = Some (0, out)"
| "qmi_encode_basic_elem out dst inb src (Suc n) sz = do {
     d \<leftarrow> mem_get inb src sz;
     out1 \<leftarrow> mem_put out dst d;
     (rc, out2) \<leftarrow> qmi_encode_basic_elem out1 (dst + sz) inb (src + sz) n sz;
     Some (add32 sz rc, out2)
   }"

definition c_strlen :: "byte list \<Rightarrow> nat \<Rightarrow> nat option" where
  "c_strlen xs i = (let t = takeWhile (\<lambda>b. b \<noteq> 0) (drop i xs) in if i + length t < length xs then Some (length t) else None)"

definition qmi_encode_string_elem :: "qmi_elem_info \<Rightarrow> byte list \<Rightarrow> nat \<Rightarrow> byte list \<Rightarrow> nat \<Rightarrow> nat \<Rightarrow> nat \<Rightarrow> ((errno + nat) \<times> byte list) option" where
  "qmi_encode_string_elem e out dst inb src out_buf_len enc_level = do {
     string_len \<leftarrow> c_strlen inb src;
     if string_len > elem_len e then Some (Inl EINVAL, out)
     else if enc_level = 1 then
       if string_len + TLV_SIZE > out_buf_len then Some (Inl ETOOSMALL, out)
       else do { (rc, out1) \<leftarrow> qmi_encode_basic_elem out dst inb src string_len (elem_size e); Some (Inr rc, out1) }
     else if add32 string_len (string_len_sz e) > out_buf_len then Some (Inl ETOOSMALL, out)
     else do {
       (n, out1) \<leftarrow> qmi_encode_basic_elem out dst (nat_to_le 4 string_len) 0 1 (string_len_sz e);
       (rc, out2) \<leftarrow> qmi_encode_basic_elem out1 (dst + n) inb src string_len (elem_size e);
       Some (Inr (add32 n rc), out2)
     }
   }"

text \<open>The number of elements to encode, or an invalid length.\<close>

definition data_len :: "qmi_elem_info \<Rightarrow> nat \<Rightarrow> nat option" where
  "data_len e dlv = (case array_type e of
     NO_ARRAY \<Rightarrow> Some 1
   | STATIC_ARRAY \<Rightarrow> Some (elem_len e)
   | VAR_LEN_ARRAY \<Rightarrow> if dlv = 0 \<or> elem_len e < dlv then None else Some dlv)"

text \<open>
  The variables of the encoding loop: the message, where the next element goes, where the header of the
  current TLV goes, the length of its value so far, and the number of bytes encoded.
\<close>

record enc_vars =
  ev_out :: "byte list"
  ev_dst :: nat
  ev_tlv :: nat
  ev_tlv_len :: nat
  ev_encoded :: nat

text \<open>\<^verbatim>\<open>UPDATE_ENCODE_VARIABLES\<close>, and the header that completes a TLV at the top level.\<close>

definition enc_update :: "nat \<Rightarrow> byte list \<Rightarrow> enc_vars \<Rightarrow> enc_vars" where
  "enc_update rc out v = v\<lparr>ev_out := out, ev_dst := ev_dst v + rc, ev_encoded := add32 (ev_encoded v) rc, ev_tlv_len := add32 (ev_tlv_len v) rc\<rparr>"

definition tlv_header :: "byte \<Rightarrow> nat \<Rightarrow> byte list" where
  "tlv_header t n = [t, of_nat n, of_nat (n div 256)]"

definition enc_close :: "nat \<Rightarrow> byte \<Rightarrow> enc_vars \<Rightarrow> enc_vars option" where
  "enc_close level t v =
     (if level = 1 then do {
        out \<leftarrow> mem_put (ev_out v) (ev_tlv v) (tlv_header t (ev_tlv_len v));
        Some (v\<lparr>ev_out := out, ev_encoded := add32 (ev_encoded v) TLV_SIZE, ev_tlv := ev_dst v, ev_tlv_len := 0, ev_dst := ev_dst v + TLV_SIZE\<rparr>)
      }
      else Some v)"

function qmi_encode :: "qmi_elem_info list option \<Rightarrow> byte list \<Rightarrow> nat \<Rightarrow> byte list \<Rightarrow> nat \<Rightarrow> nat \<Rightarrow> nat \<Rightarrow> ((errno + nat) \<times> byte list) option"
  and encode_loop :: "qmi_elem_info list \<Rightarrow> enc_vars \<Rightarrow> nat \<Rightarrow> byte list \<Rightarrow> nat \<Rightarrow> nat \<Rightarrow> nat \<Rightarrow> ((errno + nat) \<times> byte list) option"
  and qmi_encode_struct_elem :: "qmi_elem_info \<Rightarrow> byte list \<Rightarrow> nat \<Rightarrow> byte list \<Rightarrow> nat \<Rightarrow> nat \<Rightarrow> nat \<Rightarrow> nat \<Rightarrow> nat \<Rightarrow> ((errno + nat) \<times> byte list) option" where
  "qmi_encode None out dst inb base out_buf_len level = Some (Inr 0, out)"
| "qmi_encode (Some ei) out dst inb base out_buf_len level =
     encode_loop ei \<lparr>ev_out = out, ev_dst = dst + (if level = 1 then TLV_SIZE else 0), ev_tlv = dst, ev_tlv_len = 0, ev_encoded = 0\<rparr>
       0 inb base out_buf_len level"
| "encode_loop [] v dlv inb base out_buf_len level = None"
| "encode_loop (e # es) v dlv inb base out_buf_len level =
     (if data_type e = QMI_EOTI then Some (Inr (ev_encoded v), ev_out v)
      else case data_len e dlv of None \<Rightarrow> Some (Inl EINVAL, ev_out v)
      | Some dl \<Rightarrow>
          let src = base + offset e in
          (case data_type e of
            QMI_EOTI \<Rightarrow> Some (Inr (ev_encoded v), ev_out v)
          | QMI_OPT_FLAG \<Rightarrow> do {
              flag \<leftarrow> mem_get inb src 1;
              es' \<leftarrow> (if hd flag \<noteq> 0 then Some es else skip_to_next_elem (e # es) level);
              encode_loop es' v dl inb base out_buf_len level
            }
          | QMI_DATA_LEN \<Rightarrow> do {
              b \<leftarrow> mem_get inb src (elem_size e);
              w \<leftarrow> mem_put (nat_to_le 4 dl) 0 b;
              if add32 (data_len_sz e) (ev_encoded v) + TLV_SIZE > out_buf_len then Some (Inl ETOOSMALL, ev_out v)
              else do {
                (rc, out) \<leftarrow> qmi_encode_basic_elem (ev_out v) (ev_dst v) w 0 1 (data_len_sz e);
                if le_to_nat w = 0 then do {
                  es' \<leftarrow> skip_to_next_elem es level;
                  v1 \<leftarrow> enc_close level (tlv_type e) (enc_update rc out v);
                  encode_loop es' v1 (le_to_nat w) inb base out_buf_len level
                }
                else encode_loop es (enc_update rc out v) (le_to_nat w) inb base out_buf_len level
              }
            }
          | QMI_STRUCT \<Rightarrow> do {
              (r, out) \<leftarrow> qmi_encode_struct_elem e (ev_out v) (ev_dst v) inb src dl (sub32 out_buf_len (ev_encoded v)) (level + 1) 0;
              case r of Inl x \<Rightarrow> Some (Inl x, out)
              | Inr rc \<Rightarrow> do { v1 \<leftarrow> enc_close level (tlv_type e) (enc_update rc out v); encode_loop es v1 dl inb base out_buf_len level }
            }
          | QMI_STRING \<Rightarrow> do {
              (r, out) \<leftarrow> qmi_encode_string_elem e (ev_out v) (ev_dst v) inb src (sub32 out_buf_len (ev_encoded v)) level;
              case r of Inl x \<Rightarrow> Some (Inl x, out)
              | Inr rc \<Rightarrow> do { v1 \<leftarrow> enc_close level (tlv_type e) (enc_update rc out v); encode_loop es v1 dl inb base out_buf_len level }
            }
          | _ \<Rightarrow>
              if add32 (mul32 dl (elem_size e)) (ev_encoded v) + TLV_SIZE > out_buf_len then Some (Inl ETOOSMALL, ev_out v)
              else do {
                (rc, out) \<leftarrow> qmi_encode_basic_elem (ev_out v) (ev_dst v) inb src dl (elem_size e);
                v1 \<leftarrow> enc_close level (tlv_type e) (enc_update rc out v);
                encode_loop es v1 dl inb base out_buf_len level
              }))"
| "qmi_encode_struct_elem e out dst inb src 0 out_buf_len level encoded_bytes = Some (Inr encoded_bytes, out)"
| "qmi_encode_struct_elem e out dst inb src (Suc n) out_buf_len level encoded_bytes = do {
     (r, out1) \<leftarrow> qmi_encode (ei_array e) out dst inb src (sub32 out_buf_len encoded_bytes) level;
     case r of Inl x \<Rightarrow> Some (Inl x, out1)
     | Inr rc \<Rightarrow> qmi_encode_struct_elem e out1 (dst + rc) inb (src + elem_size e) n out_buf_len level (add32 encoded_bytes rc)
   }"
  by pat_completeness auto
termination
proof (relation "measures [
    case_sum (\<lambda>(eio, _). case eio of None \<Rightarrow> 0 | Some ei \<Rightarrow> size_list size ei) (case_sum (\<lambda>(es, _). size_list size es) (\<lambda>(e, _). size e)),
    case_sum (\<lambda>_. 1) (case_sum (\<lambda>_. 0) (\<lambda>(e, out, dst, inb, src, n, _). n))]", goal_cases)
  case (3 e es)
  then show ?case by (auto dest!: skip_same_length split: if_splits)
next
  case (4 e es)
  then show ?case by (auto dest!: skip_length)
qed (auto simp: sub_size)

section \<open>Decoding\<close>

text \<open>Now \<open>inb\<close> is the message and \<open>out\<close> the memory of the C structure.\<close>

fun decode_copy :: "byte list \<Rightarrow> nat \<Rightarrow> byte list \<Rightarrow> nat \<Rightarrow> nat \<Rightarrow> nat \<Rightarrow> (nat \<times> byte list) option" where
  "decode_copy out dst inb src 0 sz = Some (0, out)"
| "decode_copy out dst inb src (Suc n) sz = do {
     d \<leftarrow> mem_get inb src sz;
     out1 \<leftarrow> mem_put out dst d;
     (rc, out2) \<leftarrow> decode_copy out1 (dst + sz) inb (src + sz) n sz;
     Some (add32 sz rc, out2)
   }"

definition qmi_decode_basic_elem :: "byte list \<Rightarrow> nat \<Rightarrow> byte list \<Rightarrow> nat \<Rightarrow> nat \<Rightarrow> nat \<Rightarrow> nat \<Rightarrow> ((errno + nat) \<times> byte list) option" where
  "qmi_decode_basic_elem out dst inb src n sz src_len =
     (if mul32 n sz > src_len then Some (Inl EINVAL, out)
      else do { (rc, out1) \<leftarrow> decode_copy out dst inb src n sz; Some (Inr rc, out1) })"

text \<open>A length that is decoded into a \<^verbatim>\<open>u32\<close>, whose higher bytes keep their old value.\<close>

definition decode_length :: "nat \<Rightarrow> byte list \<Rightarrow> nat \<Rightarrow> nat \<Rightarrow> nat \<Rightarrow> (errno + nat \<times> nat) option" where
  "decode_length old inb src sz src_len = do {
     (r, w) \<leftarrow> qmi_decode_basic_elem (nat_to_le 4 old) 0 inb src 1 sz src_len;
     Some (case r of Inl x \<Rightarrow> Inl x | Inr rc \<Rightarrow> Inr (rc, le_to_nat w))
   }"

definition qmi_decode_string_elem :: "qmi_elem_info \<Rightarrow> byte list \<Rightarrow> nat \<Rightarrow> byte list \<Rightarrow> nat \<Rightarrow> nat \<Rightarrow> nat \<Rightarrow> nat \<Rightarrow> ((errno + nat) \<times> byte list) option" where
  "qmi_decode_string_elem e out dst inb src tlv_len dec_level src_len = do {
     r \<leftarrow> (if dec_level = 1 then Some (Inr (0, tlv_len)) else decode_length 0 inb src (string_len_sz e) src_len);
     case r of Inl x \<Rightarrow> Some (Inl x, out)
     | Inr (decoded_bytes, string_len) \<Rightarrow>
         if string_len \<ge> elem_len e then Some (Inl ETOOSMALL, out)
         else if string_len > tlv_len then Some (Inl EFAULT, out)
         else do {
           (r2, out1) \<leftarrow> qmi_decode_basic_elem out dst inb (src + decoded_bytes) string_len (elem_size e) (sub32 src_len decoded_bytes);
           case r2 of Inl x \<Rightarrow> Some (Inl x, out1)
           | Inr rc \<Rightarrow> do { out2 \<leftarrow> mem_put out1 (dst + string_len) [0]; Some (Inr (add32 decoded_bytes rc), out2) }
         }
   }"

fun find_ei :: "qmi_elem_info list \<Rightarrow> byte \<Rightarrow> qmi_elem_info list option option" where
  "find_ei [] t = None"
| "find_ei (e # es) t =
     (if data_type e = QMI_EOTI then Some None else if tlv_type e = t then Some (Some (e # es)) else find_ei es t)"

text \<open>
  The variables of the decoding loop: the C structure, where the rest of the message starts, the number of
  bytes decoded, and the last array length.
\<close>

record dec_vars =
  dv_out :: "byte list"
  dv_src :: nat
  dv_decoded :: nat
  dv_data_len :: nat

definition dec_update :: "nat \<Rightarrow> dec_vars \<Rightarrow> dec_vars" where
  "dec_update rc v = v\<lparr>dv_src := dv_src v + rc, dv_decoded := add32 (dv_decoded v) rc\<rparr>"

text \<open>The flag of an optional element: set it and go on to the next description.\<close>

definition decode_flag :: "qmi_elem_info list \<Rightarrow> nat \<Rightarrow> dec_vars \<Rightarrow> (qmi_elem_info list \<times> dec_vars) option" where
  "decode_flag tei base v = (case tei of [] \<Rightarrow> None
   | e # es \<Rightarrow> if data_type e = QMI_OPT_FLAG
       then do { out \<leftarrow> mem_put (dv_out v) (base + offset e) [1]; Some (es, v\<lparr>dv_out := out\<rparr>) }
       else Some (tei, v))"

text \<open>The length of an array: decode it, store it as a \<^verbatim>\<open>u32\<close> and go on; the remaining length of the TLV shrinks.\<close>

definition decode_data_len :: "qmi_elem_info list \<Rightarrow> nat \<Rightarrow> byte list \<Rightarrow> nat \<Rightarrow> nat \<Rightarrow> dec_vars \<Rightarrow> (errno + qmi_elem_info list \<times> nat \<times> dec_vars) option" where
  "decode_data_len tei base inb in_buf_len tlv_len v = (case tei of [] \<Rightarrow> None
   | e # es \<Rightarrow> if data_type e = QMI_DATA_LEN
       then do {
         r \<leftarrow> decode_length (dv_data_len v) inb (dv_src v) (data_len_sz e) (sub32 in_buf_len (dv_decoded v));
         case r of Inl x \<Rightarrow> Some (Inl x)
         | Inr (rc, dl) \<Rightarrow> do {
             out \<leftarrow> mem_put (dv_out v) (base + offset e) (nat_to_le 4 dl);
             Some (Inr (es, sub32 tlv_len (data_len_sz e), dec_update rc (v\<lparr>dv_out := out, dv_data_len := dl\<rparr>)))
           }
       }
       else Some (Inr (tei, tlv_len, v)))"

definition dec_data_len :: "qmi_elem_info \<Rightarrow> nat \<Rightarrow> nat option" where
  "dec_data_len e dlv = (case array_type e of
     NO_ARRAY \<Rightarrow> Some 1
   | STATIC_ARRAY \<Rightarrow> Some (elem_len e)
   | VAR_LEN_ARRAY \<Rightarrow> if dlv > elem_len e then None else Some dlv)"

text \<open>The head of an iteration at the top level: the next TLV and the description of its type.\<close>

definition decode_tlv :: "qmi_elem_info list \<Rightarrow> byte list \<Rightarrow> nat \<Rightarrow> dec_vars \<Rightarrow> (errno + qmi_elem_info list option \<times> nat \<times> dec_vars) option" where
  "decode_tlv ei inb in_buf_len v =
     (if dv_decoded v + TLV_SIZE > in_buf_len then Some (Inl EINVAL)
      else do {
        h \<leftarrow> mem_get inb (dv_src v) 3;
        let tlv_len = unat (h ! 1) + 256 * unat (h ! 2);
        f \<leftarrow> find_ei ei (h ! 0);
        if Option.is_none f \<and> unat (h ! 0) < OPTIONAL_TLV_TYPE_START then Some (Inl EINVAL)
        else Some (Inr (f, tlv_len, dec_update TLV_SIZE v))
      })"

lemma find_ei_size: "find_ei es t = Some (Some es') \<Longrightarrow> size_list size es' \<le> size_list size es \<and> length es' \<le> length es"
  by (induction es) (auto split: if_splits)

lemma decode_flag_size:
  "decode_flag tei base v = Some (tei1, v1) \<Longrightarrow> size_list size tei1 \<le> size_list size tei \<and> length tei1 \<le> length tei \<and> dv_src v1 = dv_src v"
  by (auto simp: decode_flag_def split: list.splits if_splits bind_splits)

lemma decode_data_len_size:
  "decode_data_len tei base inb len tln v = Some (Inr (tei1, tl1, v1)) \<Longrightarrow>
   size_list size tei1 \<le> size_list size tei \<and> length tei1 \<le> length tei \<and> dv_src v \<le> dv_src v1"
  by (auto simp: decode_data_len_def dec_update_def split: list.splits if_splits bind_splits sum.splits)

lemma decode_tlv_size:
  "decode_tlv ei inb len v = Some (Inr (f, tln, v1)) \<Longrightarrow> dv_src v + 3 \<le> length inb \<and> dv_src v1 = dv_src v + 3 \<and>
   (\<forall>tei. f = Some tei \<longrightarrow> size_list size tei \<le> size_list size ei)"
  by (auto simp: decode_tlv_def dec_update_def TLV_SIZE_def Let_def mem_get_eq_Some split: if_splits bind_splits dest: find_ei_size)

function qmi_decode :: "qmi_elem_info list option \<Rightarrow> byte list \<Rightarrow> nat \<Rightarrow> byte list \<Rightarrow> nat \<Rightarrow> nat \<Rightarrow> nat \<Rightarrow> ((errno + nat) \<times> byte list) option"
  and decode_loop :: "qmi_elem_info list \<Rightarrow> qmi_elem_info list \<Rightarrow> dec_vars \<Rightarrow> nat \<Rightarrow> byte list \<Rightarrow> nat \<Rightarrow> nat \<Rightarrow> ((errno + nat) \<times> byte list) option"
  and decode_elem :: "qmi_elem_info list \<Rightarrow> qmi_elem_info list \<Rightarrow> nat \<Rightarrow> dec_vars \<Rightarrow> nat \<Rightarrow> byte list \<Rightarrow> nat \<Rightarrow> nat \<Rightarrow> ((errno + nat) \<times> byte list) option"
  and qmi_decode_struct_elem :: "qmi_elem_info \<Rightarrow> byte list \<Rightarrow> nat \<Rightarrow> byte list \<Rightarrow> nat \<Rightarrow> nat \<Rightarrow> nat \<Rightarrow> nat \<Rightarrow> nat \<Rightarrow> ((errno + nat) \<times> byte list) option"
  and decode_structs :: "qmi_elem_info \<Rightarrow> byte list \<Rightarrow> nat \<Rightarrow> byte list \<Rightarrow> nat \<Rightarrow> nat \<Rightarrow> nat \<Rightarrow> nat \<Rightarrow> nat \<Rightarrow> ((errno + nat) \<times> byte list) option" where
  "qmi_decode None out base inb src in_buf_len level = None"
| "qmi_decode (Some ei) out base inb src in_buf_len level =
     decode_loop ei ei \<lparr>dv_out = out, dv_src = src, dv_decoded = 0, dv_data_len = 0\<rparr> base inb in_buf_len level"
| "decode_loop ei tei v base inb in_buf_len level =
     (if \<not> dv_decoded v < in_buf_len then Some (Inr (dv_decoded v), dv_out v)
      else if level = 1 then do {
        r \<leftarrow> decode_tlv ei inb in_buf_len v;
        case r of Inl x \<Rightarrow> Some (Inl x, dv_out v)
        | Inr (None, tlv_len, v1) \<Rightarrow> decode_loop ei [] (dec_update tlv_len v1) base inb in_buf_len level
        | Inr (Some tei1, tlv_len, v1) \<Rightarrow> decode_elem ei tei1 tlv_len v1 base inb in_buf_len level
      }
      else case tei of [] \<Rightarrow> None
      | e # _ \<Rightarrow>
          if data_type e = QMI_EOTI then Some (Inr (dv_decoded v), dv_out v)
          else decode_elem ei tei (sub32 in_buf_len (dv_decoded v)) v base inb in_buf_len level)"
| "decode_elem ei tei tlv_len v base inb in_buf_len level = do {
     (tei1, v1) \<leftarrow> decode_flag tei base v;
     r \<leftarrow> decode_data_len tei1 base inb in_buf_len tlv_len v1;
     case r of Inl x \<Rightarrow> Some (Inl x, dv_out v1)
     | Inr ([], _, v2) \<Rightarrow> None
     | Inr (e # es, tlv_len2, v2) \<Rightarrow>
         (case dec_data_len e (dv_data_len v2) of None \<Rightarrow> Some (Inl ETOOSMALL, dv_out v2)
          | Some dl \<Rightarrow>
              let dst = base + offset e; left = sub32 in_buf_len (dv_decoded v2) in
              do {
                (res, out) \<leftarrow> (case data_type e of
                    QMI_EOTI \<Rightarrow> Some (Inl EINVAL, dv_out v2)
                  | QMI_OPT_FLAG \<Rightarrow> Some (Inl EINVAL, dv_out v2)
                  | QMI_DATA_LEN \<Rightarrow> Some (Inl EINVAL, dv_out v2)
                  | QMI_STRUCT \<Rightarrow> qmi_decode_struct_elem e (dv_out v2) dst inb (dv_src v2) dl tlv_len2 (level + 1) left
                  | QMI_STRING \<Rightarrow> qmi_decode_string_elem e (dv_out v2) dst inb (dv_src v2) tlv_len2 level left
                  | _ \<Rightarrow> qmi_decode_basic_elem (dv_out v2) dst inb (dv_src v2) dl (elem_size e) left);
                case res of Inl x \<Rightarrow> Some (Inl x, out)
                | Inr rc \<Rightarrow> decode_loop ei es (dec_update rc (v2\<lparr>dv_out := out, dv_data_len := dl\<rparr>)) base inb in_buf_len level
              })
   }"
| "qmi_decode_struct_elem e out dst inb src n tlv_len level src_len =
     (if tlv_len > src_len then Some (Inl EINVAL, out) else decode_structs e out dst inb src n tlv_len level 0)"
| "decode_structs e out dst inb src n tlv_len level decoded_bytes =
     (if n = 0 \<or> \<not> decoded_bytes < tlv_len then
        if (level \<le> 2 \<and> decoded_bytes \<noteq> tlv_len) \<or> (level > 2 \<and> (0 < n \<or> decoded_bytes > tlv_len)) then Some (Inl EFAULT, out)
        else Some (Inr decoded_bytes, out)
      else do {
        (r, out1) \<leftarrow> qmi_decode (ei_array e) out dst inb src (sub32 tlv_len decoded_bytes) level;
        case r of Inl x \<Rightarrow> Some (Inl x, out1)
        | Inr rc \<Rightarrow> decode_structs e out1 (dst + elem_size e) inb (src + rc) (n - 1) tlv_len level (add32 decoded_bytes rc)
      })"
  by pat_completeness auto
termination
proof (relation "measures [
    case_sum (case_sum (\<lambda>(eio, _). 2 * (case eio of None \<Rightarrow> 0 | Some ei \<Rightarrow> size_list size ei) + 1)
        (\<lambda>(ei, tei, _). 2 * max (size_list size ei) (size_list size tei)))
      (case_sum (\<lambda>(ei, tei, _). 2 * max (size_list size ei) (size_list size tei)) (case_sum (\<lambda>(e, _). 2 * size e) (\<lambda>(e, _). 2 * size e))),
    case_sum (case_sum (\<lambda>_. 0)
        (\<lambda>(ei, tei, v, base, inb, len, level). if level = 1 then 2 * (length inb - dv_src v) else 2 * length tei + 1))
      (case_sum (\<lambda>(ei, tei, tln, v, base, inb, len, level). if level = 1 then 2 * (length inb - dv_src v) + 1 else 2 * length tei)
        (case_sum (\<lambda>(e, out, dst, inb, src, n, _). n + 1) (\<lambda>(e, out, dst, inb, src, n, _). n)))]", goal_cases)
qed (auto simp: sub_size2 dec_update_def max_def dest!: decode_flag_size decode_data_len_size decode_tlv_size split: if_splits)

declare decode_loop.simps [simp del] decode_elem.simps [simp del] decode_structs.simps [simp del]

section \<open>Messages\<close>

definition qmi_header :: "nat \<Rightarrow> nat \<Rightarrow> nat \<Rightarrow> nat \<Rightarrow> byte list" where
  "qmi_header type txn_id msg_id msg_len = nat_to_le 1 type @ nat_to_le 2 txn_id @ nat_to_le 2 msg_id @ nat_to_le 2 msg_len"

definition QMI_HEADER_SIZE :: nat where "QMI_HEADER_SIZE = 7"

text \<open>The result is the message buffer and the length stored in \<^verbatim>\<open>*len\<close>.  A C structure starts at index 0.\<close>

definition qmi_encode_message :: "bool \<Rightarrow> nat \<Rightarrow> nat \<Rightarrow> nat \<Rightarrow> nat \<Rightarrow> qmi_elem_info list option \<Rightarrow> byte list option \<Rightarrow> (errno + byte list \<times> nat) option" where
  "qmi_encode_message alloc_ok type msg_id len txn_id ei c_struct = do {
     m \<leftarrow> (if c_struct = None then qmi_calc_min_msg_len ei 1 else Some 0);
     if m \<noteq> 0 then Some (Inl EINVAL)
     else if \<not> alloc_ok then Some (Inl ENOMEM)
     else do {
       let msg = replicate (QMI_HEADER_SIZE + len) 0;
       (r, out) \<leftarrow> (case c_struct of None \<Rightarrow> Some (Inr 0, msg)
         | Some s \<Rightarrow> qmi_encode ei msg QMI_HEADER_SIZE s 0 (len mod 2 ^ 32) 1);
       case r of Inl x \<Rightarrow> Some (Inl x)
       | Inr msglen \<Rightarrow> do {
           out1 \<leftarrow> mem_put out 0 (qmi_header type txn_id msg_id msglen);
           Some (Inr (out1, QMI_HEADER_SIZE + msglen))
         }
     }
   }"

text \<open>The length that is passed on is a \<^verbatim>\<open>size_t\<close> difference, cut to 32 bits.\<close>

definition qmi_decode_message :: "byte list option \<Rightarrow> nat \<Rightarrow> qmi_elem_info list option \<Rightarrow> byte list option \<Rightarrow> ((errno + nat) \<times> byte list option) option" where
  "qmi_decode_message buf len ei c_struct = (case (ei, c_struct, buf) of
     (Some d, Some s, Some b) \<Rightarrow>
       if len = 0 then Some (Inl EINVAL, c_struct)
       else do { (r, s1) \<leftarrow> qmi_decode (Some d) s 0 b QMI_HEADER_SIZE (sub32 len QMI_HEADER_SIZE) 1; Some (r, Some s1) }
   | _ \<Rightarrow> Some (Inl EINVAL, c_struct))"

text \<open>The common header of all responses: two 16-bit numbers.\<close>

definition qmi_response_type_v01_ei :: "qmi_elem_info list" where
  "qmi_response_type_v01_ei =
     [Elem QMI_SIGNED_2_BYTE_ENUM 1 2 NO_ARRAY 0 0 None,
      Elem QMI_SIGNED_2_BYTE_ENUM 1 2 NO_ARRAY 0 2 None,
      Elem QMI_EOTI 0 0 NO_ARRAY 0 0 None]"

section \<open>Copies\<close>

lemma add32_small: "a + b < 2 ^ 32 \<Longrightarrow> add32 a b = a + b" by (simp add: add32_def)

lemma sub32_small: "b \<le> a \<Longrightarrow> a < 2 ^ 32 \<Longrightarrow> sub32 a b = a - b"
proof -
  assume a: "b \<le> a" "a < 2 ^ 32"
  then have "b mod 2 ^ 32 = b" by simp
  moreover have "a + (2 ^ 32 - b) = (a - b) + 2 ^ 32" using a by simp
  moreover have "((a - b) + 2 ^ 32) mod 2 ^ 32 = a - b" using a by (simp only: mod_add_self2) simp
  ultimately show ?thesis by (simp only: sub32_def)
qed

lemma mul32_small: "a * b < 2 ^ 32 \<Longrightarrow> mul32 a b = a * b" by (simp add: mul32_def)

lemma buf_put_get_step:
  assumes "dst + (sz + m) \<le> length out" "src + (sz + m) \<le> length inb"
  shows "buf_put (buf_put out dst (buf_get inb src sz)) (dst + sz) (buf_get inb (src + sz) m) = buf_put out dst (buf_get inb src (sz + m))"
  using assms by (intro nth_equalityI) (auto simp: nth_buf_put nth_buf_get buf_simps)

lemma encode_basic_block:
  "dst + n * sz \<le> length out \<Longrightarrow> src + n * sz \<le> length inb \<Longrightarrow> n * sz < 2 ^ 32 \<Longrightarrow>
   qmi_encode_basic_elem out dst inb src n sz = Some (n * sz, buf_put out dst (buf_get inb src (n * sz)))"
proof (induction n arbitrary: out dst src)
  case (Suc n)
  have "qmi_encode_basic_elem (buf_put out dst (buf_get inb src sz)) (dst + sz) inb (src + sz) n sz =
      Some (n * sz, buf_put out dst (buf_get inb src (sz + n * sz)))"
    using Suc.IH [of "dst + sz" "buf_put out dst (buf_get inb src sz)" "src + sz"] Suc.prems buf_put_get_step [of dst sz "n * sz" out src inb] by simp
  then show ?case using Suc.prems by (simp add: add32_small)
qed simp

lemma decode_copy_eq: "decode_copy = qmi_encode_basic_elem"
proof (intro ext)
  fix out dst inb src n sz show "decode_copy out dst inb src n sz = qmi_encode_basic_elem out dst inb src n sz"
    by (induction n arbitrary: out dst src) simp_all
qed

lemma decode_basic_ok:
  assumes "dst + n * sz \<le> length out" "n * sz < 2 ^ 32" "src + src_len \<le> length inb"
  shows "qmi_decode_basic_elem out dst inb src n sz src_len =
     Some (if n * sz \<le> src_len then (Inr (n * sz), buf_put out dst (buf_get inb src (n * sz))) else (Inl EINVAL, out))"
  using assms encode_basic_block [of dst n sz out src inb] by (auto simp: qmi_decode_basic_elem_def mul32_small decode_copy_eq)

section \<open>Decoding is safe\<close>

text \<open>
  A description fits a C structure of \<open>n\<close> bytes: it ends with \<open>QMI_EOTI\<close>, every element lies inside the
  structure, and nested descriptions fit the elements they describe.
\<close>

definition elem_count :: "qmi_elem_info \<Rightarrow> nat" where
  "elem_count e = (if array_type e = NO_ARRAY then 1 else elem_len e)"

function ei_ok :: "qmi_elem_info list \<Rightarrow> nat \<Rightarrow> bool" where
  "ei_ok [] n = False"
| "ei_ok (e # es) n = (if data_type e = QMI_EOTI then es = [] else
     (case data_type e of
        QMI_OPT_FLAG \<Rightarrow> offset e + 1 \<le> n
      | QMI_DATA_LEN \<Rightarrow> offset e + 4 \<le> n
      | QMI_STRUCT \<Rightarrow> offset e + elem_count e * elem_size e \<le> n \<and> (case ei_array e of None \<Rightarrow> False | Some sub \<Rightarrow> ei_ok sub (elem_size e))
      | QMI_STRING \<Rightarrow> elem_size e = 1 \<and> offset e + elem_len e \<le> n \<and> elem_len e < 2 ^ 32
      | _ \<Rightarrow> offset e + elem_count e * elem_size e \<le> n \<and> elem_count e * elem_size e < 2 ^ 32) \<and> ei_ok es n)"
  by pat_completeness auto
termination
proof (relation "measure (\<lambda>(es, n). size_list size es)")
  fix e :: qmi_elem_info and es and n :: nat and sub assume "ei_array e = Some sub"
  then show "((sub, elem_size e), e # es, n) \<in> measure (\<lambda>(es, n). size_list size es)" by (cases e) simp
qed auto

text \<open>The outcome of a safe operation: it returns, and changes the structure only between \<open>lo\<close> and \<open>hi\<close>.\<close>

definition dec_safe :: "byte list \<Rightarrow> nat \<Rightarrow> nat \<Rightarrow> (nat \<Rightarrow> bool) \<Rightarrow> ((errno + nat) \<times> byte list) option \<Rightarrow> bool" where
  "dec_safe out lo hi B res \<longleftrightarrow> (\<exists>r out'. res = Some (r, out') \<and> length out' = length out \<and>
     (\<forall>i < length out. i < lo \<or> hi \<le> i \<longrightarrow> out' ! i = out ! i) \<and> (\<forall>k. r = Inr k \<longrightarrow> B k))"

definition same_out :: "byte list \<Rightarrow> nat \<Rightarrow> nat \<Rightarrow> byte list \<Rightarrow> bool" where
  "same_out out lo hi out' \<longleftrightarrow> length out' = length out \<and> (\<forall>i < length out. i < lo \<or> hi \<le> i \<longrightarrow> out' ! i = out ! i)"

lemma dec_safe_iff: "dec_safe out lo hi B res \<longleftrightarrow> (\<exists>r out'. res = Some (r, out') \<and> same_out out lo hi out' \<and> (\<forall>k. r = Inr k \<longrightarrow> B k))"
  by (auto simp: dec_safe_def same_out_def)

lemma same_out_refl [simp]: "same_out out lo hi out"
  by (simp add: same_out_def)

lemma same_out_trans: "same_out a lo hi b \<Longrightarrow> same_out b lo hi c \<Longrightarrow> same_out a lo hi c"
  by (simp add: same_out_def)

lemma same_out_put: "lo \<le> i \<Longrightarrow> i + length xs \<le> hi \<Longrightarrow> hi \<le> length out \<Longrightarrow> same_out out lo hi (buf_put out i xs)"
  by (auto simp: same_out_def nth_buf_put)

lemma same_out_mono: "same_out out lo hi out' \<Longrightarrow> lo' \<le> lo \<Longrightarrow> hi \<le> hi' \<Longrightarrow> same_out out lo' hi' out'"
  by (auto simp: same_out_def)

lemma dec_safe_after: "same_out out lo hi out1 \<Longrightarrow> dec_safe out1 lo hi B res \<Longrightarrow> dec_safe out lo hi B res"
  by (auto simp: dec_safe_iff intro: same_out_trans)

lemma decode_basic_safe:
  assumes "lo \<le> dst" "dst + n * sz \<le> hi" "hi \<le> length out" "n * sz < 2 ^ 32" "src + src_len \<le> length inb"
  shows "dec_safe out lo hi (\<lambda>k. k \<le> src_len) (qmi_decode_basic_elem out dst inb src n sz src_len)"
  using assms decode_basic_ok [of dst n sz out src src_len inb] by (auto simp: dec_safe_iff intro!: same_out_put)

lemma decode_length_ok:
  assumes "sz \<le> 4" "src + src_len \<le> length inb"
  shows "\<exists>r. decode_length old inb src sz src_len = Some r \<and> (\<forall>rc dl. r = Inr (rc, dl) \<longrightarrow> rc = sz \<and> sz \<le> src_len \<and> dl < 2 ^ 32)"
proof -
  have "le_to_nat w < 2 ^ 32" if "length w = 4" for w using le_to_nat_less [of w] that by simp
  then show ?thesis using assms decode_basic_ok [of 0 1 sz "nat_to_le 4 old" src src_len inb] by (auto simp: decode_length_def)
qed

lemma decode_string_safe:
  assumes "elem_size e = 1" "lo \<le> dst" "dst + elem_len e \<le> hi" "hi \<le> length out" "elem_len e < 2 ^ 32" "src + src_len \<le> length inb" "src_len < 2 ^ 32"
  shows "dec_safe out lo hi (\<lambda>k. k \<le> src_len) (qmi_decode_string_elem e out dst inb src tlv_len level src_len)"
proof -
  have main: "dec_safe out lo hi (\<lambda>k. k \<le> src_len) (do {
      (r2, out1) \<leftarrow> qmi_decode_basic_elem out dst inb (src + d) sl (elem_size e) (sub32 src_len d);
      case r2 of Inl x \<Rightarrow> Some (Inl x, out1)
      | Inr rc \<Rightarrow> do { out2 \<leftarrow> mem_put out1 (dst + sl) [0]; Some (Inr (add32 d rc), out2) } })" if sd: "sl < elem_len e" "d \<le> src_len" for d sl
  proof -
    have s: "sub32 src_len d = src_len - d" using that assms(7) by (simp add: sub32_small)
    have "qmi_decode_basic_elem out dst inb (src + d) sl (elem_size e) (sub32 src_len d) =
        Some (if sl \<le> src_len - d then (Inr sl, buf_put out dst (buf_get inb (src + d) sl)) else (Inl EINVAL, out))"
      unfolding s using decode_basic_ok [of dst sl 1 out "src + d" "src_len - d" inb] assms that by simp
    moreover have "same_out out lo hi (buf_put (buf_put out dst (buf_get inb (src + d) sl)) (dst + sl) [0])" if "sl \<le> src_len - d"
      by (rule same_out_trans [OF same_out_put same_out_put]) (use assms that sd in auto)
    ultimately show ?thesis using assms that by (auto simp: dec_safe_iff add32_small)
  qed
  show ?thesis
  proof (cases "level = 1")
    case True
    then show ?thesis using main [of tlv_len 0] by (auto simp: qmi_decode_string_elem_def dec_safe_iff)
  next
    case False
    have sz: "string_len_sz e \<le> 4" by (simp add: string_len_sz_def)
    obtain r where r: "decode_length 0 inb src (string_len_sz e) src_len = Some r"
      "\<And>rc dl. r = Inr (rc, dl) \<Longrightarrow> rc = string_len_sz e \<and> string_len_sz e \<le> src_len"
      using decode_length_ok [OF sz assms(6), of 0] by blast
    show ?thesis
    proof (cases r)
      case (Inl x)
      then show ?thesis using False r(1) by (simp add: qmi_decode_string_elem_def dec_safe_iff)
    next
      case (Inr p)
      obtain rc dl where p: "p = (rc, dl)" by (cases p)
      then show ?thesis using False r Inr main [of dl rc] by (auto simp: qmi_decode_string_elem_def dec_safe_iff)
    qed
  qed
qed

lemma ei_ok_next: "ei_ok (e # es) n \<Longrightarrow> data_type e \<noteq> QMI_EOTI \<Longrightarrow> ei_ok es n"
  by simp

lemma find_ei_ok: "ei_ok es n \<Longrightarrow> \<exists>f. find_ei es t = Some f \<and> (\<forall>tei. f = Some tei \<longrightarrow> ei_ok tei n \<and> data_type (hd tei) \<noteq> QMI_EOTI)"
  by (induction es) auto

text \<open>Between iterations: the unread rest of the message is inside the input.\<close>

definition dec_inv :: "dec_vars \<Rightarrow> byte list \<Rightarrow> nat \<Rightarrow> bool" where
  "dec_inv v inb len \<longleftrightarrow> len < 2 ^ 32 \<and> dv_decoded v < 2 ^ 32 \<and>
     (dv_decoded v \<le> len \<longrightarrow> dv_src v + (len - dv_decoded v) \<le> length inb)"

lemma decode_flag_safe:
  assumes "ei_ok tei n" "data_type (hd tei) \<noteq> QMI_EOTI" "base + n \<le> length (dv_out v)"
  shows "\<exists>tei1 out. decode_flag tei base v = Some (tei1, v\<lparr>dv_out := out\<rparr>) \<and> same_out (dv_out v) base (base + n) out \<and> ei_ok tei1 n"
proof -
  obtain e es where t: "tei = e # es" using assms(1) by (cases tei) auto
  show ?thesis
  proof (cases "data_type e = QMI_OPT_FLAG")
    case True
    then have "same_out (dv_out v) base (base + n) (buf_put (dv_out v) (base + offset e) [1])"
      using assms t by (intro same_out_put) auto
    then show ?thesis using True assms t by (auto simp: decode_flag_def)
  next
    case False
    then show ?thesis using assms(1) t by (auto simp: decode_flag_def intro!: exI [of _ "dv_out v"])
  qed
qed

lemma decode_data_len_safe:
  assumes ok: "ei_ok tei n" "base + n \<le> length (dv_out v)" and inv: "dec_inv v inb len" "dv_decoded v \<le> len"
  shows "\<exists>r. decode_data_len tei base inb len tln v = Some r \<and>
     (\<forall>tei1 tl1 v1. r = Inr (tei1, tl1, v1) \<longrightarrow> ei_ok tei1 n \<and> same_out (dv_out v) base (base + n) (dv_out v1) \<and>
        dec_inv v1 inb len \<and> dv_decoded v1 \<le> len)"
proof -
  obtain e es where t: "tei = e # es" using ok by (cases tei) auto
  show ?thesis
  proof (cases "data_type e = QMI_DATA_LEN")
    case True
    define left where "left = len - dv_decoded v"
    have s: "sub32 len (dv_decoded v) = left" using inv by (simp add: sub32_small dec_inv_def left_def)
    have sz: "data_len_sz e \<le> 4" by (simp add: data_len_sz_def)
    have l: "dv_src v + left \<le> length inb" using inv by (simp add: dec_inv_def left_def)
    obtain r where r: "decode_length (dv_data_len v) inb (dv_src v) (data_len_sz e) left = Some r"
      "\<And>rc dl. r = Inr (rc, dl) \<Longrightarrow> rc = data_len_sz e \<and> data_len_sz e \<le> left \<and> dl < 2 ^ 32"
      using decode_length_ok [OF sz l, of "dv_data_len v"] by blast
    show ?thesis
    proof (cases r)
      case (Inl x)
      then show ?thesis using True r(1) t s by (simp add: decode_data_len_def)
    next
      case (Inr p)
      obtain rc dl where p: "p = (rc, dl)" by (cases p)
      have rc: "rc \<le> left" "dl < 2 ^ 32" using r(2) Inr p by auto
      then have a: "add32 (dv_decoded v) rc = dv_decoded v + rc"
        using inv unfolding dec_inv_def left_def by (intro add32_small) linarith
      have o: "offset e + 4 \<le> n" using ok(1) t True by simp
      have so: "same_out (dv_out v) base (base + n) (buf_put (dv_out v) (base + offset e) (nat_to_le 4 dl))"
        using ok o by (intro same_out_put) auto
      have i: "dec_inv (dec_update rc (v\<lparr>dv_out := w, dv_data_len := dl\<rparr>)) inb len \<and> dv_decoded v + rc \<le> len" for w
        using inv rc a by (auto simp: dec_inv_def dec_update_def left_def)
      show ?thesis using True r(1) t s ok o Inr p so i a by (auto simp: decode_data_len_def dec_update_def)
    qed
  next
    case False
    then show ?thesis using ok inv t by (auto simp: decode_data_len_def)
  qed
qed

lemma decode_tlv_safe:
  assumes "ei_ok ei n" "dec_inv v inb len" "dv_decoded v < len"
  shows "\<exists>r. decode_tlv ei inb len v = Some r \<and> (\<forall>f tl1 v1. r = Inr (f, tl1, v1) \<longrightarrow> dv_out v1 = dv_out v \<and> tl1 < 65536 \<and>
     dec_inv v1 inb len \<and> dv_decoded v1 \<le> len \<and> dv_data_len v1 = dv_data_len v \<and> (\<forall>tei. f = Some tei \<longrightarrow> ei_ok tei n \<and> data_type (hd tei) \<noteq> QMI_EOTI))"
proof (cases "dv_decoded v + TLV_SIZE > len")
  case True
  then show ?thesis by (simp add: decode_tlv_def)
next
  case False
  then have l: "dv_decoded v + 3 \<le> len" "dv_src v + 3 \<le> length inb" using assms(2) by (auto simp: TLV_SIZE_def dec_inv_def)
  define h where "h = buf_get inb (dv_src v) 3"
  have h: "mem_get inb (dv_src v) 3 = Some h" using l by (simp add: h_def)
  obtain f where f: "find_ei ei (h ! 0) = Some f" "\<And>tei. f = Some tei \<Longrightarrow> ei_ok tei n \<and> data_type (hd tei) \<noteq> QMI_EOTI" using find_ei_ok [OF assms(1)] by blast
  have a: "add32 (dv_decoded v) 3 = dv_decoded v + 3" using assms(2) l by (simp add: add32_small dec_inv_def)
  have u: "unat (h ! 1) + 256 * unat (h ! 2) < 65536" using unat_byte_less [of "h ! 1"] unat_byte_less [of "h ! 2"] by linarith
  have i: "dec_inv (dec_update 3 v) inb len" using assms(2) l a by (auto simp: dec_inv_def dec_update_def)
  show ?thesis using False h f a u i l by (auto simp: decode_tlv_def dec_update_def TLV_SIZE_def)
qed

lemma dec_safe_mono: "dec_safe out lo hi B r \<Longrightarrow> lo' \<le> lo \<Longrightarrow> hi \<le> hi' \<Longrightarrow> dec_safe out lo' hi' B r"
  unfolding dec_safe_iff by (blast intro: same_out_mono)

text \<open>What the decoder of an array of structures needs of the decoder of one.\<close>

definition sub_safe :: "byte list \<Rightarrow> qmi_elem_info \<Rightarrow> bool" where
  "sub_safe inb e \<longleftrightarrow> (\<forall>out base src len level. 2 \<le> level \<and> base + elem_size e \<le> length out \<and> len < 2 ^ 32 \<and> src + len \<le> length inb \<longrightarrow>
     dec_safe out base (base + elem_size e) (\<lambda>k. k \<le> len) (qmi_decode (ei_array e) out base inb src len level))"

lemma structs_safe:
  assumes sub: "sub_safe inb e" and lv: "2 \<le> level"
  shows "dst + n * elem_size e \<le> length out \<Longrightarrow> tln < 2 ^ 32 \<Longrightarrow> dec \<le> tln \<Longrightarrow> src + (tln - dec) \<le> length inb \<Longrightarrow>
    dec_safe out dst (dst + n * elem_size e) (\<lambda>k. k \<le> tln) (decode_structs e out dst inb src n tln level dec)"
proof (induction n arbitrary: out dst src dec)
  case 0
  then show ?case by (subst decode_structs.simps) (auto simp: dec_safe_iff)
next
  case (Suc n)
  show ?case
  proof (cases "dec < tln")
    case False
    then show ?thesis using Suc.prems by (subst decode_structs.simps) (auto simp: dec_safe_iff)
  next
    case True
    define rest where "rest = tln - dec"
    have s: "sub32 tln dec = rest" using True Suc.prems by (simp add: sub32_small rest_def)
    have "dec_safe out dst (dst + elem_size e) (\<lambda>k. k \<le> rest) (qmi_decode (ei_array e) out dst inb src rest level)"
      using sub lv Suc.prems by (auto simp: sub_safe_def rest_def)
    then obtain r out1 where r: "qmi_decode (ei_array e) out dst inb src rest level = Some (r, out1)"
      "same_out out dst (dst + elem_size e) out1" "\<And>k. r = Inr k \<Longrightarrow> k \<le> rest" by (auto simp: dec_safe_iff)
    have so: "same_out out dst (dst + Suc n * elem_size e) out1" by (rule same_out_mono [OF r(2)]) simp_all
    show ?thesis
    proof (cases r)
      case (Inl x)
      then show ?thesis using True r so s by (subst decode_structs.simps) (auto simp: dec_safe_iff)
    next
      case (Inr rc)
      have rc: "rc \<le> rest" using r(3) Inr by simp
      have a: "add32 dec rc = dec + rc" using rc Suc.prems True unfolding rest_def by (intro add32_small) linarith
      have "dec_safe out1 (dst + elem_size e) (dst + elem_size e + n * elem_size e) (\<lambda>k. k \<le> tln)
          (decode_structs e out1 (dst + elem_size e) inb (src + rc) n tln level (dec + rc))"
      proof (rule Suc.IH)
        show "dst + elem_size e + n * elem_size e \<le> length out1" using Suc.prems r(2) by (simp add: same_out_def)
        show "dec + rc \<le> tln" using rc True unfolding rest_def by linarith
        show "src + rc + (tln - (dec + rc)) \<le> length inb" using rc True Suc.prems unfolding rest_def by linarith
      qed (use Suc.prems in simp)
      then have "dec_safe out1 dst (dst + Suc n * elem_size e) (\<lambda>k. k \<le> tln)
          (decode_structs e out1 (dst + elem_size e) inb (src + rc) n tln level (dec + rc))"
        by (rule dec_safe_mono) simp_all
      from dec_safe_after [OF so this] show ?thesis
        using True r(1) s Inr a by (subst decode_structs.simps) simp
    qed
  qed
qed

text \<open>The value of one element.\<close>

lemma dec_count: "dec_data_len e dlv = Some dl \<Longrightarrow> dl * elem_size e \<le> elem_count e * elem_size e"
  by (auto simp: dec_data_len_def elem_count_def split: qmi_array_type.splits if_splits)

lemma value_safe:
  assumes ok: "ei_ok (e # es) n" "base + n \<le> length out" and dl: "dec_data_len e dlv = Some dl" and left: "left < 2 ^ 32" "src + left \<le> length inb"
    and sub: "data_type e = QMI_STRUCT \<Longrightarrow> sub_safe inb e" and lv: "1 \<le> level"
  shows "dec_safe out base (base + n) (\<lambda>k. k \<le> left \<and> data_type e \<noteq> QMI_EOTI) (case data_type e of
      QMI_EOTI \<Rightarrow> Some (Inl EINVAL, out)
    | QMI_OPT_FLAG \<Rightarrow> Some (Inl EINVAL, out)
    | QMI_DATA_LEN \<Rightarrow> Some (Inl EINVAL, out)
    | QMI_STRUCT \<Rightarrow> qmi_decode_struct_elem e out (base + offset e) inb src dl tln (level + 1) left
    | QMI_STRING \<Rightarrow> qmi_decode_string_elem e out (base + offset e) inb src tln level left
    | _ \<Rightarrow> qmi_decode_basic_elem out (base + offset e) inb src dl (elem_size e) left)"
proof -
  note cnt = dec_count [OF dl]
  have basic: "dec_safe out base (base + n) (\<lambda>k. k \<le> left) (qmi_decode_basic_elem out (base + offset e) inb src dl (elem_size e) left)"
    if "offset e + elem_count e * elem_size e \<le> n" "elem_count e * elem_size e < 2 ^ 32"
    by (rule decode_basic_safe) (use that cnt ok(2) left in linarith)+
  have string: "dec_safe out base (base + n) (\<lambda>k. k \<le> left) (qmi_decode_string_elem e out (base + offset e) inb src tln level left)"
    if "elem_size e = 1" "offset e + elem_len e \<le> n" "elem_len e < 2 ^ 32"
    by (rule decode_string_safe) (use that ok(2) left in auto)
  have struct: "dec_safe out base (base + n) (\<lambda>k. k \<le> left) (qmi_decode_struct_elem e out (base + offset e) inb src dl tln (level + 1) left)"
    if "offset e + elem_count e * elem_size e \<le> n" "data_type e = QMI_STRUCT"
  proof (cases "tln > left")
    case False
    have "dec_safe out (base + offset e) (base + offset e + dl * elem_size e) (\<lambda>k. k \<le> tln)
        (decode_structs e out (base + offset e) inb src dl tln (level + 1) 0)"
      by (rule structs_safe [OF sub [OF that(2)]]) (use that cnt ok(2) left lv False in linarith)+
    then have "dec_safe out base (base + n) (\<lambda>k. k \<le> tln) (decode_structs e out (base + offset e) inb src dl tln (level + 1) 0)"
      by (rule dec_safe_mono) (use that(1) cnt in linarith)+
    then show ?thesis using False by (auto simp: dec_safe_iff)
  qed (simp add: dec_safe_iff)
  show ?thesis
    using ok(1) basic string struct by (cases "data_type e") (auto simp: dec_safe_iff)
qed

lemma flag_subset: "decode_flag tei base v = Some (tei1, v1) \<Longrightarrow> set tei1 \<subseteq> set tei"
  by (auto simp: decode_flag_def split: list.splits if_splits bind_splits)

lemma data_len_subset: "decode_data_len tei base inb len tln v = Some (Inr (tei1, tl1, v1)) \<Longrightarrow> set tei1 \<subseteq> set tei"
  by (auto simp: decode_data_len_def split: list.splits if_splits bind_splits sum.splits)

lemma find_ei_subset: "find_ei es t = Some (Some es') \<Longrightarrow> set es' \<subseteq> set es"
  by (induction es) (auto split: if_splits)

lemma decode_tlv_subset: "decode_tlv ei inb len v = Some (Inr (Some tei, tln, v1)) \<Longrightarrow> set tei \<subseteq> set ei"
  by (auto simp: decode_tlv_def Let_def split: if_splits bind_splits dest: find_ei_subset)

text \<open>The value of an element and the rest of the loop, once flag and length are decoded.\<close>

lemma value_loop_safe:
  assumes ok: "ei_ok (e # es) n" "base + n \<le> length (dv_out v)" and inv: "dec_inv v inb len" "dv_decoded v \<le> len"
    and sub: "data_type e = QMI_STRUCT \<Longrightarrow> sub_safe inb e" and lv: "1 \<le> level" and dl: "dec_data_len e (dv_data_len v) = Some dl"
    and loop: "\<And>v'. ei_ok es n \<Longrightarrow> base + n \<le> length (dv_out v') \<Longrightarrow> dec_inv v' inb len \<Longrightarrow> dv_decoded v' \<le> len \<Longrightarrow> dv_src v \<le> dv_src v' \<Longrightarrow>
      dec_safe (dv_out v') base (base + n) B (decode_loop ei es v' base inb len level)"
  shows "dec_safe (dv_out v) base (base + n) B (do {
      (res, out) \<leftarrow> (case data_type e of
          QMI_EOTI \<Rightarrow> Some (Inl EINVAL, dv_out v) | QMI_OPT_FLAG \<Rightarrow> Some (Inl EINVAL, dv_out v) | QMI_DATA_LEN \<Rightarrow> Some (Inl EINVAL, dv_out v)
        | QMI_STRUCT \<Rightarrow> qmi_decode_struct_elem e (dv_out v) (base + offset e) inb (dv_src v) dl tln (level + 1) (sub32 len (dv_decoded v))
        | QMI_STRING \<Rightarrow> qmi_decode_string_elem e (dv_out v) (base + offset e) inb (dv_src v) tln level (sub32 len (dv_decoded v))
        | _ \<Rightarrow> qmi_decode_basic_elem (dv_out v) (base + offset e) inb (dv_src v) dl (elem_size e) (sub32 len (dv_decoded v)));
      case res of Inl x \<Rightarrow> Some (Inl x, out)
      | Inr rc \<Rightarrow> decode_loop ei es (dec_update rc (v\<lparr>dv_out := out, dv_data_len := dl\<rparr>)) base inb len level })"
    (is "dec_safe _ _ _ _ (Option.bind ?sw _)")
proof -
  define left where "left = len - dv_decoded v"
  have lf: "sub32 len (dv_decoded v) = left" "left < 2 ^ 32" "dv_src v + left \<le> length inb" "len < 2 ^ 32"
    using inv by (auto simp: sub32_small left_def dec_inv_def)
  obtain res out where sw: "?sw = Some (res, out)" "same_out (dv_out v) base (base + n) out" "\<And>k. res = Inr k \<Longrightarrow> k \<le> left \<and> data_type e \<noteq> QMI_EOTI"
    using value_safe [OF ok dl lf(2,3) sub lv, of tln] unfolding dec_safe_iff lf(1) by blast
  show ?thesis
  proof (cases res)
    case (Inl x)
    then show ?thesis using sw(1,2) by (simp add: dec_safe_iff)
  next
    case (Inr rc)
    define v3 where "v3 = dec_update rc (v\<lparr>dv_out := out, dv_data_len := dl\<rparr>)"
    have rc: "rc \<le> left" "data_type e \<noteq> QMI_EOTI" using sw(3) Inr by auto
    have a: "add32 (dv_decoded v) rc = dv_decoded v + rc" using rc(1) inv(2) lf(4) unfolding left_def by (intro add32_small) linarith
    have "dec_safe (dv_out v3) base (base + n) B (decode_loop ei es v3 base inb len level)"
    proof (rule loop)
      show "dec_inv v3 inb len" using inv rc(1) a lf(3) unfolding left_def by (auto simp: v3_def dec_inv_def dec_update_def)
      show "dv_decoded v3 \<le> len" using inv(2) rc(1) a unfolding left_def by (simp add: v3_def dec_update_def)
      show "base + n \<le> length (dv_out v3)" using sw(2) ok(2) by (simp add: v3_def dec_update_def same_out_def)
    qed (use ok(1) rc(2) in \<open>auto simp: v3_def dec_update_def\<close>)
    then show ?thesis using sw(1) Inr dec_safe_after [OF sw(2)] by (simp add: v3_def dec_update_def)
  qed
qed

text \<open>One element is safe if the rest of the loop is.\<close>

lemma elem_safe:
  assumes ok: "ei_ok tei n" "data_type (hd tei) \<noteq> QMI_EOTI" "base + n \<le> length (dv_out v)" and inv: "dec_inv v inb len" "dv_decoded v \<le> len"
    and sub: "\<And>e. e \<in> set tei \<Longrightarrow> data_type e = QMI_STRUCT \<Longrightarrow> sub_safe inb e" and lv: "1 \<le> level"
    and loop: "\<And>es v'. ei_ok es n \<Longrightarrow> length es < length tei \<Longrightarrow> set es \<subseteq> set tei \<Longrightarrow> base + n \<le> length (dv_out v') \<Longrightarrow> dec_inv v' inb len \<Longrightarrow>
      dv_decoded v' \<le> len \<Longrightarrow> dv_src v \<le> dv_src v' \<Longrightarrow> dec_safe (dv_out v') base (base + n) B (decode_loop ei es v' base inb len level)"
  shows "dec_safe (dv_out v) base (base + n) B (decode_elem ei tei tln v base inb len level)"
proof -
  obtain tei1 out1 where f: "decode_flag tei base v = Some (tei1, v\<lparr>dv_out := out1\<rparr>)" "same_out (dv_out v) base (base + n) out1" "ei_ok tei1 n"
    using decode_flag_safe [OF ok] by blast
  define v1 where "v1 = v\<lparr>dv_out := out1\<rparr>"
  have i1: "dec_inv v1 inb len" "dv_decoded v1 \<le> len" "base + n \<le> length (dv_out v1)" using inv ok(3) f(2) by (auto simp: v1_def dec_inv_def same_out_def)
  obtain r where r: "decode_data_len tei1 base inb len tln v1 = Some r" "\<And>tei2 tl2 v2. r = Inr (tei2, tl2, v2) \<Longrightarrow>
      ei_ok tei2 n \<and> same_out (dv_out v1) base (base + n) (dv_out v2) \<and> dec_inv v2 inb len \<and> dv_decoded v2 \<le> len"
    using decode_data_len_safe [OF f(3) i1(3,1,2)] by blast
  show ?thesis
  proof (cases r)
    case (Inl x)
    then show ?thesis using f r(1) by (simp add: decode_elem.simps v1_def dec_safe_iff)
  next
    case (Inr p)
    then obtain tei2 tl2 v2 where p: "r = Inr (tei2, tl2, v2)" by (cases p) auto
    have i2: "ei_ok tei2 n" "same_out (dv_out v1) base (base + n) (dv_out v2)" "dec_inv v2 inb len" "dv_decoded v2 \<le> len" using r(2) [OF p] by auto
    obtain e es where t: "tei2 = e # es" using i2(1) by (cases tei2) auto
    have so: "same_out (dv_out v) base (base + n) (dv_out v2)" using f(2) i2(2) by (auto simp: v1_def intro: same_out_trans)
    have sz: "length tei2 \<le> length tei" "dv_src v \<le> dv_src v2" "set tei2 \<subseteq> set tei"
      using decode_flag_size [OF f(1)] decode_data_len_size [OF r(1) [unfolded p]] flag_subset [OF f(1)] data_len_subset [OF r(1) [unfolded p]] by (auto simp: v1_def)
    show ?thesis
    proof (cases "dec_data_len e (dv_data_len v2)")
      case None
      then show ?thesis using f r(1) p t so by (simp add: decode_elem.simps v1_def dec_safe_iff)
    next
      case (Some dl)
      have l2: "base + n \<le> length (dv_out v2)" using so ok(3) by (simp add: same_out_def)
      have "dec_safe (dv_out v2) base (base + n) B (decode_elem ei tei tln v base inb len level)"
        using value_loop_safe [OF i2(1) [unfolded t] l2 i2(3,4) _ lv Some, of B ei tl2] sub sz t loop f(1) r(1) p Some
        by (simp add: decode_elem.simps v1_def Let_def)
      then show ?thesis by (rule dec_safe_after [OF so])
    qed
  qed
qed

text \<open>The loop, by induction on the rest of the message at the top level and on the description below it.\<close>

lemma loop_safe:
  assumes sub: "\<And>e. e \<in> set ei \<Longrightarrow> data_type e = QMI_STRUCT \<Longrightarrow> sub_safe inb e" and lv: "1 \<le> level" and ei: "ei_ok ei n"
    and ln: "level = 1 \<Longrightarrow> len + 65536 \<le> 2 ^ 32"
  shows "(level = 1 \<or> (ei_ok tei n \<and> set tei \<subseteq> set ei \<and> dv_decoded v \<le> len)) \<Longrightarrow> base + n \<le> length (dv_out v) \<Longrightarrow> dec_inv v inb len \<Longrightarrow>
    dec_safe (dv_out v) base (base + n) (\<lambda>k. 2 \<le> level \<longrightarrow> k \<le> len) (decode_loop ei tei v base inb len level)"
proof (induction "if level = 1 then length inb - dv_src v else length tei" arbitrary: tei v rule: less_induct)
  case less
  consider "\<not> dv_decoded v < len" | "dv_decoded v < len" "level = 1" | "dv_decoded v < len" "level \<noteq> 1" by blast
  then show ?case
  proof cases
    case 1
    then show ?thesis using less.prems by (subst decode_loop.simps) (auto simp: dec_safe_iff)
  next
    case 2
    obtain r where r: "decode_tlv ei inb len v = Some r" "\<And>f tl1 v1. r = Inr (f, tl1, v1) \<Longrightarrow> dv_out v1 = dv_out v \<and> tl1 < 65536 \<and>
        dec_inv v1 inb len \<and> dv_decoded v1 \<le> len \<and> (\<forall>tei. f = Some tei \<longrightarrow> ei_ok tei n \<and> data_type (hd tei) \<noteq> QMI_EOTI)"
      using decode_tlv_safe [OF ei less.prems(3) 2(1)] by blast
    show ?thesis
    proof (cases r)
      case (Inl x)
      then show ?thesis using 2 r(1) by (subst decode_loop.simps) (simp add: dec_safe_iff)
    next
      case (Inr p)
      then obtain f tl1 v1 where p: "r = Inr (f, tl1, v1)" by (cases p) auto
      note v1 = r(2) [OF p] and sz = decode_tlv_size [OF r(1) [unfolded p]]
      show ?thesis
      proof (cases f)
        case None
        have "dec_safe (dv_out (dec_update tl1 v1)) base (base + n) (\<lambda>k. 2 \<le> level \<longrightarrow> k \<le> len) (decode_loop ei [] (dec_update tl1 v1) base inb len level)"
        proof (rule less.hyps)
          have a: "add32 (dv_decoded v1) tl1 = dv_decoded v1 + tl1" using v1 ln [OF 2(2)] by (intro add32_small) linarith
          then show "dec_inv (dec_update tl1 v1) inb len" using v1 ln [OF 2(2)] by (auto simp: dec_inv_def dec_update_def)
        qed (use 2 v1 sz less.prems in \<open>auto simp: dec_update_def\<close>)
        then show ?thesis using 2 r(1) p None v1 by (subst decode_loop.simps) (simp add: dec_update_def)
      next
        case (Some tei1)
        have "dec_safe (dv_out v1) base (base + n) (\<lambda>k. 2 \<le> level \<longrightarrow> k \<le> len) (decode_elem ei tei1 tl1 v1 base inb len level)"
        proof (rule elem_safe [OF _ _ _ _ _ _ lv])
          fix es v' assume a: "ei_ok es n" "base + n \<le> length (dv_out v')" "dec_inv v' inb len" "dv_decoded v' \<le> len" "dv_src v1 \<le> dv_src v'"
          show "dec_safe (dv_out v') base (base + n) (\<lambda>k. 2 \<le> level \<longrightarrow> k \<le> len) (decode_loop ei es v' base inb len level)"
            by (rule less.hyps) (use a 2 sz in auto)
        qed (use v1 Some less.prems sub decode_tlv_subset [OF r(1) [unfolded p Some]] in auto)
        then show ?thesis using 2 r(1) p Some v1 by (subst decode_loop.simps) simp
      qed
    qed
  next
    case 3
    then obtain e es where t: "tei = e # es" using less.prems(1) by (cases tei) auto
    have ok: "ei_ok tei n" "set tei \<subseteq> set ei" "dv_decoded v \<le> len" using less.prems(1) 3 by auto
    show ?thesis
    proof (cases "data_type e = QMI_EOTI")
      case True
      then show ?thesis using 3 t by (subst decode_loop.simps) (simp add: dec_safe_iff)
    next
      case False
      have "dec_safe (dv_out v) base (base + n) (\<lambda>k. 2 \<le> level \<longrightarrow> k \<le> len) (decode_elem ei tei (sub32 len (dv_decoded v)) v base inb len level)"
      proof (rule elem_safe [OF ok(1) _ less.prems(2,3) ok(3) _ lv])
        fix es' v' assume a: "ei_ok es' n" "length es' < length tei" "set es' \<subseteq> set tei" "base + n \<le> length (dv_out v')" "dec_inv v' inb len" "dv_decoded v' \<le> len"
        show "dec_safe (dv_out v') base (base + n) (\<lambda>k. 2 \<le> level \<longrightarrow> k \<le> len) (decode_loop ei es' v' base inb len level)"
          by (rule less.hyps) (use a 3 ok in auto)
      qed (use False t sub ok(2) in auto)
      then show ?thesis using 3 t False by (subst decode_loop.simps) simp
    qed
  qed
qed

lemma ei_ok_sub: "ei_ok es n \<Longrightarrow> e \<in> set es \<Longrightarrow> data_type e = QMI_STRUCT \<Longrightarrow> \<exists>sub. ei_array e = Some sub \<and> ei_ok sub (elem_size e)"
  by (induction es) (auto split: if_splits option.splits)

lemma sub_size_mem: "e \<in> set es \<Longrightarrow> ei_array e = Some sub \<Longrightarrow> size_list size sub < size_list size es"
proof -
  assume a: "e \<in> set es" "ei_array e = Some sub"
  have "size_list size sub < size e" using sub_size [of e] a(2) by simp
  moreover have "size e \<le> size_list size es" using a(1) by (induction es) auto
  ultimately show ?thesis by simp
qed

lemma qmi_decode_safe:
  assumes "ei_ok ei n" "base + n \<le> length out" "len < 2 ^ 32" "src + len \<le> length inb" "1 \<le> level" "level = 1 \<Longrightarrow> len + 65536 \<le> 2 ^ 32"
  shows "dec_safe out base (base + n) (\<lambda>k. 2 \<le> level \<longrightarrow> k \<le> len) (qmi_decode (Some ei) out base inb src len level)"
  using assms
proof (induction "size_list size ei" arbitrary: ei n out base len src level rule: less_induct)
  case less
  have sub: "sub_safe inb e" if e: "e \<in> set ei" "data_type e = QMI_STRUCT" for e
  proof -
    obtain sub where s: "ei_array e = Some sub" "ei_ok sub (elem_size e)" using ei_ok_sub [OF less.prems(1) e] by blast
    have "dec_safe out' base' (base' + elem_size e) (\<lambda>k. k \<le> len') (qmi_decode (ei_array e) out' base' inb src' len' level')"
      if "2 \<le> level'" "base' + elem_size e \<le> length out'" "len' < 2 ^ 32" "src' + len' \<le> length inb" for out' base' src' len' level'
      using less.hyps [OF sub_size_mem [OF e(1) s(1)] s(2), of base' out' len' src' level'] that by (simp add: s(1))
    then show ?thesis by (simp add: sub_safe_def)
  qed
  show ?case
    using loop_safe [OF sub less.prems(5,1), of len ei "\<lparr>dv_out = out, dv_src = src, dv_decoded = 0, dv_data_len = 0\<rparr>" base] less.prems
    by (auto simp: dec_inv_def)
qed

section \<open>Flat messages\<close>

text \<open>
  A flat message has only mandatory elements of basic types, each with its own TLV type.  It is encoded as
  the list of its TLVs.
\<close>

definition is_basic :: "qmi_elem_info \<Rightarrow> bool" where
  "is_basic e \<longleftrightarrow> data_type e \<notin> {QMI_EOTI, QMI_OPT_FLAG, QMI_DATA_LEN, QMI_STRUCT, QMI_STRING}"

definition elem_width :: "qmi_elem_info \<Rightarrow> nat" where
  "elem_width e = elem_len e * elem_size e"

definition flat_elem :: "nat \<Rightarrow> qmi_elem_info \<Rightarrow> bool" where
  "flat_elem n e \<longleftrightarrow> is_basic e \<and> array_type e \<noteq> VAR_LEN_ARRAY \<and> (array_type e = NO_ARRAY \<longrightarrow> elem_len e = 1) \<and>
     elem_width e < 65536 \<and> offset e + elem_width e \<le> n"

text \<open>\<open>flat n es ei\<close>: the elements \<open>es\<close> and the end mark make up the description \<open>ei\<close> of a structure of \<open>n\<close> bytes.\<close>

definition flat :: "nat \<Rightarrow> qmi_elem_info list \<Rightarrow> qmi_elem_info list \<Rightarrow> bool" where
  "flat n es ei \<longleftrightarrow> (\<exists>eoti. ei = es @ [eoti] \<and> data_type eoti = QMI_EOTI) \<and> list_all (flat_elem n) es \<and> distinct (map tlv_type es)"

definition elem_field :: "byte list \<Rightarrow> nat \<Rightarrow> qmi_elem_info \<Rightarrow> byte list" where
  "elem_field s base e = buf_get s (base + offset e) (elem_width e)"

definition elem_tlv :: "byte list \<Rightarrow> nat \<Rightarrow> qmi_elem_info \<Rightarrow> byte list" where
  "elem_tlv s base e = tlv_header (tlv_type e) (elem_width e) @ elem_field s base e"

definition tlvs :: "byte list \<Rightarrow> nat \<Rightarrow> qmi_elem_info list \<Rightarrow> byte list" where
  "tlvs s base es = concat (map (elem_tlv s base) es)"

definition flat_len :: "qmi_elem_info list \<Rightarrow> nat" where
  "flat_len es = sum_list (map (\<lambda>e. 3 + elem_width e) es)"

lemma basic_cases: "is_basic e \<Longrightarrow> (case data_type e of QMI_EOTI \<Rightarrow> a | QMI_OPT_FLAG \<Rightarrow> b | QMI_DATA_LEN \<Rightarrow> c | QMI_STRUCT \<Rightarrow> d | QMI_STRING \<Rightarrow> f | _ \<Rightarrow> g) = g"
  by (auto simp: is_basic_def split: qmi_elem_type.splits)

lemma length_elem_field: "flat_elem n e \<Longrightarrow> base + n \<le> length s \<Longrightarrow> length (elem_field s base e) = elem_width e"
  by (simp add: elem_field_def flat_elem_def)

lemma length_tlvs: "list_all (flat_elem n) es \<Longrightarrow> base + n \<le> length s \<Longrightarrow> length (tlvs s base es) = flat_len es"
  by (induction es) (auto simp: tlvs_def flat_len_def elem_tlv_def tlv_header_def length_elem_field)

lemma flat_data_len: "flat_elem n e \<Longrightarrow> \<exists>dl. data_len e dlv = Some dl \<and> dl * elem_size e = elem_width e"
  "flat_elem n e \<Longrightarrow> \<exists>dl. dec_data_len e dlv = Some dl \<and> dl * elem_size e = elem_width e"
  by (auto simp: flat_elem_def data_len_def dec_data_len_def elem_width_def split: qmi_array_type.splits)

lemma put_after:
  assumes "p + length h + length d \<le> length out"
  shows "buf_put (buf_put out (p + length h) d) p h = buf_put out p (h @ d)"
  using assms by (intro nth_equalityI) (auto simp: nth_buf_put nth_append)

lemma put_put: "i + length xs + length ys \<le> length b \<Longrightarrow> buf_put (buf_put b i xs) (i + length xs) ys = buf_put b i (xs @ ys)"
  by (intro nth_equalityI) (auto simp: nth_buf_put nth_append)

lemma encode_flat:
  assumes "base + n \<le> length inb" "data_type eoti = QMI_EOTI"
  shows "list_all (flat_elem n) es \<Longrightarrow> ev_dst v = ev_tlv v + 3 \<Longrightarrow> ev_tlv_len v = 0 \<Longrightarrow>
    ev_encoded v + flat_len es \<le> len \<Longrightarrow> len < 2 ^ 32 \<Longrightarrow> ev_tlv v + flat_len es \<le> length (ev_out v) \<Longrightarrow>
    encode_loop (es @ [eoti]) v dlv inb base len 1 = Some (Inr (ev_encoded v + flat_len es), buf_put (ev_out v) (ev_tlv v) (tlvs inb base es))"
proof (induction es arbitrary: v dlv)
  case Nil
  then show ?case using assms(2) by (simp add: flat_len_def tlvs_def)
next
  case (Cons e es)
  define w where "w = elem_width e"
  define p where "p = ev_tlv v"
  have fe: "flat_elem n e" and b: "is_basic e" using Cons.prems(1) by (simp_all add: flat_elem_def)
  have w: "w < 65536" "base + offset e + w \<le> length inb" using fe assms(1) by (simp_all add: flat_elem_def w_def)
  obtain dl where dl: "data_len e dlv = Some dl" "dl * elem_size e = w" using flat_data_len(1) [OF fe, of dlv] by (auto simp: w_def)
  have fl: "flat_len (e # es) = 3 + w + flat_len es" by (simp add: flat_len_def w_def)
  have le: "ev_encoded v + (3 + w + flat_len es) \<le> len" "len < 2 ^ 32" "p + (3 + w + flat_len es) \<le> length (ev_out v)" "ev_dst v = p + 3" "ev_tlv_len v = 0"
    using Cons.prems unfolding fl by (simp_all add: p_def)
  define fld where "fld = elem_field inb base e"
  have lf: "length fld = w" using length_elem_field [OF fe assms(1)] by (simp add: fld_def w_def)
  define h where "h = tlv_header (tlv_type e) w"
  have lh: "length h = 3" by (simp add: h_def tlv_header_def)
  have bl: "qmi_encode_basic_elem (ev_out v) (p + 3) inb (base + offset e) dl (elem_size e) = Some (w, buf_put (ev_out v) (p + 3) fld)"
    using encode_basic_block [of "p + 3" dl "elem_size e" "ev_out v" "base + offset e" inb] dl(2) le w by (simp add: fld_def elem_field_def w_def)
  define v1 where "v1 = v\<lparr>ev_out := buf_put (ev_out v) p (h @ fld), ev_encoded := ev_encoded v + w + 3, ev_tlv := p + 3 + w, ev_tlv_len := 0, ev_dst := p + 3 + w + 3\<rparr>"
  have pa: "buf_put (buf_put (ev_out v) (p + 3) fld) p h = buf_put (ev_out v) p (h @ fld)" using put_after [of p h fld "ev_out v"] lh lf le by simp
  have cl: "enc_close 1 (tlv_type e) (enc_update w (buf_put (ev_out v) (p + 3) fld) v) = Some v1"
    using le lf lh w pa by (simp add: enc_close_def enc_update_def add32_small TLV_SIZE_def v1_def p_def [symmetric] h_def [symmetric])
  have chk: "\<not> add32 (mul32 dl (elem_size e)) (ev_encoded v) + TLV_SIZE > len" using dl(2) w le by (simp add: mul32_small add32_small TLV_SIZE_def)
  have ne: "data_type e \<noteq> QMI_EOTI" using b by (auto simp: is_basic_def)
  have "encode_loop ((e # es) @ [eoti]) v dlv inb base len 1 = encode_loop (es @ [eoti]) v1 dl inb base len 1"
    using dl(1) bl cl chk ne b le(4) by (simp add: basic_cases Let_def)
  also have "\<dots> = Some (Inr (ev_encoded v1 + flat_len es), buf_put (ev_out v1) (ev_tlv v1) (tlvs inb base es))"
    using Cons.IH [of v1 dl] Cons.prems(1) le lf lh by (simp add: v1_def)
  also have "buf_put (ev_out v1) (ev_tlv v1) (tlvs inb base es) = buf_put (ev_out v) p (tlvs inb base (e # es))"
    using put_put [of p "h @ fld" "tlvs inb base es" "ev_out v"] length_tlvs [of n es base inb] assms(1) Cons.prems(1) le lf lh
    by (simp add: v1_def tlvs_def elem_tlv_def fld_def h_def w_def add.assoc)
  finally show ?case using fl by (simp add: v1_def p_def)
qed

text \<open>Decoding stores the fields one after the other.\<close>

definition put_fields :: "byte list \<Rightarrow> nat \<Rightarrow> nat \<Rightarrow> qmi_elem_info list \<Rightarrow> byte list \<Rightarrow> byte list" where
  "put_fields s sbase base es = fold (\<lambda>e out. buf_put out (base + offset e) (elem_field s sbase e)) es"

lemma find_ei_flat:
  "distinct (map tlv_type (xs @ e # es)) \<Longrightarrow> list_all is_basic (xs @ e # es) \<Longrightarrow>
   find_ei (xs @ e # es @ ys) (tlv_type e) = Some (Some (e # es @ ys))"
  by (induction xs) (auto simp: is_basic_def)

lemma drop_length_append: "drop (length xs) (xs @ ys) = ys" by simp

lemma header_len: "w < 65536 \<Longrightarrow> unat (of_nat w :: byte) + 256 * unat (of_nat (w div 256) :: byte) = w"
  by (simp add: unat_of_nat)

lemma decode_flat:
  assumes "data_type eoti = QMI_EOTI" "base + n \<le> length out" "sbase + n \<le> length s"
    "distinct (map tlv_type all)" "list_all (flat_elem n) all" "len < 2 ^ 32"
  shows "all = xs @ es \<Longrightarrow> dv_decoded v + flat_len es = len \<Longrightarrow> length (dv_out v) = length out \<Longrightarrow>
    dv_src v + flat_len es \<le> length inb \<Longrightarrow> buf_get inb (dv_src v) (flat_len es) = tlvs s sbase es \<Longrightarrow>
    decode_loop (all @ [eoti]) tei v base inb len 1 = Some (Inr len, put_fields s sbase base es (dv_out v))"
proof (induction es arbitrary: v xs tei)
  case Nil
  then show ?case by (subst decode_loop.simps) (simp add: flat_len_def put_fields_def)
next
  case (Cons e es)
  define w where "w = elem_width e"
  define fld where "fld = elem_field s sbase e"
  have fe: "flat_elem n e" "is_basic e" using Cons.prems(1) assms(5) by (simp_all add: flat_elem_def)
  have w: "w < 65536" "offset e + w \<le> n" using fe by (simp_all add: flat_elem_def w_def)
  have fl: "flat_len (e # es) = 3 + w + flat_len es" by (simp add: flat_len_def w_def)
  note pr = Cons.prems(2-5) [unfolded fl]
  have lf: "length fld = w" using length_elem_field [OF fe(1) assms(3)] by (simp add: fld_def w_def)
  have msg: "buf_get inb (dv_src v) (3 + w + flat_len es) = (tlv_header (tlv_type e) w @ fld) @ tlvs s sbase es"
    using pr(4) by (simp add: tlvs_def elem_tlv_def fld_def w_def)
  have p12: "buf_get inb (dv_src v) 3 = tlv_header (tlv_type e) w" "buf_get inb (dv_src v + 3) w = fld"
    using arg_cong [OF msg, of "take 3"] arg_cong [OF msg, of "\<lambda>l. take w (drop 3 l)"] lf
    by (simp_all add: buf_get_def tlv_header_def min_def drop_take add.commute)
  have "buf_get inb (dv_src v + 3 + w) (flat_len es) = drop (length (tlv_header (tlv_type e) w @ fld)) (buf_get inb (dv_src v) (3 + w + flat_len es))"
    using lf by (simp add: buf_get_def tlv_header_def drop_take add.commute add.left_commute numeral_3_eq_3)
  note parts = p12 this [unfolded msg drop_length_append]
  have fnd: "find_ei (all @ [eoti]) (tlv_type e) = Some (Some (e # es @ [eoti]))"
    using find_ei_flat [of xs e es "[eoti]"] assms(4,5) Cons.prems(1) by (auto simp: list_all_iff flat_elem_def)
  define v1 where "v1 = v\<lparr>dv_src := dv_src v + 3, dv_decoded := dv_decoded v + 3\<rparr>"
  have tlv: "decode_tlv (all @ [eoti]) inb len v = Some (Inr (Some (e # es @ [eoti]), w, v1))"
    using pr fnd header_len [OF w(1)] assms(6) parts(1)
    by (simp add: decode_tlv_def dec_update_def add32_small v1_def TLV_SIZE_def mem_get_def tlv_header_def)
  obtain dl where dl: "dec_data_len e (dv_data_len v) = Some dl" "dl * elem_size e = w" using flat_data_len(2) [OF fe(1)] by (auto simp: w_def)
  define v2 where "v2 = v1\<lparr>dv_out := buf_put (dv_out v) (base + offset e) fld, dv_data_len := dl, dv_src := dv_src v1 + w, dv_decoded := dv_decoded v1 + w\<rparr>"
  have sub: "sub32 len (dv_decoded v + 3) = w + flat_len es" using pr(1) assms(6) sub32_small [of "dv_decoded v + 3" len] by simp
  have bas: "qmi_decode_basic_elem (dv_out v) (base + offset e) inb (dv_src v + 3) dl (elem_size e) (w + flat_len es) = Some (Inr w, buf_put (dv_out v) (base + offset e) fld)"
    using decode_basic_ok [of "base + offset e" dl "elem_size e" "dv_out v" "dv_src v + 3" "w + flat_len es" inb] dl(2) w pr assms(2) parts(2) by (simp add: w_def)
  have u: "dec_update w (v1\<lparr>dv_out := buf_put (dv_out v) (base + offset e) fld, dv_data_len := dl\<rparr>) = v2"
    using pr(1) assms(6) by (simp add: dec_update_def v2_def v1_def add32_small)
  have el: "decode_elem (all @ [eoti]) (e # es @ [eoti]) w v1 base inb len 1 = decode_loop (all @ [eoti]) (es @ [eoti]) v2 base inb len 1"
    using fe(2) dl bas sub u by (subst decode_elem.simps) (simp add: decode_flag_def decode_data_len_def basic_cases v1_def is_basic_def split: qmi_elem_type.splits)
  have "decode_loop (all @ [eoti]) tei v base inb len 1 = decode_elem (all @ [eoti]) (e # es @ [eoti]) w v1 base inb len 1"
    using tlv pr(1) by (subst decode_loop.simps) simp
  also have "\<dots> = Some (Inr len, put_fields s sbase base es (dv_out v2))"
    unfolding el using Cons.prems(1) pr parts w assms(2) lf by (intro Cons.IH [of "xs @ [e]"]) (simp_all add: v2_def v1_def)
  finally show ?case by (simp add: v2_def put_fields_def fld_def)
qed

lemma put_fields_nth:
  "list_all (flat_elem n) es \<Longrightarrow> n \<le> length s \<Longrightarrow> n \<le> length out \<Longrightarrow>
   length (put_fields s 0 0 es out) = length out \<and>
   (\<forall>i < length out. put_fields s 0 0 es out ! i = (if \<exists>e \<in> set es. offset e \<le> i \<and> i < offset e + elem_width e then s ! i else out ! i))"
proof (induction es arbitrary: out)
  case Nil
  then show ?case by (simp add: put_fields_def)
next
  case (Cons e es)
  have fe: "flat_elem n e" using Cons.prems(1) by simp
  then have w: "offset e + elem_width e \<le> n" by (simp add: flat_elem_def)
  have lf: "length (elem_field s 0 e) = elem_width e" using length_elem_field [OF fe, of 0 s] Cons.prems(2) by simp
  define out1 where "out1 = buf_put out (offset e) (elem_field s 0 e)"
  have l1: "length out1 = length out" using lf w Cons.prems(3) by (simp add: out1_def)
  have n1: "out1 ! i = (if offset e \<le> i \<and> i < offset e + elem_width e then s ! i else out ! i)" if "i < length out" for i
    using that lf w Cons.prems(2,3) by (auto simp: out1_def nth_buf_put elem_field_def buf_get_def)
  show ?case using Cons.IH [of out1] Cons.prems l1 n1 by (auto simp: put_fields_def out1_def)
qed

lemma put_fields_get:
  assumes "list_all (flat_elem n) es" "n \<le> length s" "n \<le> length out" "e \<in> set es"
  shows "elem_field (put_fields s 0 0 es out) 0 e = elem_field s 0 e"
proof -
  have w: "offset e + elem_width e \<le> n" using assms(1,4) by (auto simp: list_all_iff flat_elem_def)
  note pn = put_fields_nth [OF assms(1-3)]
  show ?thesis unfolding elem_field_def using w pn assms(2-4) by (intro nth_equalityI) (auto simp: buf_get_def)
qed

lemma flat_min_len: "list_all (flat_elem n) es \<Longrightarrow> data_type eoti = QMI_EOTI \<Longrightarrow> min_len (es @ [eoti]) 1 = Some (flat_len es)"
  by (induction es) (auto simp: flat_elem_def basic_cases flat_len_def elem_width_def TLV_SIZE_def is_basic_def split: qmi_elem_type.splits)

lemma encode_message_flat:
  assumes "flat n es ei" "n \<le> length s" "flat_len es \<le> len" "len < 2 ^ 32"
  shows "qmi_encode_message True type msg_id len txn_id (Some ei) (Some s) =
     Some (Inr (qmi_header type txn_id msg_id (flat_len es) @ tlvs s 0 es @ replicate (len - flat_len es) 0, 7 + flat_len es))"
proof -
  obtain eoti where e: "ei = es @ [eoti]" "data_type eoti = QMI_EOTI" and fe: "list_all (flat_elem n) es" using assms(1) by (auto simp: flat_def)
  define v where "v = \<lparr>ev_out = replicate (7 + len) (0 :: byte), ev_dst = 7 + TLV_SIZE, ev_tlv = 7, ev_tlv_len = 0, ev_encoded = 0\<rparr>"
  have lt: "length (tlvs s 0 es) = flat_len es" using length_tlvs [OF fe, of 0 s] assms(2) by simp
  have "encode_loop (es @ [eoti]) v 0 s 0 len 1 = Some (Inr (flat_len es), buf_put (replicate (7 + len) 0) 7 (tlvs s 0 es))"
    using encode_flat [of 0 n s eoti es v len 0] e fe assms by (simp add: v_def TLV_SIZE_def)
  moreover have "mem_put (buf_put (replicate (7 + len) 0) 7 (tlvs s 0 es)) 0 (qmi_header type txn_id msg_id (flat_len es)) =
      Some (qmi_header type txn_id msg_id (flat_len es) @ tlvs s 0 es @ replicate (len - flat_len es) 0)"
    using lt assms(3) by (simp add: mem_put_def buf_put_def qmi_header_def)
  ultimately show ?thesis using e assms(4) by (simp add: qmi_encode_message_def QMI_HEADER_SIZE_def v_def)
qed

lemma decode_message_flat:
  assumes "flat n es ei" "n \<le> length s" "n \<le> length s0" "length h = 7" "7 + flat_len es < 2 ^ 32"
  shows "qmi_decode_message (Some (h @ tlvs s 0 es @ rest)) (7 + flat_len es) (Some ei) (Some s0) = Some (Inr (flat_len es), Some (put_fields s 0 0 es s0))"
proof -
  obtain eoti where e: "ei = es @ [eoti]" "data_type eoti = QMI_EOTI" and fe: "list_all (flat_elem n) es" "distinct (map tlv_type es)"
    using assms(1) by (auto simp: flat_def)
  have lt: "length (tlvs s 0 es) = flat_len es" using length_tlvs [OF fe(1), of 0 s] assms(2) by simp
  have "sub32 (7 + flat_len es) 7 = flat_len es" using sub32_small [of 7 "7 + flat_len es"] assms(5) by simp
  moreover have "decode_loop ei ei \<lparr>dv_out = s0, dv_src = 7, dv_decoded = 0, dv_data_len = 0\<rparr> 0 (h @ tlvs s 0 es @ rest) (flat_len es) 1 =
      Some (Inr (flat_len es), put_fields s 0 0 es s0)"
    unfolding e using decode_flat [OF e(2), of 0 n s0 0 s es "flat_len es" "[]" es] fe assms lt by (simp add: buf_get_def)
  ultimately show ?thesis by (simp add: qmi_decode_message_def QMI_HEADER_SIZE_def)
qed

section \<open>Properties\<close>


text \<open>A response: a nested result code, and an optional array of at most eight 16-bit numbers with its length.\<close>

definition example_ei :: "qmi_elem_info list" where
  "example_ei =
     [Elem QMI_STRUCT 1 4 NO_ARRAY 2 0 (Some qmi_response_type_v01_ei),
      Elem QMI_OPT_FLAG 1 1 NO_ARRAY 16 4 None,
      Elem QMI_DATA_LEN 1 1 NO_ARRAY 16 8 None,
      Elem QMI_UNSIGNED_2_BYTE 8 2 VAR_LEN_ARRAY 16 12 None,
      Elem QMI_EOTI 0 0 NO_ARRAY 0 0 None]"


text \<open>
  C7: A flat structure survives the message: encoding it succeeds when the buffer is large enough, and decoding
  the message into any other structure gives back every field the description names and keeps every other byte.
\<close>

theorem qmi_flat_roundtrip:
  assumes "flat n es ei" "n \<le> length s" "n \<le> length s0" "flat_len es \<le> len" "len + 7 < 2 ^ 32"
  shows "\<exists>msg k s1. qmi_encode_message True type msg_id len txn_id (Some ei) (Some s) = Some (Inr (msg, k)) \<and>
     qmi_decode_message (Some msg) k (Some ei) (Some s0) = Some (Inr (k - 7), Some s1) \<and> length s1 = length s0 \<and>
     (\<forall>e \<in> set es. elem_field s1 0 e = elem_field s 0 e) \<and>
     (\<forall>i < length s0. (\<forall>e \<in> set es. i < offset e \<or> offset e + elem_width e \<le> i) \<longrightarrow> s1 ! i = s0 ! i)"
proof -
  have fe: "list_all (flat_elem n) es" using assms(1) by (simp add: flat_def)
  define msg where "msg = qmi_header type txn_id msg_id (flat_len es) @ tlvs s 0 es @ replicate (len - flat_len es) 0"
  have "qmi_encode_message True type msg_id len txn_id (Some ei) (Some s) = Some (Inr (msg, 7 + flat_len es))"
    using encode_message_flat [OF assms(1,2,4)] assms(5) by (simp add: msg_def)
  moreover have "qmi_decode_message (Some msg) (7 + flat_len es) (Some ei) (Some s0) = Some (Inr (flat_len es), Some (put_fields s 0 0 es s0))"
    unfolding msg_def using assms by (intro decode_message_flat) (simp_all add: qmi_header_def)
  moreover note put_fields_nth [OF fe assms(2,3)]
  moreover have "\<forall>e \<in> set es. elem_field (put_fields s 0 0 es s0) 0 e = elem_field s 0 e" using put_fields_get [OF fe assms(2,3)] by simp
  ultimately show ?thesis by (intro exI [of _ msg] exI [of _ "7 + flat_len es"] exI [of _ "put_fields s 0 0 es s0"]) fastforce
qed

definition pair_elems :: "qmi_elem_info list" where
  "pair_elems = [Elem QMI_UNSIGNED_4_BYTE 1 4 NO_ARRAY 1 4 None, Elem QMI_UNSIGNED_2_BYTE 2 2 STATIC_ARRAY 2 0 None]"

definition pair_ei :: "qmi_elem_info list" where
  "pair_ei = pair_elems @ [Elem QMI_EOTI 0 0 NO_ARRAY 0 0 None]"

lemma flat_pair: "flat 8 pair_elems pair_ei"
  by (auto simp: flat_def pair_ei_def pair_elems_def flat_elem_def is_basic_def elem_width_def)

lemma flat_len_pair: "flat_len pair_elems = 14" by (simp add: flat_len_def pair_elems_def elem_width_def)

theorem qmi_flat_roundtrip_witness:
  "\<exists>msg k s1. qmi_encode_message True 0 32 14 5 (Some pair_ei) (Some [1, 2, 3, 4, 5, 6, 7, 8]) = Some (Inr (msg, k)) \<and>
     qmi_decode_message (Some msg) k (Some pair_ei) (Some (replicate 8 0)) = Some (Inr (k - 7), Some s1) \<and> length s1 = 8 \<and>
     (\<forall>e \<in> set pair_elems. elem_field s1 0 e = elem_field [1, 2, 3, 4, 5, 6, 7, 8] 0 e)"
  using qmi_flat_roundtrip [OF flat_pair, of "[1, 2, 3, 4, 5, 6, 7, 8]" "replicate 8 0" 14 0 32 5] flat_len_pair by auto

text \<open>
  C31: For a flat description the length the encoder reports, beyond the header, is the minimum message length
  computed from the description alone.
\<close>

theorem qmi_flat_length_is_minimum:
  assumes "flat n es ei" "n \<le> length s" "flat_len es \<le> len" "len < 2 ^ 32"
  shows "\<exists>msg m. qmi_calc_min_msg_len (Some ei) 1 = Some m \<and>
     qmi_encode_message True type msg_id len txn_id (Some ei) (Some s) = Some (Inr (msg, QMI_HEADER_SIZE + m))"
proof -
  obtain eoti where e: "ei = es @ [eoti]" "data_type eoti = QMI_EOTI" and fe: "list_all (flat_elem n) es" using assms(1) by (auto simp: flat_def)
  have "qmi_calc_min_msg_len (Some ei) 1 = Some (flat_len es)" using flat_min_len [OF fe e(2)] e(1) assms by (simp add: qmi_calc_min_msg_len_def)
  then show ?thesis using encode_message_flat [OF assms] by (simp add: QMI_HEADER_SIZE_def)
qed

theorem qmi_flat_length_is_minimum_witness:
  "\<exists>msg m. qmi_calc_min_msg_len (Some pair_ei) 1 = Some m \<and>
     qmi_encode_message True 0 32 20 5 (Some pair_ei) (Some [1, 2, 3, 4, 5, 6, 7, 8]) = Some (Inr (msg, QMI_HEADER_SIZE + m))"
  using qmi_flat_length_is_minimum [OF flat_pair, of "[1, 2, 3, 4, 5, 6, 7, 8]" 20 0 32 5] flat_len_pair by auto

end
