(* ===== verification/Qmi_Encode.thy ===== *)
theory Qmi_Encode
  imports Qmi_Encdec
begin

text \<open>
  The encoder of QMI messages stays inside its buffer (\<^verbatim>\<open>drivers/soc/qcom/qmi_encdec.c\<close>).  A structure below
  the top level is encoded at the place of the value, three bytes behind the place of the header, but with the
  length of the whole rest of the buffer.  The checks of basic elements subtract these three bytes again; the
  check of a string below the top level does not.
\<close>

section \<open>Descriptions the encoder can follow\<close>

text \<open>The first element of a nested description always writes a byte.\<close>

definition solid :: "qmi_elem_info list \<Rightarrow> bool" where
  "solid es = (case es of [] \<Rightarrow> False | e # _ \<Rightarrow> data_type e \<notin> {QMI_EOTI, QMI_OPT_FLAG, QMI_STRING} \<and> 0 < elem_count e \<and> 0 < elem_size e)"

text \<open>
  All elements lie inside a structure of \<open>n\<close> bytes, the end mark comes last, an array length is followed by its
  array, nested structures are not empty, and strings occur only at the top level (\<open>outer\<close>).
\<close>

function enc_ok :: "qmi_elem_info list \<Rightarrow> nat \<Rightarrow> bool \<Rightarrow> bool" where
  "enc_ok [] n outer = False"
| "enc_ok (e # es) n outer = (if data_type e = QMI_EOTI then es = [] else
     (case data_type e of
        QMI_OPT_FLAG \<Rightarrow> offset e + 1 \<le> n
      | QMI_DATA_LEN \<Rightarrow> offset e + elem_size e \<le> n \<and> elem_size e \<le> 4 \<and> es \<noteq> [] \<and> data_type (hd es) \<noteq> QMI_EOTI
      | QMI_STRUCT \<Rightarrow> offset e + elem_count e * elem_size e \<le> n \<and> 0 < elem_count e \<and>
          (case ei_array e of None \<Rightarrow> False | Some sub \<Rightarrow> solid sub \<and> enc_ok sub (elem_size e) False)
      | QMI_STRING \<Rightarrow> outer \<and> elem_size e = 1 \<and> elem_len e < 2 ^ 31
      | _ \<Rightarrow> offset e + elem_count e * elem_size e \<le> n \<and> elem_count e * elem_size e < 2 ^ 31) \<and> enc_ok es n outer)"
  by pat_completeness auto
termination
proof (relation "measure (\<lambda>(es, n, outer). size_list size es)")
  fix e :: qmi_elem_info and es and n :: nat and outer and sub assume "ei_array e = Some sub"
  then show "((sub, elem_size e, False), e # es, n, outer) \<in> measure (\<lambda>(es, n, outer). size_list size es)" by (cases e) simp
qed auto

text \<open>The end mark has a type of its own, so that skipping an optional element stops there.\<close>

definition end_type :: "qmi_elem_info list \<Rightarrow> bool" where
  "end_type es \<longleftrightarrow> tlv_type (last es) \<notin> tlv_type ` set (butlast es)"

text \<open>The strings of the structure are terminated.\<close>

definition strings_end :: "qmi_elem_info list \<Rightarrow> byte list \<Rightarrow> nat \<Rightarrow> bool" where
  "strings_end es s base \<longleftrightarrow> list_all (\<lambda>e. data_type e = QMI_STRING \<longrightarrow> c_strlen s (base + offset e) \<noteq> None) es"

lemma skip_same_ok:
  "t \<noteq> tlv_type (last es) \<Longrightarrow> es \<noteq> [] \<Longrightarrow> \<exists>es'. skip_same t es = Some es' \<and> es' \<noteq> [] \<and> (\<exists>ps. es = ps @ es')"
proof (induction es)
  case (Cons e es)
  show ?case
  proof (cases "tlv_type e = t")
    case True
    then have ne: "es \<noteq> []" using Cons.prems by auto
    then obtain es' ps where "skip_same t es = Some es'" "es' \<noteq> []" "es = ps @ es'" using Cons by auto
    then show ?thesis using True by (auto intro!: exI [of _ "e # ps"])
  qed auto
qed simp

lemma enc_ok_suffix: "enc_ok (ps @ es) n outer \<Longrightarrow> es \<noteq> [] \<Longrightarrow> enc_ok es n outer"
  by (induction ps) (auto split: if_splits)

lemma end_type_suffix: "end_type (ps @ es) \<Longrightarrow> es \<noteq> [] \<Longrightarrow> end_type es"
  by (auto simp: end_type_def butlast_append)

lemma strings_end_suffix: "strings_end (ps @ es) s base \<Longrightarrow> strings_end es s base"
  by (simp add: strings_end_def)

lemma enc_ok_last: "enc_ok es n outer \<Longrightarrow> es \<noteq> [] \<and> data_type (last es) = QMI_EOTI"
  by (induction es) (auto split: if_splits)

lemma skip_ok:
  assumes "enc_ok (e # es) n (level = 1)" "data_type e \<noteq> QMI_EOTI" "level = 1 \<Longrightarrow> end_type (e # es)" "1 \<le> level"
  shows "\<exists>es'. skip_to_next_elem (e # es) level = Some es' \<and> es' \<noteq> [] \<and> length es' < length (e # es) \<and> (\<exists>ps. e # es = ps @ es')"
proof (cases "level = 1")
  case False
  then show ?thesis using assms by (auto intro!: exI [of _ "[e]"])
next
  case True
  have ne: "es \<noteq> []" using assms(1,2) by auto
  then have "tlv_type e \<noteq> tlv_type (last es)" using assms(3) [OF True] by (auto simp: end_type_def)
  then obtain es' ps where "skip_same (tlv_type e) es = Some es'" "es' \<noteq> []" "es = ps @ es'" using skip_same_ok ne by blast
  then show ?thesis using True by (auto intro!: exI [of _ "e # ps"])
qed

section \<open>One element\<close>

text \<open>
  Between iterations, \<open>[lo, hi)\<close> is the part of the message this call may write.  Behind the bytes encoded so far
  there is room for the rest and the header.
\<close>

definition enc_inv :: "nat \<Rightarrow> nat \<Rightarrow> nat \<Rightarrow> nat \<Rightarrow> enc_vars \<Rightarrow> bool" where
  "enc_inv level lo hi len v \<longleftrightarrow> len < 2 ^ 31 \<and> hi \<le> length (ev_out v) \<and> lo \<le> ev_dst v \<and> ev_dst v + len \<le> hi + ev_encoded v + 3 \<and>
     ev_encoded v \<le> len \<and> (level = 1 \<longrightarrow> lo \<le> ev_tlv v \<and> ev_tlv v + 3 \<le> ev_dst v) \<and>
     (level \<noteq> 1 \<longrightarrow> 0 < ev_encoded v \<longrightarrow> ev_encoded v + 3 \<le> len)"

lemma enc_update_inv:
  assumes "enc_inv level lo hi len v" "same_out (ev_out v) lo hi out" "ev_encoded v + rc + 3 \<le> len"
  shows "enc_inv level lo hi len (enc_update rc out v) \<and> ev_encoded (enc_update rc out v) = ev_encoded v + rc"
proof -
  have "add32 (ev_encoded v) rc = ev_encoded v + rc" using assms by (intro add32_small) (simp add: enc_inv_def)
  then show ?thesis using assms by (auto simp: enc_inv_def enc_update_def same_out_def)
qed

lemma enc_close_inv:
  assumes "enc_inv level lo hi len v" "ev_encoded v + 3 \<le> len"
  shows "\<exists>v1. enc_close level t v = Some v1 \<and> enc_inv level lo hi len v1 \<and> same_out (ev_out v) lo hi (ev_out v1) \<and> ev_encoded v \<le> ev_encoded v1"
proof (cases "level = 1")
  case False
  then show ?thesis using assms by (simp add: enc_close_def)
next
  case True
  have a: "add32 (ev_encoded v) 3 = ev_encoded v + 3" using assms by (intro add32_small) (simp add: enc_inv_def)
  have p: "lo \<le> ev_tlv v" "ev_tlv v + 3 \<le> hi" "hi \<le> length (ev_out v)" using assms True by (auto simp: enc_inv_def)
  have h: "length (tlv_header t (ev_tlv_len v)) = 3" by (simp add: tlv_header_def)
  define out where "out = buf_put (ev_out v) (ev_tlv v) (tlv_header t (ev_tlv_len v))"
  have so: "same_out (ev_out v) lo hi out" unfolding out_def by (rule same_out_put) (use p h in auto)
  have mp: "mem_put (ev_out v) (ev_tlv v) (tlv_header t (ev_tlv_len v)) = Some out" using p h by (simp add: mem_put_def out_def)
  show ?thesis using True mp so a assms p by (auto simp: enc_close_def TLV_SIZE_def enc_inv_def same_out_def)
qed

text \<open>A value of \<open>rc\<close> bytes, and the header that follows it at the top level.\<close>

lemma enc_step:
  assumes "enc_inv level lo hi len v" "same_out (ev_out v) lo hi out" "ev_encoded v + rc + 3 \<le> len"
  shows "\<exists>v1. enc_close level t (enc_update rc out v) = Some v1 \<and> enc_inv level lo hi len v1 \<and>
     same_out (ev_out v) lo hi (ev_out v1) \<and> ev_encoded v + rc \<le> ev_encoded v1"
proof -
  note u = enc_update_inv [OF assms]
  obtain v1 where v1: "enc_close level t (enc_update rc out v) = Some v1" "enc_inv level lo hi len v1"
    "same_out (ev_out (enc_update rc out v)) lo hi (ev_out v1)" "ev_encoded (enc_update rc out v) \<le> ev_encoded v1"
    using enc_close_inv [of level lo hi len "enc_update rc out v" t] u assms(3) by auto
  have "same_out (ev_out v) lo hi (ev_out v1)" using v1(3) by (intro same_out_trans [OF assms(2)]) (simp add: enc_update_def)
  then show ?thesis using v1 u by auto
qed

lemma enc_basic:
  assumes "enc_inv level lo hi len v" "src + n * sz \<le> length inb" "ev_encoded v + n * sz + 3 \<le> len"
  shows "\<exists>out. qmi_encode_basic_elem (ev_out v) (ev_dst v) inb src n sz = Some (n * sz, out) \<and> same_out (ev_out v) lo hi out"
proof -
  have "ev_dst v + n * sz \<le> hi" "lo \<le> ev_dst v" "hi \<le> length (ev_out v)" "n * sz < 2 ^ 32" using assms by (auto simp: enc_inv_def)
  then show ?thesis using assms(2) encode_basic_block [of "ev_dst v" n sz "ev_out v" src inb] by (auto intro!: same_out_put)
qed

section \<open>Arrays of structures\<close>

text \<open>What the encoder of an array of structures needs of the encoder of one.\<close>

definition sub_enc :: "byte list \<Rightarrow> qmi_elem_info \<Rightarrow> bool" where
  "sub_enc inb e \<longleftrightarrow> (\<forall>out lo dst hi base len level. 2 \<le> level \<and> base + elem_size e \<le> length inb \<and> len < 2 ^ 31 \<and> hi \<le> length out \<and>
     lo \<le> dst \<and> dst + len \<le> hi + 3 \<longrightarrow>
     dec_safe out lo hi (\<lambda>k. 0 < k \<and> k + 3 \<le> len) (qmi_encode (ei_array e) out dst inb base len level))"

lemma sub_encD:
  "sub_enc inb e \<Longrightarrow> 2 \<le> level \<Longrightarrow> base + elem_size e \<le> length inb \<Longrightarrow> len < 2 ^ 31 \<Longrightarrow> hi \<le> length out \<Longrightarrow> lo \<le> dst \<Longrightarrow> dst + len \<le> hi + 3 \<Longrightarrow>
   dec_safe out lo hi (\<lambda>k. 0 < k \<and> k + 3 \<le> len) (qmi_encode (ei_array e) out dst inb base len level)"
  by (simp add: sub_enc_def)

lemma enc_structs:
  assumes sub: "sub_enc inb e" and lv: "2 \<le> level" and len: "len < 2 ^ 31"
  shows "src + n * elem_size e \<le> length inb \<Longrightarrow> hi \<le> length out \<Longrightarrow> lo \<le> dst \<Longrightarrow> dst + len \<le> hi + enc + 3 \<Longrightarrow> enc \<le> len \<Longrightarrow> (0 < enc \<longrightarrow> enc + 3 \<le> len) \<Longrightarrow>
    dec_safe out lo hi (\<lambda>k. enc \<le> k \<and> (0 < n \<longrightarrow> enc < k) \<and> (0 < k \<longrightarrow> k + 3 \<le> len)) (qmi_encode_struct_elem e out dst inb src n len level enc)"
proof (induction n arbitrary: out dst src enc)
  case 0
  then show ?case by (simp add: dec_safe_iff)
next
  case (Suc n)
  have s: "sub32 len enc = len - enc" using Suc.prems(5) len by (simp add: sub32_small)
  have "dec_safe out lo hi (\<lambda>k. 0 < k \<and> k + 3 \<le> len - enc) (qmi_encode (ei_array e) out dst inb src (len - enc) level)"
    by (rule sub_encD [OF sub]) (use lv len Suc.prems in auto)
  then obtain r out1 where r: "qmi_encode (ei_array e) out dst inb src (len - enc) level = Some (r, out1)"
    "same_out out lo hi out1" "\<And>k. r = Inr k \<Longrightarrow> 0 < k \<and> k + 3 \<le> len - enc" by (auto simp: dec_safe_iff)
  show ?case
  proof (cases r)
    case (Inl x)
    then show ?thesis using r s by (simp add: dec_safe_iff)
  next
    case (Inr rc)
    have rc: "0 < rc" "enc + rc + 3 \<le> len" using r(3) [OF Inr] by auto
    have a: "add32 enc rc = enc + rc" using rc len by (intro add32_small) simp
    have "dec_safe out1 lo hi (\<lambda>k. enc + rc \<le> k \<and> (0 < n \<longrightarrow> enc + rc < k) \<and> (0 < k \<longrightarrow> k + 3 \<le> len))
        (qmi_encode_struct_elem e out1 (dst + rc) inb (src + elem_size e) n len level (enc + rc))"
      by (rule Suc.IH) (use Suc.prems rc r(2) in \<open>auto simp: same_out_def\<close>)
    then have "dec_safe out1 lo hi (\<lambda>k. enc \<le> k \<and> (0 < Suc n \<longrightarrow> enc < k) \<and> (0 < k \<longrightarrow> k + 3 \<le> len))
        (qmi_encode_struct_elem e out1 (dst + rc) inb (src + elem_size e) n len level (enc + rc))"
      using rc(1) by (auto simp: dec_safe_iff)
    from dec_safe_after [OF r(2) this] show ?thesis using r(1) s Inr a by simp
  qed
qed

section \<open>The loop\<close>

text \<open>What the loop returns, from \<open>m\<close> bytes on; \<open>s\<close> tells that it has to write a byte.\<close>

definition enc_res :: "nat \<Rightarrow> nat \<Rightarrow> nat \<Rightarrow> bool \<Rightarrow> nat \<Rightarrow> bool" where
  "enc_res level len m s k \<longleftrightarrow> m \<le> k \<and> k \<le> len \<and> (level \<noteq> 1 \<longrightarrow> 0 < k \<longrightarrow> k + 3 \<le> len) \<and> (s \<longrightarrow> 0 < k)"

lemma dec_safe_weaken: "dec_safe out lo hi B r \<Longrightarrow> (\<And>k. B k \<Longrightarrow> B' k) \<Longrightarrow> dec_safe out lo hi B' r"
  by (auto simp: dec_safe_iff)

lemma enc_tail:
  assumes inv: "enc_inv level lo hi len v" and so: "same_out (ev_out v) lo hi out" and rc: "ev_encoded v + rc + 3 \<le> len" "s \<longrightarrow> 0 < rc"
    and loop: "\<And>v1. enc_inv level lo hi len v1 \<Longrightarrow> dec_safe (ev_out v1) lo hi (enc_res level len (ev_encoded v1) False) (encode_loop es v1 dl inb base len level)"
  shows "dec_safe (ev_out v) lo hi (enc_res level len (ev_encoded v) s)
    (do { v1 \<leftarrow> enc_close level t (enc_update rc out v); encode_loop es v1 dl inb base len level })"
proof -
  obtain v1 where v1: "enc_close level t (enc_update rc out v) = Some v1" "enc_inv level lo hi len v1" "same_out (ev_out v) lo hi (ev_out v1)"
    "ev_encoded v + rc \<le> ev_encoded v1" using enc_step [OF inv so rc(1)] by blast
  have "dec_safe (ev_out v1) lo hi (enc_res level len (ev_encoded v) s) (encode_loop es v1 dl inb base len level)"
    by (rule dec_safe_weaken [OF loop [OF v1(2)]]) (use v1(4) rc(2) in \<open>auto simp: enc_res_def\<close>)
  then show ?thesis using v1(1) dec_safe_after [OF v1(3)] by simp
qed

lemma enc_count: "data_len e dlv = Some dl \<Longrightarrow> dl \<le> elem_count e \<and> (0 < elem_count e \<longrightarrow> 0 < dl)"
  by (auto simp: data_len_def elem_count_def split: qmi_array_type.splits if_splits)

lemma enc_string:
  assumes inv: "enc_inv 1 lo hi len v" and s: "c_strlen inb src \<noteq> None" "elem_size e = 1"
  shows "dec_safe (ev_out v) lo hi (\<lambda>k. ev_encoded v + k + 3 \<le> len) (qmi_encode_string_elem e (ev_out v) (ev_dst v) inb src (sub32 len (ev_encoded v)) 1)"
proof -
  obtain sl where sl: "c_strlen inb src = Some sl" "src + sl \<le> length inb" using s(1) by (auto simp: c_strlen_def Let_def split: if_splits)
  have l: "sub32 len (ev_encoded v) = len - ev_encoded v" "ev_encoded v \<le> len" using inv by (auto simp: enc_inv_def sub32_small)
  show ?thesis
  proof (cases "sl > elem_len e \<or> sl + 3 > len - ev_encoded v")
    case True
    then show ?thesis using sl l by (auto simp: qmi_encode_string_elem_def TLV_SIZE_def dec_safe_iff)
  next
    case False
    then have "ev_encoded v + sl + 3 \<le> len" using l(2) by linarith
    then show ?thesis using False sl l s(2) enc_basic [OF inv, of src sl 1 inb] by (auto simp: qmi_encode_string_elem_def TLV_SIZE_def dec_safe_iff)
  qed
qed

lemma enc_struct:
  assumes inv: "enc_inv level lo hi len v" and sub: "sub_enc inb e" and src: "src + dl * elem_size e \<le> length inb" "0 < dl" and lv: "1 \<le> level"
  shows "dec_safe (ev_out v) lo hi (\<lambda>k. 0 < k \<and> ev_encoded v + k + 3 \<le> len)
    (qmi_encode_struct_elem e (ev_out v) (ev_dst v) inb src dl (sub32 len (ev_encoded v)) (level + 1) 0)"
proof -
  have l: "sub32 len (ev_encoded v) = len - ev_encoded v" "ev_encoded v \<le> len" "len < 2 ^ 31" using inv by (auto simp: enc_inv_def sub32_small)
  have "dec_safe (ev_out v) lo hi (\<lambda>k. 0 \<le> k \<and> (0 < dl \<longrightarrow> 0 < k) \<and> (0 < k \<longrightarrow> k + 3 \<le> len - ev_encoded v))
    (qmi_encode_struct_elem e (ev_out v) (ev_dst v) inb src dl (len - ev_encoded v) (level + 1) 0)"
    by (rule enc_structs [OF sub]) (use inv src lv l in \<open>auto simp: enc_inv_def\<close>)
  then show ?thesis unfolding l(1) by (rule dec_safe_weaken) (use src(2) l(2) in auto)
qed

text \<open>The tail of a value whose encoding may fail.\<close>

lemma enc_value_tail:
  assumes inv: "enc_inv level lo hi len v" and val: "dec_safe (ev_out v) lo hi (\<lambda>k. (s \<longrightarrow> 0 < k) \<and> ev_encoded v + k + 3 \<le> len) val"
    and loop: "\<And>v1. enc_inv level lo hi len v1 \<Longrightarrow> dec_safe (ev_out v1) lo hi (enc_res level len (ev_encoded v1) False) (encode_loop es v1 dl inb base len level)"
  shows "dec_safe (ev_out v) lo hi (enc_res level len (ev_encoded v) s) (do { (r, out) \<leftarrow> val; case r of Inl x \<Rightarrow> Some (Inl x, out)
    | Inr rc \<Rightarrow> do { v1 \<leftarrow> enc_close level t (enc_update rc out v); encode_loop es v1 dl inb base len level } })"
proof -
  obtain r out where v: "val = Some (r, out)" "same_out (ev_out v) lo hi out" "\<And>k. r = Inr k \<Longrightarrow> (s \<longrightarrow> 0 < k) \<and> ev_encoded v + k + 3 \<le> len"
    using val by (auto simp: dec_safe_iff)
  show ?thesis
  proof (cases r)
    case (Inl x)
    then show ?thesis using v by (simp add: dec_safe_iff)
  next
    case (Inr rc)
    then show ?thesis using v(1) v(3) [OF Inr] enc_tail [OF inv v(2) _ _ loop, of rc s t] by simp
  qed
qed

text \<open>The length of an array: its bytes are written, and an empty array ends the element.\<close>

lemma enc_data_len:
  assumes inv: "enc_inv level lo hi len v" and src: "src + elem_size e \<le> length inb" "elem_size e \<le> 4" and s: "s \<longrightarrow> True"
    and skip: "\<exists>es'. skip_to_next_elem es level = Some es' \<and> P es'" and es: "P es"
    and loop: "\<And>es' v1 dl. P es' \<Longrightarrow> enc_inv level lo hi len v1 \<Longrightarrow> dec_safe (ev_out v1) lo hi (enc_res level len (ev_encoded v1) False) (encode_loop es' v1 dl inb base len level)"
  shows "dec_safe (ev_out v) lo hi (enc_res level len (ev_encoded v) s) (do {
      b \<leftarrow> mem_get inb src (elem_size e);
      w \<leftarrow> mem_put (nat_to_le 4 dl) 0 b;
      if add32 (data_len_sz e) (ev_encoded v) + TLV_SIZE > len then Some (Inl ETOOSMALL, ev_out v)
      else do {
        (rc, out) \<leftarrow> qmi_encode_basic_elem (ev_out v) (ev_dst v) w 0 1 (data_len_sz e);
        if le_to_nat w = 0 then do {
          es' \<leftarrow> skip_to_next_elem es level;
          v1 \<leftarrow> enc_close level (tlv_type e) (enc_update rc out v);
          encode_loop es' v1 (le_to_nat w) inb base len level
        }
        else encode_loop es (enc_update rc out v) (le_to_nat w) inb base len level
      } })"
proof -
  define b where "b = buf_get inb src (elem_size e)"
  define w where "w = buf_put (nat_to_le 4 dl) 0 b"
  have b: "mem_get inb src (elem_size e) = Some b" "mem_put (nat_to_le 4 dl) 0 b = Some w" "length w = 4"
    using src by (auto simp: b_def w_def mem_get_def mem_put_def)
  have sz: "0 < data_len_sz e" "data_len_sz e \<le> 2" by (auto simp: data_len_sz_def)
  have a: "add32 (data_len_sz e) (ev_encoded v) = data_len_sz e + ev_encoded v" using inv sz by (intro add32_small) (simp add: enc_inv_def)
  show ?thesis
  proof (cases "data_len_sz e + ev_encoded v + TLV_SIZE > len")
    case True
    then show ?thesis using b a by (simp add: dec_safe_iff)
  next
    case False
    then have f: "ev_encoded v + data_len_sz e + 3 \<le> len" by (simp add: TLV_SIZE_def)
    obtain out where o: "qmi_encode_basic_elem (ev_out v) (ev_dst v) w 0 1 (data_len_sz e) = Some (data_len_sz e, out)" "same_out (ev_out v) lo hi out"
      using enc_basic [OF inv, of 0 1 "data_len_sz e" w] sz b(3) f by auto
    obtain es' where es': "skip_to_next_elem es level = Some es'" "P es'" using skip by blast
    define u where "u = enc_update (data_len_sz e) out v"
    have u: "enc_inv level lo hi len u" "ev_encoded u = ev_encoded v + data_len_sz e" "ev_out u = out" using enc_update_inv [OF inv o(2) f] by (auto simp: u_def enc_update_def)
    have 1: "dec_safe (ev_out v) lo hi (enc_res level len (ev_encoded v) s) (do { v1 \<leftarrow> enc_close level (tlv_type e) u; encode_loop es' v1 0 inb base len level })"
      unfolding u_def by (rule enc_tail [OF inv o(2) f]) (use sz loop [OF es'(2)] in auto)
    have "dec_safe out lo hi (enc_res level len (ev_encoded v) s) (encode_loop es u (le_to_nat w) inb base len level)"
      using dec_safe_weaken [OF loop [OF es u(1)], of "enc_res level len (ev_encoded v) s"] u sz(1) by (auto simp: enc_res_def)
    note 2 = dec_safe_after [OF o(2) this]
    show ?thesis
    proof (cases "le_to_nat w = 0")
      case True
      then show ?thesis using b a False o es'(1) 1 by (simp add: u_def del: qmi_encode_basic_elem.simps)
    next
      case False
      then show ?thesis using b a \<open>\<not> data_len_sz e + ev_encoded v + TLV_SIZE > len\<close> o 2 by (simp add: u_def del: qmi_encode_basic_elem.simps)
    qed
  qed
qed

lemma enc_basic_tail:
  assumes inv: "enc_inv level lo hi len v" and src: "src + dl * elem_size e \<le> length inb" "dl * elem_size e < 2 ^ 31" and s: "s \<longrightarrow> 0 < dl * elem_size e"
    and loop: "\<And>v1. enc_inv level lo hi len v1 \<Longrightarrow> dec_safe (ev_out v1) lo hi (enc_res level len (ev_encoded v1) False) (encode_loop es v1 dl inb base len level)"
  shows "dec_safe (ev_out v) lo hi (enc_res level len (ev_encoded v) s)
        (if add32 (mul32 dl (elem_size e)) (ev_encoded v) + TLV_SIZE > len then Some (Inl ETOOSMALL, ev_out v)
         else do { (rc, out) \<leftarrow> qmi_encode_basic_elem (ev_out v) (ev_dst v) inb src dl (elem_size e);
           v1 \<leftarrow> enc_close level (tlv_type e) (enc_update rc out v); encode_loop es v1 dl inb base len level })"
proof -
  define m where "m = dl * elem_size e"
  have m: "mul32 dl (elem_size e) = m" using src(2) by (simp add: mul32_small m_def)
  have a: "add32 m (ev_encoded v) = m + ev_encoded v" using inv src(2) by (intro add32_small) (simp add: enc_inv_def m_def)
  show ?thesis
  proof (cases "m + ev_encoded v + TLV_SIZE > len")
    case True
    then show ?thesis using a m by (simp add: dec_safe_iff)
  next
    case False
    then have f: "ev_encoded v + m + 3 \<le> len" by (simp add: TLV_SIZE_def)
    obtain out where o: "qmi_encode_basic_elem (ev_out v) (ev_dst v) inb src dl (elem_size e) = Some (m, out)" "same_out (ev_out v) lo hi out"
      using enc_basic [OF inv src(1)] f by (auto simp: m_def)
    show ?thesis using enc_tail [OF inv o(2) f s [folded m_def] loop] o(1) False a m by simp
  qed
qed

lemma enc_loop:
  assumes sub: "\<And>e. e \<in> set all \<Longrightarrow> data_type e = QMI_STRUCT \<Longrightarrow> sub_enc inb e" and lv: "1 \<le> level" and base: "base + n \<le> length inb"
  shows "set es \<subseteq> set all \<Longrightarrow> enc_ok es n (level = 1) \<Longrightarrow> (level = 1 \<longrightarrow> end_type es) \<Longrightarrow> strings_end es inb base \<Longrightarrow> enc_inv level lo hi len v \<Longrightarrow>
    dec_safe (ev_out v) lo hi (enc_res level len (ev_encoded v) (solid es)) (encode_loop es v dlv inb base len level)"
proof (induction "length es" arbitrary: es v dlv rule: less_induct)
  case less
  note [simp del] = encode_loop.simps(2)
  obtain e es1 where es: "es = e # es1" using less.prems(2) by (cases es) auto
  note inv = less.prems(5)
  show ?case
  proof (cases "data_type e = QMI_EOTI \<or> data_len e dlv = None")
    case True
    then show ?thesis using es inv by (auto simp: encode_loop.simps(2) dec_safe_iff enc_res_def solid_def enc_inv_def)
  next
    case False
    then obtain dl where ne: "data_type e \<noteq> QMI_EOTI" and dl: "data_len e dlv = Some dl" by blast
    define P where "P es' \<longleftrightarrow> es' \<noteq> [] \<and> length es' < length es \<and> (\<exists>ps. es = ps @ es')" for es'
    have loop: "dec_safe (ev_out v1) lo hi (enc_res level len (ev_encoded v1) False) (encode_loop es' v1 d inb base len level)"
      if P: "P es'" and i: "enc_inv level lo hi len v1" for es' v1 d
    proof -
      obtain ps where ps: "es = ps @ es'" "es' \<noteq> []" "length es' < length es" using P unfolding P_def by blast
      have "dec_safe (ev_out v1) lo hi (enc_res level len (ev_encoded v1) (solid es')) (encode_loop es' v1 d inb base len level)"
        by (rule less.hyps) (use ps less.prems i enc_ok_suffix [of ps es' n "level = 1"] end_type_suffix [of ps es'] strings_end_suffix [of ps es'] in auto)
      then show ?thesis by (rule dec_safe_weaken) (simp add: enc_res_def)
    qed
    have P1: "P es1" using less.prems(2) ne es by (auto simp: P_def intro!: exI [of _ "[e]"])
    have skip: "\<exists>es'. skip_to_next_elem es level = Some es' \<and> P es'"
      using skip_ok [of e es1 n level] less.prems(2,3) ne es lv by (auto simp: P_def)
    note cnt = enc_count [OF dl]
    have cm: "dl * elem_size e \<le> elem_count e * elem_size e" using cnt by simp
    have basic: "dec_safe (ev_out v) lo hi (enc_res level len (ev_encoded v) (solid es))
        (if add32 (mul32 dl (elem_size e)) (ev_encoded v) + TLV_SIZE > len then Some (Inl ETOOSMALL, ev_out v)
         else do { (rc, out) \<leftarrow> qmi_encode_basic_elem (ev_out v) (ev_dst v) inb (base + offset e) dl (elem_size e);
           v1 \<leftarrow> enc_close level (tlv_type e) (enc_update rc out v); encode_loop es1 v1 dl inb base len level })"
      if "offset e + elem_count e * elem_size e \<le> n" "elem_count e * elem_size e < 2 ^ 31"
    proof (rule enc_basic_tail [OF inv _ _ _ loop [OF P1]])
      show "base + offset e + dl * elem_size e \<le> length inb" "dl * elem_size e < 2 ^ 31" using that cm base by linarith+
    qed (use cnt es in \<open>auto simp: solid_def\<close>)
    show ?thesis
    proof (cases "data_type e")
      case QMI_OPT_FLAG
      have m: "mem_get inb (base + offset e) 1 = Some (buf_get inb (base + offset e) 1)" using less.prems(2) QMI_OPT_FLAG es base by (simp add: mem_get_def)
      obtain es' where es': "skip_to_next_elem (e # es1) level = Some es'" "P es'" using skip es by auto
      show ?thesis using QMI_OPT_FLAG dl m es' loop [OF P1 inv] loop [OF es'(2) inv] by (simp add: es encode_loop.simps(2) Let_def solid_def)
    next
      case QMI_DATA_LEN
      have q: "base + offset e + elem_size e \<le> length inb" "elem_size e \<le> 4" using less.prems(2) QMI_DATA_LEN es base by auto
      have "\<exists>es'. skip_to_next_elem es1 level = Some es' \<and> P es'"
      proof -
        obtain e2 es2 where e2: "es1 = e2 # es2" "data_type e2 \<noteq> QMI_EOTI" using less.prems(2) QMI_DATA_LEN es by (cases es1) auto
        have ok1: "enc_ok es1 n (level = 1)" "level = 1 \<longrightarrow> end_type es1" using P1 es less.prems enc_ok_suffix [of "[e]" es1] end_type_suffix [of "[e]" es1] by (auto simp: P_def)
        obtain es' ps where "skip_to_next_elem es1 level = Some es'" "es' \<noteq> []" "length es' < length es1" "es1 = ps @ es'"
          using skip_ok [of e2 es2 n level] ok1 e2 lv by auto
        then show ?thesis using es by (auto simp: P_def intro!: exI [of _ "e # ps"])
      qed
      from enc_data_len [OF inv q _ this P1 loop, of "solid es" dl] show ?thesis using QMI_DATA_LEN dl by (simp add: es encode_loop.simps(2) Let_def)
    next
      case QMI_STRUCT
      have o: "offset e + elem_count e * elem_size e \<le> n" "0 < elem_count e" using less.prems(2) QMI_STRUCT es by auto
      have q: "base + offset e + dl * elem_size e \<le> length inb" "0 < dl" using o cm base cnt by (linarith, simp)
      have "sub_enc inb e" using sub less.prems(1) es QMI_STRUCT by auto
      from enc_struct [OF inv this q lv] have val: "dec_safe (ev_out v) lo hi (\<lambda>k. (solid es \<longrightarrow> 0 < k) \<and> ev_encoded v + k + 3 \<le> len)
          (qmi_encode_struct_elem e (ev_out v) (ev_dst v) inb (base + offset e) dl (sub32 len (ev_encoded v)) (level + 1) 0)"
        by (rule dec_safe_weaken) auto
      from enc_value_tail [OF inv val loop [OF P1]] show ?thesis using QMI_STRUCT dl by (simp add: es encode_loop.simps(2) Let_def)
    next
      case QMI_STRING
      have q: "level = 1" "elem_size e = 1" "c_strlen inb (base + offset e) \<noteq> None" using less.prems(2,4) QMI_STRING es by (auto simp: strings_end_def)
      from enc_string [OF inv [unfolded q(1)] q(3,2)] have val: "dec_safe (ev_out v) lo hi (\<lambda>k. (solid es \<longrightarrow> 0 < k) \<and> ev_encoded v + k + 3 \<le> len)
          (qmi_encode_string_elem e (ev_out v) (ev_dst v) inb (base + offset e) (sub32 len (ev_encoded v)) level)"
        unfolding q(1) by (rule dec_safe_weaken) (use QMI_STRING es in \<open>auto simp: solid_def\<close>)
      from enc_value_tail [OF inv val loop [OF P1]] show ?thesis using QMI_STRING dl by (simp add: es encode_loop.simps(2) Let_def)
    qed (use ne dl less.prems(2) basic in \<open>simp_all add: es encode_loop.simps(2) Let_def\<close>)
  qed
qed

lemma enc_ok_sub: "enc_ok es n outer \<Longrightarrow> e \<in> set es \<Longrightarrow> data_type e = QMI_STRUCT \<Longrightarrow>
    \<exists>sub. ei_array e = Some sub \<and> solid sub \<and> enc_ok sub (elem_size e) False"
  by (induction es) (auto split: if_splits option.splits)

lemma enc_ok_no_strings: "enc_ok es n False \<Longrightarrow> strings_end es s base"
  by (induction es) (auto simp: strings_end_def split: if_splits)

lemma qmi_encode_safe:
  assumes "enc_ok ei n (level = 1)" "base + n \<le> length inb" "1 \<le> level" "level = 1 \<longrightarrow> end_type ei" "strings_end ei inb base"
    "len < 2 ^ 31" "hi \<le> length out" "lo \<le> dst" "dst + (if level = 1 then 3 else 0) + len \<le> hi + 3"
  shows "dec_safe out lo hi (enc_res level len 0 (solid ei)) (qmi_encode (Some ei) out dst inb base len level)"
  using assms
proof (induction "size_list size ei" arbitrary: ei n level out lo hi dst base len rule: less_induct)
  case less
  have sub: "sub_enc inb e" if e: "e \<in> set ei" "data_type e = QMI_STRUCT" for e
    unfolding sub_enc_def
  proof (intro allI impI, elim conjE)
    fix out' :: "byte list" and lo' dst' hi' base' len' level' :: nat
    assume a: "2 \<le> level'" "base' + elem_size e \<le> length inb" "len' < 2 ^ 31" "hi' \<le> length out'" "lo' \<le> dst'" "dst' + len' \<le> hi' + 3"
    obtain sub where s: "ei_array e = Some sub" "solid sub" "enc_ok sub (elem_size e) False" using enc_ok_sub [OF less.prems(1) e] by blast
    have "dec_safe out' lo' hi' (enc_res level' len' 0 (solid sub)) (qmi_encode (Some sub) out' dst' inb base' len' level')"
      using less.hyps [OF sub_size_mem [OF e(1) s(1)], of "elem_size e" level' base' len' hi' out' lo' dst'] a s(3) enc_ok_no_strings [OF s(3)] by simp
    then show "dec_safe out' lo' hi' (\<lambda>k. 0 < k \<and> k + 3 \<le> len') (qmi_encode (ei_array e) out' dst' inb base' len' level')"
      unfolding s(1) by (rule dec_safe_weaken) (use s(2) a(1) in \<open>auto simp: enc_res_def\<close>)
  qed
  define v where "v = \<lparr>ev_out = out, ev_dst = dst + (if level = 1 then TLV_SIZE else 0), ev_tlv = dst, ev_tlv_len = 0, ev_encoded = 0\<rparr>"
  have "enc_inv level lo hi len v" using less.prems by (auto simp: enc_inv_def v_def TLV_SIZE_def)
  from enc_loop [OF sub less.prems(3,2) _ less.prems(1,4,5) this, of ei 0] show ?case by (simp add: v_def)
qed

lemma encode_basic_outside:
  "length out < dst + n \<Longrightarrow> 0 < n \<Longrightarrow> src + n \<le> length inb \<Longrightarrow> qmi_encode_basic_elem out dst inb src n 1 = None"
proof (induction n arbitrary: out dst src)
  case (Suc n)
  show ?case
  proof (cases "dst < length out")
    case True
    define out1 where "out1 = buf_put out dst (buf_get inb src 1)"
    have "length out1 = length out" using True Suc.prems by (simp add: out1_def)
    then show ?thesis using Suc.IH [of out1 "dst + 1" "src + 1"] True Suc.prems by (simp add: mem_get_def mem_put_def out1_def)
  next
    case False
    have "buf_get inb src 1 \<noteq> []" using Suc.prems by (simp add: buf_get_def)
    then show ?thesis using False Suc.prems by (simp add: mem_get_def mem_put_def)
  qed
qed simp

section \<open>Properties\<close>



text \<open>
  C38: The check of a string inside a structure forgets the header in front of the structure.  When the buffer has
  room for the string and its length byte but not for three more bytes, the encoder writes behind the end of
  the buffer it has allocated instead of returning an error.
\<close>

theorem qmi_nested_string_overflows:
  assumes "0 \<notin> set str" "length str \<le> n" "n \<le> 255" "s = str @ 0 # rest" "length str + 1 \<le> len" "len < length str + 4"
  shows "qmi_encode_message True type msg_id len txn_id
     (Some [Elem QMI_STRUCT 1 (n + 1) NO_ARRAY 1 0 (Some [Elem QMI_STRING n 1 NO_ARRAY 0 0 None, Elem QMI_EOTI 0 0 NO_ARRAY 0 0 None]),
            Elem QMI_EOTI 0 0 NO_ARRAY 0 0 None]) (Some s) = None"
proof -
  define buf where "buf = replicate (7 + len) (0 :: byte)"
  define e where "e = Elem QMI_STRING n 1 NO_ARRAY 0 0 None"
  have "takeWhile (\<lambda>b. b \<noteq> 0) (str @ 0 # rest) = str" using assms(1) by (induction str) auto
  then have sl: "c_strlen s 0 = Some (length str)" using assms(4) by (simp add: c_strlen_def)
  have "qmi_encode_string_elem e buf 10 s 0 len (Suc (Suc 0)) = None"
  proof (cases "4 \<le> len")
    case False
    then have "qmi_encode_basic_elem buf 10 (nat_to_le 4 (length str)) 0 1 1 = None" using assms(5) by (intro encode_basic_outside) (auto simp: buf_def)
    then show ?thesis using sl assms by (simp add: qmi_encode_string_elem_def e_def string_len_sz_def add32_small del: qmi_encode_basic_elem.simps)
  next
    case True
    define out1 where "out1 = buf_put buf 10 (buf_get (nat_to_le 4 (length str)) 0 1)"
    have l: "length out1 = 7 + len" using True by (simp add: out1_def buf_def)
    have 1: "qmi_encode_basic_elem buf 10 (nat_to_le 4 (length str)) 0 1 1 = Some (1, out1)"
      using True encode_basic_block [of 10 1 1 buf 0 "nat_to_le 4 (length str)"] by (simp add: out1_def buf_def del: qmi_encode_basic_elem.simps)
    have "qmi_encode_basic_elem out1 11 s 0 (length str) 1 = None" using assms l True by (intro encode_basic_outside) auto
    then show ?thesis using sl assms 1 by (simp add: qmi_encode_string_elem_def e_def string_len_sz_def add32_small del: qmi_encode_basic_elem.simps)
  qed
  moreover have "sub32 len 0 = len" using assms by (intro sub32_small [THEN trans]) auto
  moreover have "len mod 2 ^ 32 = len" using assms by simp
  ultimately show ?thesis
    by (simp add: qmi_encode_message_def QMI_HEADER_SIZE_def buf_def [symmetric] e_def data_len_def TLV_SIZE_def Let_def)
qed

theorem qmi_nested_string_overflows_witness:
  "qmi_encode_message True 0 32 4 1
     (Some [Elem QMI_STRUCT 1 (7 + 1) NO_ARRAY 1 0 (Some [Elem QMI_STRING 7 1 NO_ARRAY 0 0 None, Elem QMI_EOTI 0 0 NO_ARRAY 0 0 None]),
            Elem QMI_EOTI 0 0 NO_ARRAY 0 0 None]) (Some [97, 98, 99, 0, 0, 0, 0, 0]) = None"
  using qmi_nested_string_overflows [of "[97, 98, 99]" 7 "[97, 98, 99, 0, 0, 0, 0, 0]" "[0, 0, 0, 0]" 4 0 32 1] by simp

end
