(* ===== verification/Qrtr_Ns.thy ===== *)
theory Qrtr_Ns
  imports Prelude
begin

text \<open>
  The name service of the Qualcomm IPC router (\<^verbatim>\<open>net/qrtr/ns.c\<close>, packets of \<^verbatim>\<open>include/uapi/linux/qrtr.h\<close>).
  It keeps a directory of the servers of all nodes and a list of observers, and answers control packets.  The
  packets it sends are appended to a log; the result of sending is a parameter of the model that may depend on
  everything sent before.  The properties relate the directory, what observers are told, and what other
  nodes learn from the announcements.
\<close>

section \<open>Ordered arrays\<close>

text \<open>
  An \<^verbatim>\<open>xarray\<close>: the present entries with their indices, in increasing order.  Storing may fail for want of
  memory, which is an outcome of the allocator.
\<close>

type_synonym 'a xarray = "(u32 \<times> 'a) list"

definition xa_load :: "u32 \<Rightarrow> 'a xarray \<Rightarrow> 'a option" where
  "xa_load k xs = map_of xs k"

fun xa_store :: "u32 \<Rightarrow> 'a \<Rightarrow> 'a xarray \<Rightarrow> 'a xarray" where
  "xa_store k v [] = [(k, v)]"
| "xa_store k v ((k', v') # xs) = (if k < k' then (k, v) # (k', v') # xs else if k = k' then (k, v) # xs else (k', v') # xa_store k v xs)"

definition xa_erase :: "u32 \<Rightarrow> 'a xarray \<Rightarrow> 'a xarray" where
  "xa_erase k xs = filter (\<lambda>x. fst x \<noteq> k) xs"

section \<open>Data\<close>

definition QRTR_NODE_BCAST :: u32 where "QRTR_NODE_BCAST = 0xffffffff"
definition QRTR_PORT_CTRL :: u32 where "QRTR_PORT_CTRL = 0xfffffffe"

definition QRTR_TYPE_HELLO :: u32 where "QRTR_TYPE_HELLO = 2"
definition QRTR_TYPE_BYE :: u32 where "QRTR_TYPE_BYE = 3"
definition QRTR_TYPE_NEW_SERVER :: u32 where "QRTR_TYPE_NEW_SERVER = 4"
definition QRTR_TYPE_DEL_SERVER :: u32 where "QRTR_TYPE_DEL_SERVER = 5"
definition QRTR_TYPE_DEL_CLIENT :: u32 where "QRTR_TYPE_DEL_CLIENT = 6"
definition QRTR_TYPE_NEW_LOOKUP :: u32 where "QRTR_TYPE_NEW_LOOKUP = 10"
definition QRTR_TYPE_DEL_LOOKUP :: u32 where "QRTR_TYPE_DEL_LOOKUP = 11"

lemmas qrtr_types = QRTR_TYPE_HELLO_def QRTR_TYPE_BYE_def QRTR_TYPE_NEW_SERVER_def QRTR_TYPE_DEL_SERVER_def
  QRTR_TYPE_DEL_CLIENT_def QRTR_TYPE_NEW_LOOKUP_def QRTR_TYPE_DEL_LOOKUP_def

record sockaddr_qrtr =
  sq_node :: u32
  sq_port :: u32

text \<open>
  A control packet: the command and the union, as four words.  A server is given by its service, instance, node
  and port, a client by its node and port in the first two words.
\<close>

record qrtr_ctrl_pkt =
  pkt_cmd :: u32
  pkt_w0 :: u32
  pkt_w1 :: u32
  pkt_w2 :: u32
  pkt_w3 :: u32

record qrtr_server_filter =
  f_service :: u32
  f_instance :: u32
  f_ifilter :: u32

record qrtr_lookup =
  lookup_service :: u32
  lookup_instance :: u32
  lookup_sq :: sockaddr_qrtr

record qrtr_server =
  srv_service :: u32
  srv_instance :: u32
  srv_node :: u32
  srv_port :: u32

record qrtr_node =
  node_id :: u32
  node_servers :: "qrtr_server xarray"

type_synonym packets = "(sockaddr_qrtr \<times> qrtr_ctrl_pkt) list"

text \<open>The state of the service: directory, observers, own node, the log of sent packets and the allocator.\<close>

record qrtr_ns =
  ns_nodes :: "qrtr_node xarray"
  ns_lookups :: "qrtr_lookup list"
  ns_local_node :: u32
  ns_sent :: packets
  ns_allocs :: "bool list"

text \<open>The result of sending a packet, given the packets sent before it: an error, or the number of bytes.\<close>

type_synonym sender = "packets \<Rightarrow> sockaddr_qrtr \<Rightarrow> qrtr_ctrl_pkt \<Rightarrow> errno + nat"

definition kernel_sendmsg :: "sender \<Rightarrow> sockaddr_qrtr \<Rightarrow> qrtr_ctrl_pkt \<Rightarrow> qrtr_ns \<Rightarrow> (errno + nat) \<times> qrtr_ns" where
  "kernel_sendmsg send to pkt ns = (send (ns_sent ns) to pkt, ns\<lparr>ns_sent := ns_sent ns @ [(to, pkt)]\<rparr>)"

definition ns_alloc :: "qrtr_ns \<Rightarrow> bool \<times> qrtr_ns" where
  "ns_alloc ns = (let (ok, t) = alloc_next (ns_allocs ns) in (ok, ns\<lparr>ns_allocs := t\<rparr>))"

definition bcast_sq :: sockaddr_qrtr where
  "bcast_sq = \<lparr>sq_node = QRTR_NODE_BCAST, sq_port = QRTR_PORT_CTRL\<rparr>"

section \<open>Directory\<close>

definition node_get :: "u32 \<Rightarrow> qrtr_ns \<Rightarrow> qrtr_node option \<times> qrtr_ns" where
  "node_get nid ns = (case xa_load nid (ns_nodes ns) of
     Some node \<Rightarrow> (Some node, ns)
   | None \<Rightarrow>
       let (ok, ns1) = ns_alloc ns in
       if \<not> ok then (None, ns1)
       else let node = \<lparr>node_id = nid, node_servers = []\<rparr>; (ok2, ns2) = ns_alloc ns1 in
         if \<not> ok2 then (None, ns2)
         else (Some node, ns2\<lparr>ns_nodes := xa_store nid node (ns_nodes ns2)\<rparr>))"

definition find_port :: "u32 \<Rightarrow> u32 \<Rightarrow> qrtr_ns \<Rightarrow> qrtr_server option" where
  "find_port nid port ns = (case xa_load nid (ns_nodes ns) of None \<Rightarrow> None
   | Some node \<Rightarrow> map_option snd (find (\<lambda>x. srv_node (snd x) = nid \<and> srv_port (snd x) = port) (node_servers node)))"

definition qrtr_get_service_id :: "u32 \<Rightarrow> u32 \<Rightarrow> qrtr_ns \<Rightarrow> errno + u32" where
  "qrtr_get_service_id nid port ns = (case find_port nid port ns of None \<Rightarrow> Inl EINVAL | Some srv \<Rightarrow> Inr (srv_service srv))"

definition qrtr_get_service_instance_id :: "u32 \<Rightarrow> u32 \<Rightarrow> qrtr_ns \<Rightarrow> errno + u32" where
  "qrtr_get_service_instance_id nid port ns = (case find_port nid port ns of None \<Rightarrow> Inl EINVAL | Some srv \<Rightarrow> Inr (srv_instance srv))"

definition server_match :: "qrtr_server \<Rightarrow> qrtr_server_filter \<Rightarrow> bool" where
  "server_match srv f =
     (if f_service f \<noteq> 0 \<and> srv_service srv \<noteq> f_service f then False
      else let ifilter = (if f_ifilter f = 0 \<and> f_instance f \<noteq> 0 then NOT 0 else f_ifilter f) in
        srv_instance srv AND ifilter = f_instance f)"

definition server_pkt :: "u32 \<Rightarrow> qrtr_server \<Rightarrow> qrtr_ctrl_pkt" where
  "server_pkt cmd srv = \<lparr>pkt_cmd = cmd, pkt_w0 = srv_service srv, pkt_w1 = srv_instance srv, pkt_w2 = srv_node srv, pkt_w3 = srv_port srv\<rparr>"

definition service_announce_new :: "sender \<Rightarrow> sockaddr_qrtr \<Rightarrow> qrtr_server \<Rightarrow> qrtr_ns \<Rightarrow> (errno + nat) \<times> qrtr_ns" where
  "service_announce_new send dest srv ns = kernel_sendmsg send dest (server_pkt QRTR_TYPE_NEW_SERVER srv) ns"

definition service_announce_del :: "sender \<Rightarrow> sockaddr_qrtr \<Rightarrow> qrtr_server \<Rightarrow> qrtr_ns \<Rightarrow> qrtr_ns" where
  "service_announce_del send dest srv ns = snd (kernel_sendmsg send dest (server_pkt QRTR_TYPE_DEL_SERVER srv) ns)"

definition lookup_notify :: "sender \<Rightarrow> sockaddr_qrtr \<Rightarrow> qrtr_server option \<Rightarrow> bool \<Rightarrow> qrtr_ns \<Rightarrow> qrtr_ns" where
  "lookup_notify send to srv new ns =
     (let cmd = if new then QRTR_TYPE_NEW_SERVER else QRTR_TYPE_DEL_SERVER;
          pkt = (case srv of None \<Rightarrow> \<lparr>pkt_cmd = cmd, pkt_w0 = 0, pkt_w1 = 0, pkt_w2 = 0, pkt_w3 = 0\<rparr> | Some s \<Rightarrow> server_pkt cmd s)
      in snd (kernel_sendmsg send to pkt ns))"

text \<open>The inner and the outer loop of \<^verbatim>\<open>announce_servers\<close>; an error other than a missing device ends both.\<close>

fun announce_node :: "sender \<Rightarrow> sockaddr_qrtr \<Rightarrow> qrtr_server xarray \<Rightarrow> qrtr_ns \<Rightarrow> (errno + nat) \<times> qrtr_ns" where
  "announce_node send sq [] ns = (Inr 0, ns)"
| "announce_node send sq ((i, srv) # xs) ns = (case service_announce_new send sq srv ns of
     (Inl x, ns1) \<Rightarrow> if x = ENODEV then announce_node send sq xs ns1 else (Inl x, ns1)
   | (Inr _, ns1) \<Rightarrow> announce_node send sq xs ns1)"

fun announce_nodes :: "sender \<Rightarrow> sockaddr_qrtr \<Rightarrow> qrtr_node xarray \<Rightarrow> qrtr_ns \<Rightarrow> (errno + nat) \<times> qrtr_ns" where
  "announce_nodes send sq [] ns = (Inr 0, ns)"
| "announce_nodes send sq ((i, node) # xs) ns =
     (if node_id node = sq_node sq then announce_nodes send sq xs ns
      else case announce_node send sq (node_servers node) ns of
        (Inl x, ns1) \<Rightarrow> (Inl x, ns1)
      | (Inr _, ns1) \<Rightarrow> announce_nodes send sq xs ns1)"

definition announce_servers :: "sender \<Rightarrow> sockaddr_qrtr \<Rightarrow> qrtr_ns \<Rightarrow> (errno + nat) \<times> qrtr_ns" where
  "announce_servers send sq ns = announce_nodes send sq (ns_nodes ns) ns"

text \<open>A server that replaces another one on its port replaces it silently.\<close>

definition set_servers :: "u32 \<Rightarrow> (qrtr_server xarray \<Rightarrow> qrtr_server xarray) \<Rightarrow> qrtr_ns \<Rightarrow> qrtr_ns" where
  "set_servers nid f ns = (case xa_load nid (ns_nodes ns) of None \<Rightarrow> ns
   | Some node \<Rightarrow> ns\<lparr>ns_nodes := xa_store nid (node\<lparr>node_servers := f (node_servers node)\<rparr>) (ns_nodes ns)\<rparr>)"

definition server_add :: "u32 \<Rightarrow> u32 \<Rightarrow> u32 \<Rightarrow> u32 \<Rightarrow> qrtr_ns \<Rightarrow> qrtr_server option \<times> qrtr_ns" where
  "server_add service instance nid port ns =
     (if service = 0 \<or> port = 0 then (None, ns)
      else let (ok, ns1) = ns_alloc ns in
      if \<not> ok then (None, ns1)
      else let srv = \<lparr>srv_service = service, srv_instance = instance, srv_node = nid, srv_port = port\<rparr> in
        (case node_get nid ns1 of
          (None, ns2) \<Rightarrow> (None, ns2)
        | (Some node, ns2) \<Rightarrow>
            let (ok3, ns3) = ns_alloc ns2 in
            if \<not> ok3 then (None, ns3) else (Some srv, set_servers nid (xa_store port srv) ns3)))"

definition lookup_wants :: "qrtr_lookup \<Rightarrow> u32 \<Rightarrow> u32 \<Rightarrow> bool" where
  "lookup_wants lu service instance =
     (if lookup_service lu \<noteq> 0 \<and> lookup_service lu \<noteq> service then False
      else if lookup_instance lu \<noteq> 0 \<and> lookup_instance lu \<noteq> instance then False
      else True)"

fun notify_lookups :: "sender \<Rightarrow> qrtr_lookup list \<Rightarrow> qrtr_server \<Rightarrow> u32 \<Rightarrow> u32 \<Rightarrow> bool \<Rightarrow> qrtr_ns \<Rightarrow> qrtr_ns" where
  "notify_lookups send [] srv service instance new ns = ns"
| "notify_lookups send (lu # lus) srv service instance new ns =
     notify_lookups send lus srv service instance new
       (if lookup_wants lu service instance then lookup_notify send (lookup_sq lu) (Some srv) new ns else ns)"

text \<open>The node is given by its id; it is one that \<^verbatim>\<open>node_get\<close> has returned.\<close>

definition server_del :: "sender \<Rightarrow> u32 \<Rightarrow> u32 \<Rightarrow> bool \<Rightarrow> qrtr_ns \<Rightarrow> qrtr_ns" where
  "server_del send nid port bcast ns = (case xa_load nid (ns_nodes ns) of None \<Rightarrow> ns
   | Some node \<Rightarrow> (case xa_load port (node_servers node) of None \<Rightarrow> ns
     | Some srv \<Rightarrow>
         let ns1 = set_servers nid (xa_erase port) ns;
             ns2 = (if srv_node srv = ns_local_node ns \<and> bcast then service_announce_del send bcast_sq srv ns1 else ns1)
         in notify_lookups send (ns_lookups ns2) srv (srv_service srv) (srv_instance srv) False ns2))"

definition say_hello :: "sender \<Rightarrow> sockaddr_qrtr \<Rightarrow> qrtr_ns \<Rightarrow> (errno + nat) \<times> qrtr_ns" where
  "say_hello send dest ns = kernel_sendmsg send dest \<lparr>pkt_cmd = QRTR_TYPE_HELLO, pkt_w0 = 0, pkt_w1 = 0, pkt_w2 = 0, pkt_w3 = 0\<rparr> ns"

section \<open>Commands\<close>

definition ctrl_cmd_hello :: "sender \<Rightarrow> sockaddr_qrtr \<Rightarrow> qrtr_ns \<Rightarrow> (errno + nat) \<times> qrtr_ns" where
  "ctrl_cmd_hello send sq ns = (case say_hello send sq ns of (Inl x, ns1) \<Rightarrow> (Inl x, ns1) | (Inr _, ns1) \<Rightarrow> announce_servers send sq ns1)"

text \<open>\<^verbatim>\<open>xa_for_each\<close> looks for the next present index before each round, since the body removes entries.\<close>

definition node_entries :: "u32 \<Rightarrow> qrtr_ns \<Rightarrow> qrtr_server xarray" where
  "node_entries nid ns = (case xa_load nid (ns_nodes ns) of None \<Rightarrow> [] | Some node \<Rightarrow> node_servers node)"


lemma unat_less32: "unat (k :: u32) < 2 ^ 32"
  using unsigned_less [of k] by simp

lemma word_next: "(i :: u32) \<le> k \<Longrightarrow> k \<noteq> NOT 0 \<Longrightarrow> i < k + 1 \<and> unat (k + 1) = unat k + 1"
proof -
  assume a: "i \<le> k" "k \<noteq> NOT 0"
  have "unat k \<noteq> unat (NOT 0 :: u32)" using a(2) by (simp add: word_unat_eq_iff)
  moreover have "unat (NOT 0 :: u32) = 2 ^ 32 - 1" by (simp add: bit.compl_zero unsigned_minus_1_eq_mask mask_eq_exp_minus_1)
  moreover have "unat k < 2 ^ 32" by (rule unat_less32)
  ultimately have "unat k + 1 < 2 ^ 32" by linarith
  then have "unat (of_nat (unat k + 1) :: u32) = unat k + 1" by (subst unat_of_nat) simp
  moreover have "(of_nat (unat k + 1) :: u32) = k + 1" by simp
  ultimately have "unat (k + 1) = unat k + 1" by (simp only:)
  then show ?thesis using a(1) by (simp add: word_le_nat_alt word_less_nat_alt)
qed

function bye_servers :: "sender \<Rightarrow> u32 \<Rightarrow> u32 \<Rightarrow> qrtr_ns \<Rightarrow> qrtr_ns" where
  "bye_servers send nid index ns = (case find (\<lambda>x. index \<le> fst x) (node_entries nid ns) of None \<Rightarrow> ns
   | Some (k, srv) \<Rightarrow>
       let ns1 = server_del send nid (srv_port srv) True ns in
       if k = NOT 0 then ns1 else bye_servers send nid (k + 1) ns1)"
  by pat_completeness auto
termination
proof (relation "measure (\<lambda>(send, nid, index, ns). 2 ^ 32 - unat index)", goal_cases)
  case (2 send nid index ns p k srv ns1)
  have "index \<le> fst p" using 2(1) by (auto simp: find_Some_iff)
  then have le: "index \<le> k" using 2(2) by (metis fst_conv)
  then show ?case using word_next [OF le] 2 unat_less32 [of "k + 1"] by (auto simp: word_less_nat_alt)
qed simp

declare bye_servers.simps [simp del]

text \<open>A packet to every server of the own node.\<close>

fun tell_servers :: "sender \<Rightarrow> qrtr_ctrl_pkt \<Rightarrow> qrtr_server xarray \<Rightarrow> qrtr_ns \<Rightarrow> qrtr_ns" where
  "tell_servers send pkt [] ns = ns"
| "tell_servers send pkt ((i, srv) # xs) ns =
     tell_servers send pkt xs (snd (kernel_sendmsg send \<lparr>sq_node = srv_node srv, sq_port = srv_port srv\<rparr> pkt ns))"

definition ctrl_cmd_bye :: "sender \<Rightarrow> sockaddr_qrtr \<Rightarrow> qrtr_ns \<Rightarrow> (errno + nat) \<times> qrtr_ns" where
  "ctrl_cmd_bye send from ns = (case node_get (sq_node from) ns of
     (None, ns1) \<Rightarrow> (Inr 0, ns1)
   | (Some node, ns1) \<Rightarrow>
       (case node_get (ns_local_node ns) (bye_servers send (sq_node from) 0 ns1) of
         (None, ns2) \<Rightarrow> (Inr 0, ns2)
       | (Some local_node, ns2) \<Rightarrow>
           (Inr 0, tell_servers send \<lparr>pkt_cmd = QRTR_TYPE_BYE, pkt_w0 = sq_node from, pkt_w1 = 0, pkt_w2 = 0, pkt_w3 = 0\<rparr>
              (node_servers local_node) ns2)))"

definition ctrl_cmd_del_client :: "sender \<Rightarrow> sockaddr_qrtr \<Rightarrow> u32 \<Rightarrow> u32 \<Rightarrow> qrtr_ns \<Rightarrow> (errno + nat) \<times> qrtr_ns" where
  "ctrl_cmd_del_client send from nid port ns =
     (if sq_node from \<noteq> nid then (Inl EINVAL, ns)
      else if sq_node from = ns_local_node ns \<and> sq_port from \<noteq> port then (Inl EINVAL, ns)
      else
        let ns1 = ns\<lparr>ns_lookups := filter (\<lambda>lu. \<not> (sq_node (lookup_sq lu) = nid \<and> sq_port (lookup_sq lu) = port)) (ns_lookups ns)\<rparr>;
            (node, ns2) = node_get nid ns1;
            ns3 = (case node of None \<Rightarrow> ns2 | Some _ \<Rightarrow> server_del send nid port False ns2)
        in (case node_get (ns_local_node ns) ns3 of
            (None, ns4) \<Rightarrow> (Inr 0, ns4)
          | (Some local_node, ns4) \<Rightarrow>
              (Inr 0, tell_servers send \<lparr>pkt_cmd = QRTR_TYPE_DEL_CLIENT, pkt_w0 = nid, pkt_w1 = port, pkt_w2 = 0, pkt_w3 = 0\<rparr>
                 (node_servers local_node) ns4)))"

definition ctrl_cmd_new_server :: "sender \<Rightarrow> sockaddr_qrtr \<Rightarrow> u32 \<Rightarrow> u32 \<Rightarrow> u32 \<Rightarrow> u32 \<Rightarrow> qrtr_ns \<Rightarrow> (errno + nat) \<times> qrtr_ns" where
  "ctrl_cmd_new_server send from service instance nid port ns =
     (let (nid, port) = (if sq_node from = ns_local_node ns then (sq_node from, sq_port from) else (nid, port)) in
      case server_add service instance nid port ns of
        (None, ns1) \<Rightarrow> (Inl EINVAL, ns1)
      | (Some srv, ns1) \<Rightarrow>
          (case (if srv_node srv = ns_local_node ns then service_announce_new send bcast_sq srv ns1 else (Inr 0, ns1)) of
            (Inl x, ns2) \<Rightarrow> (Inl x, ns2)
          | (Inr ret, ns2) \<Rightarrow> (Inr ret, notify_lookups send (ns_lookups ns2) srv service instance True ns2)))"

definition ctrl_cmd_del_server :: "sender \<Rightarrow> sockaddr_qrtr \<Rightarrow> u32 \<Rightarrow> u32 \<Rightarrow> u32 \<Rightarrow> u32 \<Rightarrow> qrtr_ns \<Rightarrow> (errno + nat) \<times> qrtr_ns" where
  "ctrl_cmd_del_server send from service instance nid port ns =
     (let (nid, port) = (if sq_node from = ns_local_node ns then (sq_node from, sq_port from) else (nid, port)) in
      if sq_node from = ns_local_node ns \<and> sq_port from \<noteq> port then (Inl EINVAL, ns)
      else case node_get nid ns of
        (None, ns1) \<Rightarrow> (Inl ENOENT, ns1)
      | (Some node, ns1) \<Rightarrow> (Inr 0, server_del send nid port True ns1))"

fun notify_matching :: "sender \<Rightarrow> sockaddr_qrtr \<Rightarrow> qrtr_server_filter \<Rightarrow> qrtr_server list \<Rightarrow> qrtr_ns \<Rightarrow> qrtr_ns" where
  "notify_matching send from flt [] ns = ns"
| "notify_matching send from flt (srv # srvs) ns =
     notify_matching send from flt srvs (if server_match srv flt then lookup_notify send from (Some srv) True ns else ns)"

definition all_servers :: "qrtr_ns \<Rightarrow> qrtr_server list" where
  "all_servers ns = concat (map (\<lambda>(i, node). map snd (node_servers node)) (ns_nodes ns))"

definition ctrl_cmd_new_lookup :: "sender \<Rightarrow> sockaddr_qrtr \<Rightarrow> u32 \<Rightarrow> u32 \<Rightarrow> qrtr_ns \<Rightarrow> (errno + nat) \<times> qrtr_ns" where
  "ctrl_cmd_new_lookup send from service instance ns =
     (if sq_node from \<noteq> ns_local_node ns then (Inl EINVAL, ns)
      else let (ok, ns1) = ns_alloc ns in
      if \<not> ok then (Inl ENOMEM, ns1)
      else
        let lu = \<lparr>lookup_service = service, lookup_instance = instance, lookup_sq = from\<rparr>;
            ns2 = ns1\<lparr>ns_lookups := ns_lookups ns1 @ [lu]\<rparr>;
            flt = \<lparr>f_service = service, f_instance = instance, f_ifilter = 0\<rparr>;
            ns3 = notify_matching send from flt (all_servers ns2) ns2
        in (Inr 0, lookup_notify send from None True ns3))"

definition ctrl_cmd_del_lookup :: "sockaddr_qrtr \<Rightarrow> u32 \<Rightarrow> u32 \<Rightarrow> qrtr_ns \<Rightarrow> qrtr_ns" where
  "ctrl_cmd_del_lookup from service instance ns =
     ns\<lparr>ns_lookups := filter (\<lambda>lu.
        if sq_node (lookup_sq lu) \<noteq> sq_node from then True
        else if sq_port (lookup_sq lu) \<noteq> sq_port from then True
        else if lookup_service lu \<noteq> service then True
        else lookup_instance lu \<noteq> 0 \<and> lookup_instance lu \<noteq> instance) (ns_lookups ns)\<rparr>"

section \<open>The worker\<close>

definition pkt_word :: "byte list \<Rightarrow> nat \<Rightarrow> u32" where
  "pkt_word buf i = of_nat (le_to_nat (buf_get buf (4 * i) 4))"

definition parse_pkt :: "byte list \<Rightarrow> qrtr_ctrl_pkt" where
  "parse_pkt buf = \<lparr>pkt_cmd = pkt_word buf 0, pkt_w0 = pkt_word buf 1, pkt_w1 = pkt_word buf 2, pkt_w2 = pkt_word buf 3, pkt_w3 = pkt_word buf 4\<rparr>"

definition handle_pkt :: "sender \<Rightarrow> sockaddr_qrtr \<Rightarrow> qrtr_ctrl_pkt \<Rightarrow> qrtr_ns \<Rightarrow> (errno + nat) \<times> qrtr_ns" where
  "handle_pkt send sq pkt ns =
     (let cmd = pkt_cmd pkt in
      if cmd = QRTR_TYPE_HELLO then ctrl_cmd_hello send sq ns
      else if cmd = QRTR_TYPE_BYE then ctrl_cmd_bye send sq ns
      else if cmd = QRTR_TYPE_DEL_CLIENT then ctrl_cmd_del_client send sq (pkt_w0 pkt) (pkt_w1 pkt) ns
      else if cmd = QRTR_TYPE_NEW_SERVER then ctrl_cmd_new_server send sq (pkt_w0 pkt) (pkt_w1 pkt) (pkt_w2 pkt) (pkt_w3 pkt) ns
      else if cmd = QRTR_TYPE_DEL_SERVER then ctrl_cmd_del_server send sq (pkt_w0 pkt) (pkt_w1 pkt) (pkt_w2 pkt) (pkt_w3 pkt) ns
      else if cmd = QRTR_TYPE_NEW_LOOKUP then ctrl_cmd_new_lookup send sq (pkt_w0 pkt) (pkt_w1 pkt) ns
      else if cmd = QRTR_TYPE_DEL_LOOKUP then (Inr 0, ctrl_cmd_del_lookup sq (pkt_w0 pkt) (pkt_w1 pkt) ns)
      else (Inr 0, ns))"

text \<open>
  What the socket delivers: an error, or a datagram with its sender.  A datagram is copied to the front of the
  receive buffer; the rest of the buffer keeps its content.
\<close>

type_synonym received = "errno + byte list \<times> sockaddr_qrtr"

definition recv_buf_size :: nat where "recv_buf_size = 4096"

fun ns_recv_loop :: "sender \<Rightarrow> received list \<Rightarrow> byte list \<Rightarrow> qrtr_ns \<Rightarrow> qrtr_ns" where
  "ns_recv_loop send [] buf ns = ns"
| "ns_recv_loop send (Inl x # rs) buf ns = ns"
| "ns_recv_loop send (Inr (data, sq) # rs) buf ns =
     (let buf1 = buf_put buf 0 (take recv_buf_size data) in
      ns_recv_loop send rs buf1 (snd (handle_pkt send sq (parse_pkt buf1) ns)))"

definition qrtr_ns_worker :: "sender \<Rightarrow> received list \<Rightarrow> qrtr_ns \<Rightarrow> qrtr_ns" where
  "qrtr_ns_worker send rs ns = (let (ok, ns1) = ns_alloc ns in
     if \<not> ok then ns1 else ns_recv_loop send rs (replicate recv_buf_size 0) ns1)"

text \<open>
  Initialisation, with the results of creating the socket, asking for its name (the length of the name
  and the own node), starting the worker and binding as arguments.
\<close>

definition qrtr_ns_init :: "sender \<Rightarrow> errno + unit \<Rightarrow> errno + nat \<times> u32 \<Rightarrow> bool \<Rightarrow> errno + nat \<Rightarrow> bool list \<Rightarrow> (errno + nat) \<times> qrtr_ns" where
  "qrtr_ns_init send sock name task_ok bind_ret allocs =
     (let ns = \<lparr>ns_nodes = [], ns_lookups = [], ns_local_node = 0, ns_sent = [], ns_allocs = allocs\<rparr> in
      case sock of Inl x \<Rightarrow> (Inl x, ns)
      | Inr _ \<Rightarrow> (case name of Inl x \<Rightarrow> (Inl x, ns)
        | Inr (ret, local) \<Rightarrow>
            if \<not> task_ok then (Inr ret, ns)
            else let ns1 = ns\<lparr>ns_local_node := local\<rparr> in
              (case bind_ret of Inl x \<Rightarrow> (Inl x, ns1)
              | Inr _ \<Rightarrow> (case say_hello send bcast_sq ns1 of (Inl x, ns2) \<Rightarrow> (Inl x, ns2) | (Inr _, ns2) \<Rightarrow> (Inr 0, ns2)))))"

section \<open>What an ordered array promises\<close>

locale ordered_array =
  fixes wf :: "'c \<Rightarrow> bool" and load :: "u32 \<Rightarrow> 'c \<Rightarrow> 'v option" and store :: "u32 \<Rightarrow> 'v \<Rightarrow> 'c \<Rightarrow> 'c" and erase :: "u32 \<Rightarrow> 'c \<Rightarrow> 'c"
    and entries :: "'c \<Rightarrow> (u32 \<times> 'v) list"
  assumes wf_store: "wf xs \<Longrightarrow> wf (store k v xs)"
    and wf_erase: "wf xs \<Longrightarrow> wf (erase k xs)"
    and load_store: "wf xs \<Longrightarrow> load i (store k v xs) = (if i = k then Some v else load i xs)"
    and load_erase: "wf xs \<Longrightarrow> load i (erase k xs) = (if i = k then None else load i xs)"
    and entries_load: "wf xs \<Longrightarrow> (i, v) \<in> set (entries xs) \<longleftrightarrow> load i xs = Some v"
    and entries_sorted: "wf xs \<Longrightarrow> sorted_wrt (<) (map fst (entries xs))"
begin

lemma entries_store: "wf xs \<Longrightarrow> set (entries (store k v xs)) = insert (k, v) {x \<in> set (entries xs). fst x \<noteq> k}"
  by (auto simp: entries_load wf_store load_store split: if_splits)

lemma entries_erase: "wf xs \<Longrightarrow> set (entries (erase k xs)) = {x \<in> set (entries xs). fst x \<noteq> k}"
  by (auto simp: entries_load wf_erase load_erase split: if_splits)

lemma all_store: "wf xs \<Longrightarrow> (\<forall>(i, x) \<in> set (entries xs). P i x) \<Longrightarrow> P k v \<Longrightarrow> \<forall>(i, x) \<in> set (entries (store k v xs)). P i x"
  by (auto simp: entries_store)

lemma all_erase: "wf xs \<Longrightarrow> (\<forall>(i, x) \<in> set (entries xs). P i x) \<Longrightarrow> \<forall>(i, x) \<in> set (entries (erase k xs)). P i x"
  by (auto simp: entries_erase)

lemma find_next:
  assumes "wf xs" "find (\<lambda>x. i \<le> fst x) (entries xs) = Some (k, v)"
  shows "load k xs = Some v" "i \<le> k" "\<And>j. i \<le> j \<Longrightarrow> j < k \<Longrightarrow> load j xs = None"
proof -
  obtain n where n: "n < length (entries xs)" "i \<le> k" "(k, v) = entries xs ! n" "\<And>j. j < n \<Longrightarrow> \<not> i \<le> fst (entries xs ! j)"
    using assms(2) by (auto simp: find_Some_iff) (metis fst_conv)
  show "load k xs = Some v" using entries_load [OF assms(1), of k v] n(1,3) by (metis nth_mem)
  show "i \<le> k" by (fact n(2))
  show "load j xs = None" if "i \<le> j" "j < k" for j
  proof (rule ccontr)
    assume "load j xs \<noteq> None"
    then obtain w where "(j, w) \<in> set (entries xs)" using entries_load [OF assms(1)] by auto
    then obtain m where m: "m < length (entries xs)" "entries xs ! m = (j, w)" by (auto simp: in_set_conv_nth)
    have "\<not> m < n" using n(4) [of m] m(2) that(1) by auto
    moreover have "m \<noteq> n" using m(2) n(3) that(2) by (metis fst_conv less_irrefl)
    ultimately have "fst (entries xs ! n) < fst (entries xs ! m)"
      using entries_sorted [OF assms(1)] m(1) sorted_wrt_nth_less [of "(<)" "map fst (entries xs)" n m] by auto
    then show False using m(2) n(3) that(2) by (metis fst_conv less_asym)
  qed
qed

lemma find_none: "wf xs \<Longrightarrow> find (\<lambda>x. i \<le> fst x) (entries xs) = None \<Longrightarrow> i \<le> j \<Longrightarrow> load j xs = None"
  using entries_load [of xs j] by (auto simp: find_None_iff) (metis fst_conv not_Some_eq)

end

definition xa_wf :: "'a xarray \<Rightarrow> bool" where
  "xa_wf xs \<longleftrightarrow> sorted_wrt (<) (map fst xs)"

lemma xa_wf_distinct: "xa_wf xs \<Longrightarrow> distinct (map fst xs)"
  unfolding xa_wf_def by (simp add: strict_sorted_iff)

lemma xa_store_keys: "fst ` set (xa_store k v xs) = insert k (fst ` set xs)"
  by (induction k v xs rule: xa_store.induct) (auto simp: insert_commute)

lemma xa_wf_store: "xa_wf xs \<Longrightarrow> xa_wf (xa_store k v xs)"
proof (induction xs)
  case (Cons a xs)
  obtain k' v' where a: "a = (k', v')" by (cases a)
  have "\<forall>j \<in> fst ` set xs. k' < j" using Cons.prems a by (auto simp: xa_wf_def)
  then show ?case using Cons a xa_store_keys [of k v xs] by (fastforce simp: xa_wf_def)
qed (simp add: xa_wf_def)

lemma xa_load_store: "xa_wf xs \<Longrightarrow> xa_load i (xa_store k v xs) = (if i = k then Some v else xa_load i xs)"
  by (induction xs) (auto simp: xa_wf_def xa_load_def)

interpretation xa: ordered_array xa_wf xa_load xa_store xa_erase "\<lambda>xs. xs"
proof unfold_locales
  fix xs :: "'b xarray" and k assume wf: "xa_wf xs"
  show "xa_wf (xa_erase k xs)" using wf unfolding xa_wf_def xa_erase_def by (simp add: sorted_wrt_map sorted_wrt_filter)
  show "xa_load i (xa_erase k xs) = (if i = k then None else xa_load i xs)" for i
    by (induction xs) (auto simp: xa_load_def xa_erase_def)
  show "((i, v) \<in> set xs) = (xa_load i xs = Some v)" for i v
    using xa_wf_distinct [OF wf] by (simp add: xa_load_def)
  show "sorted_wrt (<) (map fst xs)" using wf by (simp add: xa_wf_def)
qed (simp_all add: xa_wf_store xa_load_store)

section \<open>The directory\<close>

text \<open>The directory as a function of node and port, and its well-formedness.\<close>

definition dir :: "qrtr_ns \<Rightarrow> u32 \<Rightarrow> u32 \<Rightarrow> qrtr_server option" where
  "dir ns nid port = xa_load port (node_entries nid ns)"

definition srv_ok :: "u32 \<Rightarrow> u32 \<Rightarrow> qrtr_server \<Rightarrow> bool" where
  "srv_ok nid port srv \<longleftrightarrow> srv_node srv = nid \<and> srv_port srv = port \<and> srv_service srv \<noteq> 0 \<and> port \<noteq> 0"

definition node_ok :: "u32 \<Rightarrow> qrtr_node \<Rightarrow> bool" where
  "node_ok nid node \<longleftrightarrow> node_id node = nid \<and> xa_wf (node_servers node) \<and> (\<forall>(p, srv) \<in> set (node_servers node). srv_ok nid p srv)"

definition ns_wf :: "qrtr_ns \<Rightarrow> bool" where
  "ns_wf ns \<longleftrightarrow> xa_wf (ns_nodes ns) \<and> (\<forall>(nid, node) \<in> set (ns_nodes ns). node_ok nid node) \<and>
     (\<forall>lu \<in> set (ns_lookups ns). sq_node (lookup_sq lu) = ns_local_node ns)"

text \<open>What a step keeps: the observers, the own node, and an allocator that never fails.\<close>

definition keeps :: "qrtr_ns \<Rightarrow> qrtr_ns \<Rightarrow> bool" where
  "keeps ns ns' \<longleftrightarrow> ns_lookups ns' = ns_lookups ns \<and> ns_local_node ns' = ns_local_node ns \<and> (ns_allocs ns = [] \<longrightarrow> ns_allocs ns' = [])"

lemma keeps_refl [simp]: "keeps ns ns" by (simp add: keeps_def)

lemma keeps_trans: "keeps a b \<Longrightarrow> keeps b c \<Longrightarrow> keeps a c" by (simp add: keeps_def)

lemma ns_wf_cong: "ns_wf ns \<Longrightarrow> ns_nodes ns' = ns_nodes ns \<Longrightarrow> ns_lookups ns' = ns_lookups ns \<Longrightarrow> ns_local_node ns' = ns_local_node ns \<Longrightarrow> ns_wf ns'"
  by (simp add: ns_wf_def)

lemma dir_cong: "ns_nodes ns' = ns_nodes ns \<Longrightarrow> dir ns' = dir ns"
  by (simp add: dir_def node_entries_def fun_eq_iff)

lemma ns_wf_node: "ns_wf ns \<Longrightarrow> xa_load nid (ns_nodes ns) = Some node \<Longrightarrow> node_ok nid node"
  using xa.entries_load [of "ns_nodes ns" nid node] by (auto simp: ns_wf_def)

lemma ns_wf_entries: "ns_wf ns \<Longrightarrow> xa_wf (node_entries nid ns) \<and> (\<forall>(p, srv) \<in> set (node_entries nid ns). srv_ok nid p srv)"
  using ns_wf_node [of ns nid] by (auto simp: node_entries_def node_ok_def xa_wf_def split: option.splits)

lemma dir_ok: "ns_wf ns \<Longrightarrow> dir ns nid port = Some srv \<Longrightarrow> srv_ok nid port srv"
  using ns_wf_entries [of ns nid] xa.entries_load [of "node_entries nid ns" port srv] by (auto simp: dir_def)

subsection \<open>Packets\<close>

definition lookup_msgs :: "u32 \<Rightarrow> qrtr_lookup list \<Rightarrow> qrtr_server \<Rightarrow> packets" where
  "lookup_msgs cmd lus srv = map (\<lambda>lu. (lookup_sq lu, server_pkt cmd srv)) (filter (\<lambda>lu. lookup_wants lu (srv_service srv) (srv_instance srv)) lus)"

lemma notify_lookups_eq:
  "notify_lookups send lus srv (srv_service srv) (srv_instance srv) new ns =
   ns\<lparr>ns_sent := ns_sent ns @ lookup_msgs (if new then QRTR_TYPE_NEW_SERVER else QRTR_TYPE_DEL_SERVER) lus srv\<rparr>"
  by (induction lus arbitrary: ns) (auto simp: lookup_msgs_def lookup_notify_def kernel_sendmsg_def)

lemma tell_servers_eq:
  "tell_servers send pkt xs ns = ns\<lparr>ns_sent := ns_sent ns @ map (\<lambda>(i, srv). (\<lparr>sq_node = srv_node srv, sq_port = srv_port srv\<rparr>, pkt)) xs\<rparr>"
  by (induction send pkt xs ns rule: tell_servers.induct) (auto simp: kernel_sendmsg_def)

lemma notify_matching_eq:
  "notify_matching send from flt srvs ns =
   ns\<lparr>ns_sent := ns_sent ns @ map (\<lambda>srv. (from, server_pkt QRTR_TYPE_NEW_SERVER srv)) (filter (\<lambda>srv. server_match srv flt) srvs)\<rparr>"
  by (induction srvs arbitrary: ns) (auto simp: lookup_notify_def kernel_sendmsg_def)

text \<open>The filter of a new lookup and the test before each notification agree.\<close>

lemma match_wants:
  "server_match srv \<lparr>f_service = service, f_instance = instance, f_ifilter = 0\<rparr> \<longleftrightarrow>
   lookup_wants \<lparr>lookup_service = service, lookup_instance = instance, lookup_sq = sq\<rparr> (srv_service srv) (srv_instance srv)"
  by (auto simp: server_match_def lookup_wants_def)

subsection \<open>Changing the directory\<close>

lemma set_servers_dir:
  assumes "ns_wf ns" "xa_load nid (ns_nodes ns) \<noteq> None"
  shows "node_entries n (set_servers nid f ns) = (if n = nid then f (node_entries nid ns) else node_entries n ns)"
  using assms xa.load_store [of "ns_nodes ns"] by (auto simp: set_servers_def node_entries_def ns_wf_def)

lemma set_servers_wf:
  assumes "ns_wf ns" "\<And>xs. xa_wf xs \<Longrightarrow> (\<forall>(p, srv) \<in> set xs. srv_ok nid p srv) \<Longrightarrow> xa_wf (f xs) \<and> (\<forall>(p, srv) \<in> set (f xs). srv_ok nid p srv)"
  shows "ns_wf (set_servers nid f ns)"
proof (cases "xa_load nid (ns_nodes ns)")
  case None
  then show ?thesis using assms(1) by (simp add: set_servers_def)
next
  case (Some node)
  have nw: "xa_wf (ns_nodes ns)" "\<forall>(i, x) \<in> set (ns_nodes ns). node_ok i x" using assms(1) by (auto simp: ns_wf_def)
  have "node_ok nid (node\<lparr>node_servers := f (node_servers node)\<rparr>)" using ns_wf_node [OF assms(1) Some] assms(2) by (auto simp: node_ok_def)
  then have "\<forall>(i, x) \<in> set (xa_store nid (node\<lparr>node_servers := f (node_servers node)\<rparr>) (ns_nodes ns)). node_ok i x"
    by (rule xa.all_store [OF nw])
  then show ?thesis using Some assms(1) xa.wf_store [OF nw(1)] by (simp add: set_servers_def ns_wf_def)
qed

lemma set_servers_keeps: "keeps ns (set_servers nid f ns) \<and> ns_sent (set_servers nid f ns) = ns_sent ns"
  by (simp add: set_servers_def keeps_def split: option.splits)

lemma ns_alloc_spec: "ns_alloc ns = (ok, ns') \<Longrightarrow> ns_nodes ns' = ns_nodes ns \<and> keeps ns ns' \<and> ns_sent ns' = ns_sent ns \<and> (ns_allocs ns = [] \<longrightarrow> ok)"
  by (cases "ns_allocs ns") (auto simp: ns_alloc_def keeps_def)

lemma node_get_spec:
  assumes wf: "ns_wf ns" and g: "node_get nid ns = (r, ns')"
  shows "ns_wf ns'" "dir ns' = dir ns" "keeps ns ns'" "ns_sent ns' = ns_sent ns" "ns_allocs ns = [] \<Longrightarrow> r \<noteq> None"
    "\<And>node. r = Some node \<Longrightarrow> xa_load nid (ns_nodes ns') = Some node" "\<And>n. node_entries n ns' = node_entries n ns"
proof -
  have "ns_wf ns' \<and> (\<forall>n. node_entries n ns' = node_entries n ns) \<and> keeps ns ns' \<and> ns_sent ns' = ns_sent ns \<and> (ns_allocs ns = [] \<longrightarrow> r \<noteq> None) \<and>
      (\<forall>node. r = Some node \<longrightarrow> xa_load nid (ns_nodes ns') = Some node)"
  proof (cases "xa_load nid (ns_nodes ns)")
    case (Some node)
    then have "r = Some node" "ns' = ns" using g by (simp_all add: node_get_def)
    then show ?thesis using Some wf by simp
  next
    case None
    obtain ok ns1 where a1: "ns_alloc ns = (ok, ns1)" by (cases "ns_alloc ns")
    obtain ok2 ns2 where a2: "ns_alloc ns1 = (ok2, ns2)" by (cases "ns_alloc ns1")
    note s1 = ns_alloc_spec [OF a1] and s2 = ns_alloc_spec [OF a2]
    have wf1: "ns_wf ns1" "ns_wf ns2" using wf s1 s2 by (auto intro: ns_wf_cong simp: keeps_def)
    define node where "node = \<lparr>node_id = nid, node_servers = []\<rparr>"
    have nw: "xa_wf (ns_nodes ns2)" "\<forall>(i, x) \<in> set (ns_nodes ns2). node_ok i x" using wf1(2) by (auto simp: ns_wf_def)
    have no: "node_ok nid node" by (simp add: node_ok_def node_def xa_wf_def)
    have nwf: "ns_wf (ns2\<lparr>ns_nodes := xa_store nid node (ns_nodes ns2)\<rparr>)"
      using wf1(2) xa.wf_store [OF nw(1)] xa.all_store [OF nw no] by (simp add: ns_wf_def)
    have ld: "xa_load n (xa_store nid node (ns_nodes ns2)) = (if n = nid then Some node else xa_load n (ns_nodes ns))" for n
      using xa.load_store [OF nw(1)] s1 s2 by simp
    have both: ?thesis if "ok" "ok2"
    proof -
      have "r = Some node" "ns' = ns2\<lparr>ns_nodes := xa_store nid node (ns_nodes ns2)\<rparr>" using g None a1 a2 that by (auto simp: node_get_def node_def Let_def)
      then show ?thesis using nwf ld s1 s2 None by (simp add: keeps_def node_entries_def) (simp add: node_def)
    qed
    have "?thesis" if "\<not> ok" using g None a1 s1 wf1 that by (auto simp: node_get_def keeps_def node_entries_def)
    moreover have "?thesis" if "ok" "\<not> ok2" using g None a1 a2 s1 s2 wf1 that by (auto simp: node_get_def keeps_def node_entries_def)
    ultimately show ?thesis using both by blast
  qed
  then show "ns_wf ns'" "dir ns' = dir ns" "keeps ns ns'" "ns_sent ns' = ns_sent ns" "ns_allocs ns = [] \<Longrightarrow> r \<noteq> None"
    "\<And>node. r = Some node \<Longrightarrow> xa_load nid (ns_nodes ns') = Some node" "\<And>n. node_entries n ns' = node_entries n ns" by (auto simp: dir_def fun_eq_iff)
qed

text \<open>Removing one server, and what is sent about it.\<close>

definition del_msgs :: "u32 \<Rightarrow> qrtr_lookup list \<Rightarrow> bool \<Rightarrow> qrtr_server \<Rightarrow> packets" where
  "del_msgs local lus bcast srv =
     (if srv_node srv = local \<and> bcast then [(bcast_sq, server_pkt QRTR_TYPE_DEL_SERVER srv)] else []) @ lookup_msgs QRTR_TYPE_DEL_SERVER lus srv"

lemma server_del_spec:
  assumes wf: "ns_wf ns" and d: "server_del send nid port bcast ns = ns'"
  shows "ns_wf ns'" "keeps ns ns'" "\<And>n. node_entries n ns' = (if n = nid then xa_erase port (node_entries nid ns) else node_entries n ns)"
    "ns_sent ns' = ns_sent ns @ (case dir ns nid port of None \<Rightarrow> [] | Some srv \<Rightarrow> del_msgs (ns_local_node ns) (ns_lookups ns) bcast srv)"
proof -
  have er: "xa_wf (xa_erase port xs) \<and> (\<forall>(p, srv) \<in> set (xa_erase port xs). srv_ok nid p srv)"
    if "xa_wf xs" "\<forall>(p, srv) \<in> set xs. srv_ok nid p srv" for xs
    using xa.wf_erase [OF that(1)] xa.all_erase [OF that] by blast
  have sw: "ns_wf (set_servers nid (xa_erase port) ns)" by (rule set_servers_wf [OF wf]) (rule er)
  note sk = set_servers_keeps [of ns nid "xa_erase port"]
  have "ns_wf ns' \<and> keeps ns ns' \<and> (\<forall>n. node_entries n ns' = (if n = nid then xa_erase port (node_entries nid ns) else node_entries n ns)) \<and>
    ns_sent ns' = ns_sent ns @ (case dir ns nid port of None \<Rightarrow> [] | Some srv \<Rightarrow> del_msgs (ns_local_node ns) (ns_lookups ns) bcast srv)"
  proof (cases "dir ns nid port")
    case None
    then have "ns' = ns" using d by (auto simp: server_del_def dir_def node_entries_def split: option.splits)
    moreover have "xa_erase port (node_entries nid ns) = node_entries nid ns"
      using None by (auto simp: dir_def xa_load_def xa_erase_def map_of_eq_None_iff filter_id_conv)
    ultimately show ?thesis using wf None by simp
  next
    case (Some srv)
    then obtain node where n: "xa_load nid (ns_nodes ns) = Some node" "xa_load port (node_servers node) = Some srv"
      by (auto simp: dir_def node_entries_def xa_load_def split: option.splits)
    define ns1 where "ns1 = set_servers nid (xa_erase port) ns"
    have e: "ns' = ns1\<lparr>ns_sent := ns_sent ns1 @ del_msgs (ns_local_node ns) (ns_lookups ns1) bcast srv\<rparr>"
      using d n by (auto simp: server_del_def Let_def service_announce_del_def kernel_sendmsg_def notify_lookups_eq del_msgs_def ns1_def)
    have "ns_wf ns1" "keeps ns ns1" "ns_sent ns1 = ns_sent ns" using sw sk by (simp_all add: ns1_def)
    moreover have "node_entries k ns1 = (if k = nid then xa_erase port (node_entries nid ns) else node_entries k ns)" for k
      using set_servers_dir [OF wf, of nid k "xa_erase port"] n(1) by (simp add: ns1_def)
    ultimately show ?thesis using Some e by (auto simp: keeps_def node_entries_def intro: ns_wf_cong)
  qed
  then show "ns_wf ns'" "keeps ns ns'" "\<And>n. node_entries n ns' = (if n = nid then xa_erase port (node_entries nid ns) else node_entries n ns)"
    "ns_sent ns' = ns_sent ns @ (case dir ns nid port of None \<Rightarrow> [] | Some srv \<Rightarrow> del_msgs (ns_local_node ns) (ns_lookups ns) bcast srv)" by auto
qed

lemma server_del_dir:
  "ns_wf ns \<Longrightarrow> dir (server_del send nid port bcast ns) n p = (if n = nid \<and> p = port then None else dir ns n p)"
  using server_del_spec(3) [of ns send nid port bcast, OF _ refl] xa.load_erase [of "node_entries nid ns"] ns_wf_entries [of ns nid] by (auto simp: dir_def)

text \<open>Removing all servers of a node, in the order of their ports.\<close>

lemma sorted_find_split:
  "sorted_wrt (<) (map fst xs) \<Longrightarrow> find (\<lambda>x. i \<le> fst x) xs = Some (k, v) \<Longrightarrow>
   \<exists>ys zs. xs = ys @ (k, v) # zs \<and> (\<forall>y \<in> set ys. fst y < i) \<and> (\<forall>z \<in> set zs. k < fst z) \<and> i \<le> k" for i :: u32
proof (induction xs)
  case (Cons x xs)
  show ?case
  proof (cases "i \<le> fst x")
    case True
    then show ?thesis using Cons.prems by (intro exI [of _ "[]"] exI [of _ xs]) auto
  next
    case False
    then obtain ys zs where "xs = ys @ (k, v) # zs" "\<forall>y \<in> set ys. fst y < i" "\<forall>z \<in> set zs. k < fst z" "i \<le> k" using Cons by auto
    then show ?thesis using False by (intro exI [of _ "x # ys"] exI [of _ zs]) auto
  qed
qed simp

lemma bye_servers_spec:
  "ns_wf ns \<Longrightarrow> bye_servers send nid index ns = ns' \<Longrightarrow>
   ns_wf ns' \<and> keeps ns ns' \<and> (\<forall>n. node_entries n ns' = (if n = nid then filter (\<lambda>x. fst x < index) (node_entries nid ns) else node_entries n ns)) \<and>
   ns_sent ns' = ns_sent ns @ concat (map (\<lambda>x. del_msgs (ns_local_node ns) (ns_lookups ns) True (snd x)) (filter (\<lambda>x. index \<le> fst x) (node_entries nid ns)))"
proof (induction send nid index ns arbitrary: ns' rule: bye_servers.induct)
  case (1 send nid index ns)
  let ?xs = "node_entries nid ns"
  note wfe = ns_wf_entries [OF "1.prems"(1), of nid]
  show ?case
  proof (cases "find (\<lambda>x. index \<le> fst x) ?xs")
    case None
    then have "\<forall>x \<in> set ?xs. fst x < index" by (auto simp: find_None_iff not_le)
    then have "filter (\<lambda>x. fst x < index) ?xs = ?xs" "filter (\<lambda>x. index \<le> fst x) ?xs = []" by (auto simp: filter_id_conv filter_empty_conv not_le)
    moreover have "ns' = ns" using "1.prems"(2) None by (simp add: bye_servers.simps)
    ultimately show ?thesis using "1.prems"(1) by simp
  next
    case (Some a)
    obtain k srv where a: "a = (k, srv)" by (cases a)
    obtain ys zs where sp: "?xs = ys @ (k, srv) # zs" "\<forall>y \<in> set ys. fst y < index" "\<forall>z \<in> set zs. k < fst z" "index \<le> k"
      using sorted_find_split [of ?xs index k srv] wfe Some a by (auto simp: xa_wf_def)
    have so: "srv_ok nid k srv" using wfe sp(1) by auto
    have dk: "dir ns nid k = Some srv" using xa.entries_load [of ?xs k srv] wfe sp(1) by (simp add: dir_def)
    define ns1 where "ns1 = server_del send nid (srv_port srv) True ns"
    note d = server_del_spec [OF "1.prems"(1) ns1_def [symmetric]]
    have pt: "srv_port srv = k" using so by (simp add: srv_ok_def)
    have ys: "\<forall>y \<in> set ys. fst y \<noteq> k" using sp(2,4) by fastforce
    have "filter (\<lambda>x. fst x \<noteq> k) ys = ys" "filter (\<lambda>x. fst x \<noteq> k) zs = zs" using ys sp(3) by (auto simp: filter_id_conv)
    then have x1: "node_entries nid ns1 = ys @ zs" using d(3) [of nid] sp(1) pt by (simp add: xa_erase_def)
    have sent1: "ns_sent ns1 = ns_sent ns @ del_msgs (ns_local_node ns) (ns_lookups ns) True srv" using d(4) pt dk by simp
    have f: "filter (\<lambda>x. index \<le> fst x) ?xs = (k, srv) # zs" "filter (\<lambda>x. fst x < index) ?xs = ys"
      using sp by (auto simp: filter_empty_conv filter_id_conv not_le not_less dest: order.strict_trans1)
    show ?thesis
    proof (cases "k = NOT 0")
      case True
      have "zs = []" using sp(3) True by (cases zs) (auto simp: bit.compl_zero not_less [symmetric])
      moreover have "ns' = ns1" using "1.prems"(2) Some a True by (simp add: bye_servers.simps [of send nid index] ns1_def)
      ultimately show ?thesis using d x1 sent1 f by auto
    next
      case False
      have kn: "(y < k + 1) = (y \<le> k)" "(k + 1 \<le> y) = (k < y)" for y using word_next [of k k] False by (auto simp: word_less_nat_alt word_le_nat_alt)
      have e: "bye_servers send nid (k + 1) ns1 = ns'" using "1.prems"(2) Some a False by (simp add: bye_servers.simps [of send nid index] ns1_def)
      have "filter (\<lambda>x. fst x < k + 1) (ys @ zs) = ys" "filter (\<lambda>x. k + 1 \<le> fst x) (ys @ zs) = zs"
        using sp(2,3,4) by (auto simp: kn filter_empty_conv filter_id_conv not_le not_less intro: order.strict_implies_order dest: order.strict_trans2)
      with "1.IH" [OF Some a [symmetric] ns1_def False d(1) e] show ?thesis
        using d x1 sent1 f keeps_trans [of ns ns1 ns'] by (auto simp: keeps_def)
    qed
  qed
qed

definition dir_upd :: "(u32 \<Rightarrow> u32 \<Rightarrow> qrtr_server option) \<Rightarrow> u32 \<Rightarrow> u32 \<Rightarrow> qrtr_server option \<Rightarrow> u32 \<Rightarrow> u32 \<Rightarrow> qrtr_server option" where
  "dir_upd d nid port v = (\<lambda>n p. if n = nid \<and> p = port then v else d n p)"

lemma server_del_dir_upd: "ns_wf ns \<Longrightarrow> dir (server_del send nid port bcast ns) = dir_upd (dir ns) nid port None"
  by (auto simp: dir_upd_def fun_eq_iff server_del_dir)

text \<open>Adding a server.\<close>

definition add_ok :: "u32 \<Rightarrow> u32 \<Rightarrow> qrtr_ns \<Rightarrow> qrtr_server \<Rightarrow> qrtr_ns \<Rightarrow> bool" where
  "add_ok nid port ns srv ns' \<longleftrightarrow> srv_ok nid port srv \<and> dir ns' = dir_upd (dir ns) nid port (Some srv)"

lemma server_add_spec:
  assumes wf: "ns_wf ns" and a: "server_add service instance nid port ns = (r, ns')"
  shows "ns_wf ns' \<and> keeps ns ns' \<and> ns_sent ns' = ns_sent ns \<and> (r = None \<longrightarrow> dir ns' = dir ns) \<and>
    (\<forall>srv. r = Some srv \<longrightarrow> srv = \<lparr>srv_service = service, srv_instance = instance, srv_node = nid, srv_port = port\<rparr> \<and> add_ok nid port ns srv ns') \<and>
    (ns_allocs ns = [] \<longrightarrow> (r \<noteq> None \<longleftrightarrow> service \<noteq> 0 \<and> port \<noteq> 0))"
proof (cases "service = 0 \<or> port = 0")
  case True
  then show ?thesis using a wf by (auto simp: server_add_def)
next
  case False
  obtain ok ns1 where a1: "ns_alloc ns = (ok, ns1)" by (cases "ns_alloc ns")
  obtain nd ns2 where g: "node_get nid ns1 = (nd, ns2)" by (cases "node_get nid ns1")
  obtain ok3 ns3 where a3: "ns_alloc ns2 = (ok3, ns3)" by (cases "ns_alloc ns2")
  note s1 = ns_alloc_spec [OF a1]
  have wf1: "ns_wf ns1" using wf s1 by (auto intro: ns_wf_cong simp: keeps_def)
  note s2 = node_get_spec [OF wf1 g] and s3 = ns_alloc_spec [OF a3]
  have d1: "dir ns1 = dir ns" using s1 dir_cong [of ns1 ns] by simp
  have wf3: "ns_wf ns3" using s2(1) s3 by (auto intro: ns_wf_cong simp: keeps_def)
  have d3: "dir ns3 = dir ns" using d1 s2(2) s3 dir_cong [of ns3 ns2] by simp
  have k3: "keeps ns ns1" "keeps ns ns2" "keeps ns ns3" using s1 s2(3) s3 keeps_trans by blast+
  have k: "keeps ns ns3" "ns_sent ns3 = ns_sent ns" using k3 s1 s2(4) s3 by auto
  define srv where "srv = \<lparr>srv_service = service, srv_instance = instance, srv_node = nid, srv_port = port\<rparr>"
  have so: "srv_ok nid port srv" using False by (simp add: srv_ok_def srv_def)
  consider "\<not> ok" | "ok" "nd = None" | "ok" "nd \<noteq> None" "\<not> ok3" | "ok" "nd \<noteq> None" "ok3" by blast
  then show ?thesis
  proof cases
    case 1
    then have "r = None" "ns' = ns1" using a False a1 by (auto simp: server_add_def)
    then show ?thesis using 1 s1 wf1 d1 by auto
  next
    case 2
    then have "r = None" "ns' = ns2" using a False a1 g by (auto simp: server_add_def Let_def)
    then show ?thesis using 2 s1 s2 k3 d1 by (auto simp: keeps_def)
  next
    case 3
    then have "r = None" "ns' = ns3" using a False a1 g a3 by (auto simp: server_add_def Let_def)
    then show ?thesis using 3 k wf3 d3 k3 s3 by (auto simp: keeps_def)
  next
    case 4
    then have r: "r = Some srv" "ns' = set_servers nid (xa_store port srv) ns3" using a False a1 g a3 by (auto simp: server_add_def Let_def srv_def)
    have w: "ns_wf ns'" unfolding r(2)
      by (rule set_servers_wf [OF wf3]) (use so in \<open>auto simp: xa.wf_store xa.entries_store\<close>)
    have ld: "xa_load nid (ns_nodes ns3) \<noteq> None" using 4 s2(6) s3 by auto
    have "dir ns' n p = dir_upd (dir ns3) nid port (Some srv) n p" for n p
      using set_servers_dir [OF wf3 ld, of n "xa_store port srv"] xa.load_store [of "node_entries nid ns3" p port srv] ns_wf_entries [OF wf3, of nid]
      by (auto simp: dir_def dir_upd_def r(2))
    then have "dir ns' = dir_upd (dir ns) nid port (Some srv)" using d3 by (simp add: fun_eq_iff)
    then show ?thesis using w so r(1) k set_servers_keeps [of ns3 nid "xa_store port srv"] False keeps_trans [OF k(1)]
      by (simp add: r(2) add_ok_def srv_def)
  qed
qed

subsection \<open>Announcements\<close>

text \<open>Announcing changes only the log; when every packet is sent or its device is gone, all servers are announced.\<close>

definition announce_msgs :: "sockaddr_qrtr \<Rightarrow> qrtr_server xarray \<Rightarrow> packets" where
  "announce_msgs sq xs = map (\<lambda>x. (sq, server_pkt QRTR_TYPE_NEW_SERVER (snd x))) xs"

lemma announce_node_log: "\<exists>ms. snd (announce_node send sq xs ns) = ns\<lparr>ns_sent := ns_sent ns @ ms\<rparr> \<and> fst ` set ms \<subseteq> {sq}"
proof (induction xs arbitrary: ns)
  case (Cons x xs)
  obtain i srv where x: "x = (i, srv)" by (cases x)
  define m where "m = (sq, server_pkt QRTR_TYPE_NEW_SERVER srv)"
  obtain ms where ms: "snd (announce_node send sq xs (ns\<lparr>ns_sent := ns_sent ns @ [m]\<rparr>)) = ns\<lparr>ns_sent := ns_sent ns @ [m] @ ms\<rparr>" "fst ` set ms \<subseteq> {sq}"
    using Cons [of "ns\<lparr>ns_sent := ns_sent ns @ [m]\<rparr>"] by auto
  have 1: "\<exists>ms. snd (Inl y :: errno + nat, ns\<lparr>ns_sent := ns_sent ns @ [m]\<rparr>) = ns\<lparr>ns_sent := ns_sent ns @ ms\<rparr> \<and> fst ` set ms \<subseteq> {sq}" for y
    by (rule exI [of _ "[m]"]) (simp add: m_def)
  have 2: "\<exists>ms. snd (announce_node send sq xs (ns\<lparr>ns_sent := ns_sent ns @ [m]\<rparr>)) = ns\<lparr>ns_sent := ns_sent ns @ ms\<rparr> \<and> fst ` set ms \<subseteq> {sq}"
    by (rule exI [of _ "m # ms"]) (use ms in \<open>simp add: m_def\<close>)
  show ?case using 1 2 x by (simp add: service_announce_new_def kernel_sendmsg_def m_def split: sum.splits)
qed (auto intro!: exI [of _ "[]"])

lemma announce_nodes_log: "\<exists>ms. snd (announce_nodes send sq xs ns) = ns\<lparr>ns_sent := ns_sent ns @ ms\<rparr> \<and> fst ` set ms \<subseteq> {sq}"
proof (induction xs arbitrary: ns)
  case (Cons x xs)
  obtain i node where x: "x = (i, node)" by (cases x)
  obtain r ns1 where a: "announce_node send sq (node_servers node) ns = (r, ns1)" by (cases "announce_node send sq (node_servers node) ns")
  obtain m1 where m1: "ns1 = ns\<lparr>ns_sent := ns_sent ns @ m1\<rparr>" "fst ` set m1 \<subseteq> {sq}" using announce_node_log [of send sq "node_servers node" ns] a by auto
  obtain m2 where m2: "snd (announce_nodes send sq xs ns1) = ns1\<lparr>ns_sent := ns_sent ns1 @ m2\<rparr>" "fst ` set m2 \<subseteq> {sq}" using Cons by blast
  have 1: "\<exists>ms. ns1 = ns\<lparr>ns_sent := ns_sent ns @ ms\<rparr> \<and> fst ` set ms \<subseteq> {sq}" using m1 by blast
  have 2: "\<exists>ms. snd (announce_nodes send sq xs ns1) = ns\<lparr>ns_sent := ns_sent ns @ ms\<rparr> \<and> fst ` set ms \<subseteq> {sq}"
    by (rule exI [of _ "m1 @ m2"]) (use m1 m2 in auto)
  show ?case
  proof (cases "node_id node = sq_node sq")
    case True
    then show ?thesis using x Cons [of ns] by simp
  next
    case False
    then show ?thesis using x a 1 2 by (cases r) simp_all
  qed
qed (auto intro!: exI [of _ "[]"])

lemma announce_node_all:
  assumes "\<And>s p x. send s sq p = Inl x \<Longrightarrow> x = ENODEV"
  shows "announce_node send sq xs ns = (Inr 0, ns\<lparr>ns_sent := ns_sent ns @ announce_msgs sq xs\<rparr>)"
proof (induction xs arbitrary: ns)
  case (Cons x xs)
  then show ?case using assms by (cases x) (auto simp: service_announce_new_def kernel_sendmsg_def announce_msgs_def split: sum.splits)
qed (simp add: announce_msgs_def)

lemma announce_nodes_all:
  assumes "\<And>s p x. send s sq p = Inl x \<Longrightarrow> x = ENODEV"
  shows "announce_nodes send sq xs ns = (Inr 0, ns\<lparr>ns_sent := ns_sent ns @
    concat (map (\<lambda>(i, node). if node_id node = sq_node sq then [] else announce_msgs sq (node_servers node)) xs)\<rparr>)"
proof (induction xs arbitrary: ns)
  case (Cons x xs)
  then show ?case using announce_node_all [of send sq] assms by (cases x) auto
qed simp

section \<open>Commands and the directory\<close>

text \<open>Packets that tell nothing about servers.\<close>

definition mute :: "packets \<Rightarrow> bool" where
  "mute ms \<longleftrightarrow> list_all (\<lambda>m. pkt_cmd (snd m) \<noteq> QRTR_TYPE_NEW_SERVER \<and> pkt_cmd (snd m) \<noteq> QRTR_TYPE_DEL_SERVER) ms"

lemma node_get_none: "node_get nid ns = (None, ns') \<Longrightarrow> dir ns nid port = None"
  by (auto simp: node_get_def dir_def node_entries_def xa_load_def split: option.splits)

lemma ns_frame: "ns_wf ns \<Longrightarrow> ns_wf (ns\<lparr>ns_sent := s\<rparr>)" "dir (ns\<lparr>ns_sent := s\<rparr>) = dir ns" "keeps ns (ns\<lparr>ns_sent := s\<rparr>)"
  "node_entries n (ns\<lparr>ns_sent := s\<rparr>) = node_entries n ns"
  by (auto simp: ns_wf_def dir_def node_entries_def fun_eq_iff keeps_def)

text \<open>The last step of two commands: look up the own node and tell its servers.\<close>

lemma tell_own_servers:
  assumes wf: "ns_wf ns" and cmd: "pkt_cmd pkt \<noteq> QRTR_TYPE_NEW_SERVER" "pkt_cmd pkt \<noteq> QRTR_TYPE_DEL_SERVER"
    and t: "(case node_get nid ns of (None, ns2) \<Rightarrow> (Inr 0, ns2) | (Some node, ns2) \<Rightarrow> (Inr 0, tell_servers send pkt (node_servers node) ns2)) = (r, ns')"
  shows "ns_wf ns'" "keeps ns ns'" "dir ns' = dir ns" "\<exists>ts. ns_sent ns' = ns_sent ns @ ts \<and> mute ts"
proof -
  obtain nd ns2 where g: "node_get nid ns = (nd, ns2)" by (cases "node_get nid ns")
  note s = node_get_spec [OF wf g]
  have m: "mute (map (\<lambda>(i, srv). (\<lparr>sq_node = srv_node srv, sq_port = srv_port srv\<rparr>, pkt)) xs)" for xs using cmd by (auto simp: mute_def list_all_iff)
  have "mute []" by (simp add: mute_def)
  then show "ns_wf ns'" "keeps ns ns'" "dir ns' = dir ns" "\<exists>ts. ns_sent ns' = ns_sent ns @ ts \<and> mute ts"
    using t g s m by (auto simp: tell_servers_eq ns_frame keeps_def split: option.splits intro: exI [of _ "[]"])
qed

lemma cmd_bye_spec:
  assumes wf: "ns_wf ns" and c: "ctrl_cmd_bye send from ns = (r, ns')"
  shows "ns_wf ns'" "keeps ns ns'" "dir ns' n p = (if n = sq_node from then None else dir ns n p)"
    "\<exists>ts. ns_sent ns' = ns_sent ns @ concat (map (\<lambda>x. del_msgs (ns_local_node ns) (ns_lookups ns) True (snd x)) (node_entries (sq_node from) ns)) @ ts \<and> mute ts"
proof -
  obtain nd ns1 where g: "node_get (sq_node from) ns = (nd, ns1)" by (cases "node_get (sq_node from) ns")
  note s1 = node_get_spec [OF wf g]
  have all: "ns_wf ns' \<and> keeps ns ns' \<and> dir ns' n p = (if n = sq_node from then None else dir ns n p) \<and>
    (\<exists>ts. ns_sent ns' = ns_sent ns @ concat (map (\<lambda>x. del_msgs (ns_local_node ns) (ns_lookups ns) True (snd x)) (node_entries (sq_node from) ns)) @ ts \<and> mute ts)"
  proof (cases nd)
    case None
    then have "ns' = ns1" using c g by (simp add: ctrl_cmd_bye_def)
    moreover have "node_entries (sq_node from) ns = []" using g None by (auto simp: node_get_def node_entries_def split: option.splits)
    moreover have "dir ns (sq_node from) p = None" using node_get_none g None by simp
    ultimately show ?thesis using s1 by (auto simp: mute_def)
  next
    case (Some node)
    define ns2 where "ns2 = bye_servers send (sq_node from) 0 ns1"
    note b = bye_servers_spec [OF s1(1) ns2_def [symmetric]]
    have e: "node_entries (sq_node from) ns2 = []" "\<And>n. n \<noteq> sq_node from \<Longrightarrow> node_entries n ns2 = node_entries n ns"
      using b s1(7) by (auto simp: filter_empty_conv)
    define pkt where "pkt = \<lparr>pkt_cmd = QRTR_TYPE_BYE, pkt_w0 = sq_node from, pkt_w1 = 0, pkt_w2 = 0, pkt_w3 = 0\<rparr>"
    have cc: "(case node_get (ns_local_node ns) ns2 of (None, ns3) \<Rightarrow> (Inr 0, ns3) | (Some node, ns3) \<Rightarrow> (Inr 0, tell_servers send pkt (node_servers node) ns3)) = (r, ns')"
      unfolding pkt_def ns2_def using c g Some by (simp add: ctrl_cmd_bye_def)
    have np: "pkt_cmd pkt \<noteq> QRTR_TYPE_NEW_SERVER" "pkt_cmd pkt \<noteq> QRTR_TYPE_DEL_SERVER" by (simp_all add: pkt_def qrtr_types)
    note t' = tell_own_servers [OF conjunct1 [OF b] np cc]
    have "keeps ns ns'" using s1(3) b t'(2) keeps_trans by blast
    moreover have "dir ns2 n p = (if n = sq_node from then None else dir ns n p)" using e by (simp add: dir_def xa_load_def)
    moreover have "ns_sent ns2 = ns_sent ns @ concat (map (\<lambda>x. del_msgs (ns_local_node ns) (ns_lookups ns) True (snd x)) (node_entries (sq_node from) ns))"
      using b s1(3,4,7) by (simp add: keeps_def)
    ultimately show ?thesis using t' by auto
  qed
  then show "ns_wf ns'" "keeps ns ns'" "dir ns' n p = (if n = sq_node from then None else dir ns n p)"
    "\<exists>ts. ns_sent ns' = ns_sent ns @ concat (map (\<lambda>x. del_msgs (ns_local_node ns) (ns_lookups ns) True (snd x)) (node_entries (sq_node from) ns)) @ ts \<and> mute ts" by auto
qed

text \<open>Removing the server of one port after looking up its node.\<close>

definition port_msgs :: "bool \<Rightarrow> u32 \<Rightarrow> u32 \<Rightarrow> qrtr_ns \<Rightarrow> packets" where
  "port_msgs bcast nid port ns = (case dir ns nid port of None \<Rightarrow> [] | Some srv \<Rightarrow> del_msgs (ns_local_node ns) (ns_lookups ns) bcast srv)"

lemma get_del_spec:
  assumes wf: "ns_wf ns" and g: "node_get nid ns = (nd, ns1)" and d: "ns' = (case nd of None \<Rightarrow> ns1 | Some _ \<Rightarrow> server_del send nid port bcast ns1)"
  shows "ns_wf ns'" "keeps ns ns'" "dir ns' = dir_upd (dir ns) nid port None" "ns_sent ns' = ns_sent ns @ port_msgs bcast nid port ns"
proof -
  note s = node_get_spec [OF wf g]
  have "ns_wf ns' \<and> keeps ns ns' \<and> dir ns' = dir_upd (dir ns) nid port None \<and> ns_sent ns' = ns_sent ns @ port_msgs bcast nid port ns"
  proof (cases nd)
    case None
    then have "dir ns nid port = None" using node_get_none g by simp
    then show ?thesis using None d s by (auto simp: dir_upd_def fun_eq_iff port_msgs_def)
  next
    case (Some node)
    then have e: "ns' = server_del send nid port bcast ns1" using d by simp
    note sd = server_del_spec [OF s(1) e [symmetric]]
    have "ns_lookups ns1 = ns_lookups ns" "ns_local_node ns1 = ns_local_node ns" using s(3) by (simp_all add: keeps_def)
    then show ?thesis using sd server_del_dir_upd [OF s(1), of send nid port bcast] s(2,4) e keeps_trans [OF s(3) sd(2)]
      by (simp add: port_msgs_def split: option.splits)
  qed
  then show "ns_wf ns'" "keeps ns ns'" "dir ns' = dir_upd (dir ns) nid port None" "ns_sent ns' = ns_sent ns @ port_msgs bcast nid port ns" by auto
qed

lemma cmd_hello_spec: "ctrl_cmd_hello send sq ns = (r, ns') \<Longrightarrow> \<exists>ms. ns' = ns\<lparr>ns_sent := ns_sent ns @ ms\<rparr> \<and> fst ` set ms \<subseteq> {sq}"
proof -
  assume c: "ctrl_cmd_hello send sq ns = (r, ns')"
  define m where "m = (sq, \<lparr>pkt_cmd = QRTR_TYPE_HELLO, pkt_w0 = 0, pkt_w1 = 0, pkt_w2 = 0, pkt_w3 = 0\<rparr>)"
  define ns1 where "ns1 = ns\<lparr>ns_sent := ns_sent ns @ [m]\<rparr>"
  obtain ms where ms: "snd (announce_servers send sq ns1) = ns1\<lparr>ns_sent := ns_sent ns1 @ ms\<rparr>" "fst ` set ms \<subseteq> {sq}"
    using announce_nodes_log [of send sq "ns_nodes ns1" ns1] by (auto simp: announce_servers_def)
  have h: "say_hello send sq ns = (send (ns_sent ns) sq (snd m), ns1)" by (simp add: say_hello_def kernel_sendmsg_def m_def ns1_def)
  show ?thesis
  proof (cases "send (ns_sent ns) sq (snd m)")
    case (Inl x)
    then have "ns' = ns1" using c h by (simp add: ctrl_cmd_hello_def)
    then show ?thesis by (intro exI [of _ "[m]"]) (simp add: ns1_def m_def)
  next
    case (Inr k)
    then have "ns' = snd (announce_servers send sq ns1)" using c h by (simp add: ctrl_cmd_hello_def)
    then show ?thesis using ms by (intro exI [of _ "m # ms"]) (simp add: ns1_def m_def)
  qed
qed

definition del_client_ok :: "sockaddr_qrtr \<Rightarrow> u32 \<Rightarrow> u32 \<Rightarrow> qrtr_ns \<Rightarrow> bool" where
  "del_client_ok from nid port ns \<longleftrightarrow> sq_node from = nid \<and> (sq_node from = ns_local_node ns \<longrightarrow> sq_port from = port)"

definition without_client :: "u32 \<Rightarrow> u32 \<Rightarrow> qrtr_ns \<Rightarrow> qrtr_ns" where
  "without_client nid port ns = ns\<lparr>ns_lookups := filter (\<lambda>lu. \<not> (sq_node (lookup_sq lu) = nid \<and> sq_port (lookup_sq lu) = port)) (ns_lookups ns)\<rparr>"

lemma without_client: "ns_wf ns \<Longrightarrow> ns_wf (without_client nid port ns)" "dir (without_client nid port ns) = dir ns"
  "ns_sent (without_client nid port ns) = ns_sent ns" "ns_local_node (without_client nid port ns) = ns_local_node ns"
  by (auto simp: without_client_def ns_wf_def dir_def node_entries_def fun_eq_iff)

lemma cmd_del_client_spec:
  assumes wf: "ns_wf ns" and c: "ctrl_cmd_del_client send from nid port ns = (r, ns')"
  shows "\<not> del_client_ok from nid port ns \<Longrightarrow> r = Inl EINVAL \<and> ns' = ns"
    "del_client_ok from nid port ns \<Longrightarrow> ns_wf ns' \<and> keeps (without_client nid port ns) ns' \<and> dir ns' = dir_upd (dir ns) nid port None \<and>
       (\<exists>ts. ns_sent ns' = ns_sent ns @ port_msgs False nid port (without_client nid port ns) @ ts \<and> mute ts)"
proof -
  show "\<not> del_client_ok from nid port ns \<Longrightarrow> r = Inl EINVAL \<and> ns' = ns" using c by (auto simp: del_client_ok_def ctrl_cmd_del_client_def split: if_splits)
  assume ok: "del_client_ok from nid port ns"
  define ns1 where "ns1 = without_client nid port ns"
  have wf1: "ns_wf ns1" using without_client(1) [OF wf] by (simp add: ns1_def)
  obtain nd ns2 where g: "node_get nid ns1 = (nd, ns2)" by (cases "node_get nid ns1")
  define ns3 where "ns3 = (case nd of None \<Rightarrow> ns2 | Some _ \<Rightarrow> server_del send nid port False ns2)"
  note s = get_del_spec [OF wf1 g ns3_def]
  define pkt where "pkt = \<lparr>pkt_cmd = QRTR_TYPE_DEL_CLIENT, pkt_w0 = nid, pkt_w1 = port, pkt_w2 = 0, pkt_w3 = 0\<rparr>"
  have cc: "(case node_get (ns_local_node ns) ns3 of (None, ns4) \<Rightarrow> (Inr 0, ns4) | (Some node, ns4) \<Rightarrow> (Inr 0, tell_servers send pkt (node_servers node) ns4)) = (r, ns')"
    unfolding pkt_def ns3_def using c ok g [unfolded ns1_def without_client_def]
    by (auto simp: ctrl_cmd_del_client_def del_client_ok_def Let_def split: if_splits)
  have np: "pkt_cmd pkt \<noteq> QRTR_TYPE_NEW_SERVER" "pkt_cmd pkt \<noteq> QRTR_TYPE_DEL_SERVER" by (simp_all add: pkt_def qrtr_types)
  note t = tell_own_servers [OF s(1) np cc]
  show "ns_wf ns' \<and> keeps (without_client nid port ns) ns' \<and> dir ns' = dir_upd (dir ns) nid port None \<and>
       (\<exists>ts. ns_sent ns' = ns_sent ns @ port_msgs False nid port (without_client nid port ns) @ ts \<and> mute ts)"
    using t s keeps_trans [OF s(2) t(2)] without_client(2,3) [of nid port ns] by (auto simp: ns1_def)
qed

text \<open>The place a server is registered at: a local client registers its own port.\<close>

definition srv_place :: "sockaddr_qrtr \<Rightarrow> u32 \<Rightarrow> u32 \<Rightarrow> qrtr_ns \<Rightarrow> u32 \<times> u32" where
  "srv_place from nid port ns = (if sq_node from = ns_local_node ns then (sq_node from, sq_port from) else (nid, port))"

lemma cmd_del_server_spec:
  assumes wf: "ns_wf ns" and c: "ctrl_cmd_del_server send from service instance nid port ns = (r, ns')" and p: "srv_place from nid port ns = (n, q)"
  shows "ns_wf ns'" "keeps ns ns'" "dir ns' = dir_upd (dir ns) n q None" "ns_sent ns' = ns_sent ns @ port_msgs True n q ns"
proof -
  obtain nd ns1 where g: "node_get n ns = (nd, ns1)" by (cases "node_get n ns")
  have "ns' = (case nd of None \<Rightarrow> ns1 | Some _ \<Rightarrow> server_del send n q True ns1)"
    using c g p by (auto simp: ctrl_cmd_del_server_def srv_place_def split: option.splits if_splits)
  from get_del_spec [OF wf g this]
  show "ns_wf ns'" "keeps ns ns'" "dir ns' = dir_upd (dir ns) n q None" "ns_sent ns' = ns_sent ns @ port_msgs True n q ns" by auto
qed

lemma cmd_new_server_spec:
  assumes wf: "ns_wf ns" and c: "ctrl_cmd_new_server send from service instance nid port ns = (r, ns')" and p: "srv_place from nid port ns = (n, q)"
    and srv: "srv = \<lparr>srv_service = service, srv_instance = instance, srv_node = n, srv_port = q\<rparr>"
  shows "ns_wf ns' \<and> keeps ns ns' \<and> ((dir ns' = dir ns \<and> ns_sent ns' = ns_sent ns \<and> r = Inl EINVAL \<and> (ns_allocs ns = [] \<longrightarrow> service = 0 \<or> q = 0)) \<or>
     (dir ns' = dir_upd (dir ns) n q (Some srv) \<and> srv_ok n q srv \<and>
      (let b = (if n = ns_local_node ns then [(bcast_sq, server_pkt QRTR_TYPE_NEW_SERVER srv)] else []) in
       (\<exists>x. r = Inl x \<and> send (ns_sent ns) bcast_sq (server_pkt QRTR_TYPE_NEW_SERVER srv) = Inl x \<and> n = ns_local_node ns \<and> ns_sent ns' = ns_sent ns @ b) \<or>
       (\<exists>k. r = Inr k \<and> ns_sent ns' = ns_sent ns @ b @ lookup_msgs QRTR_TYPE_NEW_SERVER (ns_lookups ns) srv))))"
proof -
  obtain s ns1 where a: "server_add service instance n q ns = (s, ns1)" by (cases "server_add service instance n q ns")
  note ad = server_add_spec [OF wf a]
  show ?thesis
  proof (cases s)
    case None
    then have "r = Inl EINVAL" "ns' = ns1" using c a p by (auto simp: ctrl_cmd_new_server_def srv_place_def split: if_splits)
    then show ?thesis using ad None by auto
  next
    case (Some s')
    then have s': "s' = srv" "srv_ok n q srv" "dir ns1 = dir_upd (dir ns) n q (Some srv)" using ad by (auto simp: srv add_ok_def)
    have k: "ns_lookups ns1 = ns_lookups ns" "ns_sent ns1 = ns_sent ns" "ns_local_node ns1 = ns_local_node ns" using ad by (auto simp: keeps_def)
    have f: "srv_service srv = service" "srv_instance srv = instance" "srv_node srv = n" by (simp_all add: srv)
    define b where "b = (if n = ns_local_node ns then [(bcast_sq, server_pkt QRTR_TYPE_NEW_SERVER srv)] else [])"
    define ns2 where "ns2 = ns1\<lparr>ns_sent := ns_sent ns1 @ b\<rparr>"
    have fr: "ns_wf (ns1\<lparr>ns_sent := l\<rparr>)" "dir (ns1\<lparr>ns_sent := l\<rparr>) = dir ns1" "keeps ns (ns1\<lparr>ns_sent := l\<rparr>)" for l
      using ad by (auto simp: ns_frame intro: keeps_trans)
    define w where "w = send (ns_sent ns) bcast_sq (server_pkt QRTR_TYPE_NEW_SERVER srv)"
    have an: "(if srv_node srv = ns_local_node ns then service_announce_new send bcast_sq srv ns1 else (Inr 0, ns1)) = (if n = ns_local_node ns then w else Inr 0, ns2)"
      using f k by (simp add: service_announce_new_def kernel_sendmsg_def w_def ns2_def b_def)
    have "(case (if n = ns_local_node ns then w else Inr 0) of Inl x \<Rightarrow> (Inl x, ns2)
        | Inr k \<Rightarrow> (Inr k, ns2\<lparr>ns_sent := ns_sent ns2 @ lookup_msgs QRTR_TYPE_NEW_SERVER (ns_lookups ns2) srv\<rparr>)) = (r, ns')"
      using c unfolding ctrl_cmd_new_server_def srv_place_def [symmetric] p a Some s'(1)
      by (simp only: Let_def prod.case option.case a [unfolded Some s'(1)] an notify_lookups_eq [of send _ srv True, unfolded f if_True])
    then have "(\<exists>x. r = Inl x \<and> w = Inl x \<and> n = ns_local_node ns \<and> ns' = ns2) \<or>
        (\<exists>k. r = Inr k \<and> ns' = ns1\<lparr>ns_sent := ns_sent ns1 @ b @ lookup_msgs QRTR_TYPE_NEW_SERVER (ns_lookups ns1) srv\<rparr>)"
      by (cases w) (auto simp: ns2_def split: if_splits)
    then show ?thesis using fr s'(2,3) k by (auto simp: ns2_def b_def [symmetric] Let_def w_def)
  qed
qed

definition end_marker :: qrtr_ctrl_pkt where
  "end_marker = \<lparr>pkt_cmd = QRTR_TYPE_NEW_SERVER, pkt_w0 = 0, pkt_w1 = 0, pkt_w2 = 0, pkt_w3 = 0\<rparr>"

lemma cmd_new_lookup_spec:
  assumes wf: "ns_wf ns" and c: "ctrl_cmd_new_lookup send from service instance ns = (r, ns')"
    and lu: "lu = \<lparr>lookup_service = service, lookup_instance = instance, lookup_sq = from\<rparr>"
  shows "ns_wf ns' \<and> dir ns' = dir ns \<and> ns_local_node ns' = ns_local_node ns \<and>
     (r = Inl EINVAL \<and> sq_node from \<noteq> ns_local_node ns \<and> ns' = ns \<or>
      r = Inl ENOMEM \<and> ns_allocs ns \<noteq> [] \<and> keeps ns ns' \<and> ns_sent ns' = ns_sent ns \<or>
      r = Inr 0 \<and> sq_node from = ns_local_node ns \<and> ns_lookups ns' = ns_lookups ns @ [lu] \<and>
      ns_sent ns' = ns_sent ns @ map (\<lambda>srv. (from, server_pkt QRTR_TYPE_NEW_SERVER srv))
        (filter (\<lambda>srv. lookup_wants lu (srv_service srv) (srv_instance srv)) (all_servers ns)) @ [(from, end_marker)])"
proof (cases "sq_node from = ns_local_node ns")
  case False
  then show ?thesis using c wf by (simp add: ctrl_cmd_new_lookup_def)
next
  case True
  obtain ok ns1 where a: "ns_alloc ns = (ok, ns1)" by (cases "ns_alloc ns")
  note s = ns_alloc_spec [OF a]
  have wf1: "ns_wf ns1" "dir ns1 = dir ns" using wf s dir_cong [of ns1 ns] by (auto intro: ns_wf_cong simp: keeps_def)
  show ?thesis
  proof (cases ok)
    case False
    then show ?thesis using c a True s wf1 by (auto simp: ctrl_cmd_new_lookup_def keeps_def)
  next
    case ok: True
    define ms where "ms = map (\<lambda>srv. (from, server_pkt QRTR_TYPE_NEW_SERVER srv)) (filter (\<lambda>srv. lookup_wants lu (srv_service srv) (srv_instance srv)) (all_servers ns))"
    have all: "all_servers (ns1\<lparr>ns_lookups := l\<rparr>) = all_servers ns" for l using s by (simp add: all_servers_def)
    have e: "r = Inr 0" "ns' = ns1\<lparr>ns_lookups := ns_lookups ns1 @ [lu], ns_sent := ns_sent ns1 @ ms @ [(from, end_marker)]\<rparr>"
      using c a True ok match_wants [of _ service "instance" "from"] all
      by (auto simp: ctrl_cmd_new_lookup_def Let_def notify_matching_eq lookup_notify_def kernel_sendmsg_def ms_def lu [symmetric] end_marker_def)
    have "ns_wf ns'" using wf1(1) True s by (simp add: e(2) ns_wf_def keeps_def lu)
    moreover have "dir ns' = dir ns" using wf1(2) dir_cong [of ns' ns1] e(2) by simp
    ultimately show ?thesis using e True s by (auto simp: keeps_def ms_def)
  qed
qed

lemma cmd_del_lookup_spec:
  "ns_wf ns \<Longrightarrow> ns_wf (ctrl_cmd_del_lookup from service instance ns)"
  "dir (ctrl_cmd_del_lookup from service instance ns) = dir ns" "ns_local_node (ctrl_cmd_del_lookup from service instance ns) = ns_local_node ns"
  by (auto simp: ctrl_cmd_del_lookup_def ns_wf_def dir_def node_entries_def fun_eq_iff)

text \<open>Every packet from anyone keeps the directory well-formed.\<close>

lemma handle_pkt_wf:
  assumes wf: "ns_wf ns" and h: "handle_pkt send sq pkt ns = (r, ns')"
  shows "ns_wf ns' \<and> ns_local_node ns' = ns_local_node ns"
proof -
  have hello: "ns_wf ns' \<and> ns_local_node ns' = ns_local_node ns" if "ctrl_cmd_hello send sq ns = (r, ns')"
    using cmd_hello_spec [OF that] ns_frame(1) [OF wf] by auto
  have bye: "ns_wf ns' \<and> ns_local_node ns' = ns_local_node ns" if "ctrl_cmd_bye send sq ns = (r, ns')"
    using cmd_bye_spec(1,2) [OF wf that] by (simp add: keeps_def)
  have dc: "ns_wf ns' \<and> ns_local_node ns' = ns_local_node ns" if "ctrl_cmd_del_client send sq (pkt_w0 pkt) (pkt_w1 pkt) ns = (r, ns')"
    using cmd_del_client_spec [OF wf that] wf by (auto simp: keeps_def without_client_def)
  obtain n q where p: "srv_place sq (pkt_w2 pkt) (pkt_w3 pkt) ns = (n, q)" by fastforce
  have nw: "ns_wf ns' \<and> ns_local_node ns' = ns_local_node ns" if "ctrl_cmd_new_server send sq (pkt_w0 pkt) (pkt_w1 pkt) (pkt_w2 pkt) (pkt_w3 pkt) ns = (r, ns')"
    using cmd_new_server_spec [OF wf that p refl] by (simp add: keeps_def)
  have ds: "ns_wf ns' \<and> ns_local_node ns' = ns_local_node ns" if "ctrl_cmd_del_server send sq (pkt_w0 pkt) (pkt_w1 pkt) (pkt_w2 pkt) (pkt_w3 pkt) ns = (r, ns')"
    using cmd_del_server_spec(1,2) [OF wf that p] by (simp add: keeps_def)
  have nl: "ns_wf ns' \<and> ns_local_node ns' = ns_local_node ns" if "ctrl_cmd_new_lookup send sq (pkt_w0 pkt) (pkt_w1 pkt) ns = (r, ns')"
    using cmd_new_lookup_spec [OF wf that refl] by simp
  show ?thesis using h hello bye dc nw ds nl wf cmd_del_lookup_spec(1) [OF wf]
    by (auto simp: handle_pkt_def Let_def cmd_del_lookup_spec(3) split: if_splits)
qed

subsection \<open>Runs\<close>

text \<open>The packets the worker sees in a list of received datagrams, and what handling them does.\<close>

fun ns_events :: "received list \<Rightarrow> byte list \<Rightarrow> (sockaddr_qrtr \<times> qrtr_ctrl_pkt) list" where
  "ns_events (Inr (data, sq) # rs) buf = (let buf1 = buf_put buf 0 (take recv_buf_size data) in (sq, parse_pkt buf1) # ns_events rs buf1)"
| "ns_events rs buf = []"

fun ns_run :: "sender \<Rightarrow> (sockaddr_qrtr \<times> qrtr_ctrl_pkt) list \<Rightarrow> qrtr_ns \<Rightarrow> qrtr_ns" where
  "ns_run send [] ns = ns"
| "ns_run send ((sq, pkt) # evs) ns = ns_run send evs (snd (handle_pkt send sq pkt ns))"

lemma recv_loop_run: "ns_recv_loop send rs buf ns = ns_run send (ns_events rs buf) ns"
  by (induction send rs buf ns rule: ns_recv_loop.induct) (auto simp: Let_def)

lemma ns_run_wf: "ns_wf ns \<Longrightarrow> ns_wf (ns_run send evs ns) \<and> ns_local_node (ns_run send evs ns) = ns_local_node ns"
proof (induction send evs ns rule: ns_run.induct)
  case (2 send sq pkt evs ns)
  then show ?case using handle_pkt_wf [of ns send sq pkt] by (cases "handle_pkt send sq pkt ns") auto
qed simp

lemma worker_run:
  "\<exists>ns1. ns_nodes ns1 = ns_nodes ns \<and> keeps ns ns1 \<and> ns_sent ns1 = ns_sent ns \<and>
     (qrtr_ns_worker send rs ns = ns1 \<or> qrtr_ns_worker send rs ns = ns_run send (ns_events rs (replicate recv_buf_size 0)) ns1)"
  by (cases "ns_alloc ns") (auto simp: qrtr_ns_worker_def recv_loop_run dest: ns_alloc_spec)

text \<open>The states of the service: initialisation, and then any number of activations of the worker.\<close>

inductive ns_reachable :: "sender \<Rightarrow> qrtr_ns \<Rightarrow> bool" for send where
  init: "qrtr_ns_init send sock name task_ok bind_ret allocs = (Inr 0, ns) \<Longrightarrow> ns_reachable send ns"
| work: "ns_reachable send ns \<Longrightarrow> ns_reachable send (qrtr_ns_worker send rs ns)"

lemma init_wf: "qrtr_ns_init send sock name task_ok bind_ret allocs = (r, ns) \<Longrightarrow> ns_wf ns"
  by (auto simp: qrtr_ns_init_def say_hello_def kernel_sendmsg_def Let_def ns_wf_def xa_wf_def split: sum.splits if_splits prod.splits)

lemma reachable_wf: "ns_reachable send ns \<Longrightarrow> ns_wf ns"
proof (induction rule: ns_reachable.induct)
  case (work ns rs)
  obtain ns1 where "ns_nodes ns1 = ns_nodes ns" "keeps ns ns1" "qrtr_ns_worker send rs ns = ns1 \<or> qrtr_ns_worker send rs ns = ns_run send (ns_events rs (replicate recv_buf_size 0)) ns1"
    using worker_run by blast
  then show ?case using work.IH ns_wf_cong [of ns ns1] ns_run_wf [of ns1] by (auto simp: keeps_def)
qed (rule init_wf)

end
