(* ===== verification/Qrtr_Observe.thy ===== *)
theory Qrtr_Observe
  imports Qrtr_Ns
begin

text \<open>
  What the clients of the name service (\<^verbatim>\<open>net/qrtr/ns.c\<close>) learn from it.  An observer that has registered a lookup
  can rebuild the matching part of the directory from the packets it receives; two name services that have
  greeted each other know the same servers.
\<close>

section \<open>What a client has heard\<close>

text \<open>
  The directory a client builds from the packets sent to its address: a new server replaces the one on its
  port, a deleted one is removed, and the empty notification tells nothing.
\<close>

definition hear :: "qrtr_ctrl_pkt \<Rightarrow> (u32 \<Rightarrow> u32 \<Rightarrow> qrtr_server option) \<Rightarrow> u32 \<Rightarrow> u32 \<Rightarrow> qrtr_server option" where
  "hear p d =
     (if pkt_cmd p = QRTR_TYPE_NEW_SERVER \<and> pkt_w0 p \<noteq> 0
      then dir_upd d (pkt_w2 p) (pkt_w3 p) (Some \<lparr>srv_service = pkt_w0 p, srv_instance = pkt_w1 p, srv_node = pkt_w2 p, srv_port = pkt_w3 p\<rparr>)
      else if pkt_cmd p = QRTR_TYPE_DEL_SERVER then dir_upd d (pkt_w2 p) (pkt_w3 p) None
      else d)"

fun heard :: "sockaddr_qrtr \<Rightarrow> packets \<Rightarrow> (u32 \<Rightarrow> u32 \<Rightarrow> qrtr_server option) \<Rightarrow> u32 \<Rightarrow> u32 \<Rightarrow> qrtr_server option" where
  "heard sq [] d = d"
| "heard sq ((to, p) # ms) d = heard sq ms (if to = sq then hear p d else d)"

text \<open>The part of a directory an observer asked for.\<close>

definition wanted :: "qrtr_lookup \<Rightarrow> (u32 \<Rightarrow> u32 \<Rightarrow> qrtr_server option) \<Rightarrow> u32 \<Rightarrow> u32 \<Rightarrow> qrtr_server option" where
  "wanted lu d = (\<lambda>n p. case d n p of None \<Rightarrow> None | Some srv \<Rightarrow> if lookup_wants lu (srv_service srv) (srv_instance srv) then Some srv else None)"

lemma heard_append: "heard sq (ms @ ms') d = heard sq ms' (heard sq ms d)"
  by (induction sq ms d rule: heard.induct) auto

lemma heard_other: "sq \<notin> fst ` set ms \<Longrightarrow> heard sq ms d = d"
  by (induction sq ms d rule: heard.induct) auto

lemma heard_mute: "mute ms \<Longrightarrow> heard sq ms d = d"
  by (induction sq ms d rule: heard.induct) (auto simp: mute_def hear_def)

lemma hear_new: "srv_ok n p srv \<Longrightarrow> hear (server_pkt QRTR_TYPE_NEW_SERVER srv) d = dir_upd d n p (Some srv)"
  by (cases srv) (auto simp: hear_def server_pkt_def srv_ok_def)

lemma hear_del: "srv_ok n p srv \<Longrightarrow> hear (server_pkt QRTR_TYPE_DEL_SERVER srv) d = dir_upd d n p None"
  by (auto simp: hear_def server_pkt_def srv_ok_def qrtr_types)

text \<open>The observer of interest is the only one at its address, which is not the broadcast address.\<close>

definition sole :: "qrtr_lookup \<Rightarrow> qrtr_ns \<Rightarrow> bool" where
  "sole lu ns \<longleftrightarrow> filter (\<lambda>l. lookup_sq l = lookup_sq lu) (ns_lookups ns) = [lu] \<and> lookup_sq lu \<noteq> bcast_sq"

lemma heard_lookup_filter:
  "heard sq (lookup_msgs cmd lus srv) d = heard sq (lookup_msgs cmd (filter (\<lambda>l. lookup_sq l = sq) lus) srv) d"
  by (induction lus arbitrary: d) (auto simp: lookup_msgs_def)

lemma heard_lookup_msgs:
  "sole lu ns \<Longrightarrow> heard (lookup_sq lu) (lookup_msgs cmd (ns_lookups ns) srv) d =
   (if lookup_wants lu (srv_service srv) (srv_instance srv) then hear (server_pkt cmd srv) d else d)"
  by (subst heard_lookup_filter) (simp add: sole_def lookup_msgs_def)

lemma heard_del_msgs:
  assumes "sole lu ns" "srv_ok n p srv"
  shows "heard (lookup_sq lu) (del_msgs local (ns_lookups ns) bcast srv) d =
     (if lookup_wants lu (srv_service srv) (srv_instance srv) then dir_upd d n p None else d)"
proof -
  have "heard (lookup_sq lu) (if srv_node srv = local \<and> bcast then [(bcast_sq, server_pkt QRTR_TYPE_DEL_SERVER srv)] else []) d = d"
    using assms(1) by (intro heard_other) (auto simp: sole_def)
  then show ?thesis using heard_lookup_msgs [OF assms(1)] hear_del [OF assms(2)] by (simp add: del_msgs_def heard_append)
qed

lemma heard_port_msgs:
  assumes "ns_wf ns" "sole lu ns"
  shows "heard (lookup_sq lu) (port_msgs bcast n p ns) (wanted lu (dir ns)) = wanted lu (dir_upd (dir ns) n p None)"
proof (cases "dir ns n p")
  case None
  then show ?thesis by (auto simp: port_msgs_def wanted_def dir_upd_def fun_eq_iff)
next
  case (Some srv)
  then show ?thesis using heard_del_msgs [OF assms(2) dir_ok [OF assms(1) Some]] by (auto simp: port_msgs_def wanted_def dir_upd_def fun_eq_iff)
qed

lemma heard_node_msgs:
  assumes "sole lu ns"
  shows "\<forall>(p, srv) \<in> set xs. srv_ok n p srv \<Longrightarrow>
    heard (lookup_sq lu) (concat (map (\<lambda>x. del_msgs local (ns_lookups ns) bcast (snd x)) xs)) d =
    (\<lambda>m q. if m = n \<and> (\<exists>srv. (q, srv) \<in> set xs \<and> lookup_wants lu (srv_service srv) (srv_instance srv)) then None else d m q)"
proof (induction xs arbitrary: d)
  case (Cons x xs)
  obtain p srv where x: "x = (p, srv)" by (cases x)
  then have "srv_ok n p srv" using Cons.prems by auto
  from heard_del_msgs [OF assms this] show ?case using Cons x by (auto simp: heard_append dir_upd_def fun_eq_iff)
qed simp

section \<open>Steps\<close>

text \<open>
  The packets that may arrive while the observer waits: it does not withdraw or repeat its lookup, does not greet the
  service, and no server the observer asked for is replaced on its port by one it did not ask for.
\<close>

definition allowed :: "qrtr_lookup \<Rightarrow> sockaddr_qrtr \<Rightarrow> qrtr_ctrl_pkt \<Rightarrow> qrtr_ns \<Rightarrow> bool" where
  "allowed lu sq pkt ns \<longleftrightarrow>
     (pkt_cmd pkt \<in> {QRTR_TYPE_HELLO, QRTR_TYPE_NEW_LOOKUP, QRTR_TYPE_DEL_LOOKUP} \<longrightarrow> sq \<noteq> lookup_sq lu) \<and>
     (pkt_cmd pkt = QRTR_TYPE_DEL_CLIENT \<longrightarrow> \<not> (pkt_w0 pkt = sq_node (lookup_sq lu) \<and> pkt_w1 pkt = sq_port (lookup_sq lu))) \<and>
     (pkt_cmd pkt = QRTR_TYPE_NEW_SERVER \<longrightarrow>
        (let (n, p) = srv_place sq (pkt_w2 pkt) (pkt_w3 pkt) ns in
         case wanted lu (dir ns) n p of None \<Rightarrow> True | Some old \<Rightarrow> lookup_wants lu (pkt_w0 pkt) (pkt_w1 pkt)))"

fun allowed_run :: "sender \<Rightarrow> qrtr_lookup \<Rightarrow> (sockaddr_qrtr \<times> qrtr_ctrl_pkt) list \<Rightarrow> qrtr_ns \<Rightarrow> bool" where
  "allowed_run send lu [] ns = True"
| "allowed_run send lu ((sq, pkt) # evs) ns = (allowed lu sq pkt ns \<and> allowed_run send lu evs (snd (handle_pkt send sq pkt ns)))"

text \<open>One step as the observer sees it.\<close>

definition told :: "qrtr_lookup \<Rightarrow> qrtr_ns \<Rightarrow> qrtr_ns \<Rightarrow> bool" where
  "told lu ns ns' \<longleftrightarrow> sole lu ns' \<and> (\<exists>ms. ns_sent ns' = ns_sent ns @ ms \<and> heard (lookup_sq lu) ms (wanted lu (dir ns)) = wanted lu (dir ns'))"

lemma told_refl: "sole lu ns \<Longrightarrow> told lu ns ns"
  by (auto simp: told_def)

lemma told_trans: "told lu a b \<Longrightarrow> told lu b c \<Longrightarrow> told lu a c"
  unfolding told_def by (metis append.assoc heard_append)

lemma sole_keeps: "sole lu ns \<Longrightarrow> keeps ns ns' \<Longrightarrow> sole lu ns'"
  by (simp add: sole_def keeps_def)

lemma told_bye:
  assumes "ns_wf ns" "sole lu ns" "ctrl_cmd_bye send sq ns = (r, ns')"
  shows "told lu ns ns'"
proof -
  note s = cmd_bye_spec [OF assms(1,3)]
  let ?xs = "node_entries (sq_node sq) ns"
  obtain ts where ts: "ns_sent ns' = ns_sent ns @ concat (map (\<lambda>x. del_msgs (ns_local_node ns) (ns_lookups ns) True (snd x)) ?xs) @ ts" "mute ts" using s(4) by blast
  note we = ns_wf_entries [OF assms(1), of "sq_node sq"]
  have d: "dir ns (sq_node sq) q = Some srv \<longleftrightarrow> (q, srv) \<in> set ?xs" for q srv using xa.entries_load [of ?xs q srv] we by (simp add: dir_def)
  have "heard (lookup_sq lu) (concat (map (\<lambda>x. del_msgs (ns_local_node ns) (ns_lookups ns) True (snd x)) ?xs)) (wanted lu (dir ns)) = wanted lu (dir ns')"
    using heard_node_msgs [OF assms(2), of ?xs "sq_node sq"] we s(3) d [symmetric] by (auto simp: wanted_def fun_eq_iff split: option.splits)
  then show ?thesis using ts sole_keeps [OF assms(2) s(2)] by (auto simp: told_def heard_append heard_mute)
qed

lemma told_del_client:
  assumes "ns_wf ns" "sole lu ns" "ctrl_cmd_del_client send sq nid port ns = (r, ns')" "\<not> (nid = sq_node (lookup_sq lu) \<and> port = sq_port (lookup_sq lu))"
  shows "told lu ns ns'"
proof (cases "del_client_ok sq nid port ns")
  case False
  then show ?thesis using cmd_del_client_spec(1) [OF assms(1,3)] told_refl [OF assms(2)] by simp
next
  case True
  define ns1 where "ns1 = without_client nid port ns"
  have "filter (\<lambda>l. lookup_sq l = lookup_sq lu) (filter (\<lambda>l. \<not> (sq_node (lookup_sq l) = nid \<and> sq_port (lookup_sq l) = port)) (ns_lookups ns)) =
      filter (\<lambda>l. lookup_sq l = lookup_sq lu) (ns_lookups ns)" using assms(4) by (auto simp: filter_filter intro!: filter_cong)
  then have s1: "sole lu ns1" using assms(2) by (simp add: sole_def ns1_def without_client_def)
  obtain ts where s: "keeps ns1 ns'" "dir ns' = dir_upd (dir ns) nid port None" "ns_sent ns' = ns_sent ns @ port_msgs False nid port ns1 @ ts" "mute ts"
    using cmd_del_client_spec(2) [OF assms(1,3) True] by (auto simp: ns1_def)
  have "heard (lookup_sq lu) (port_msgs False nid port ns1) (wanted lu (dir ns)) = wanted lu (dir ns')"
    using heard_port_msgs [OF _ s1, of False nid port] assms(1) s(2) by (simp add: ns1_def without_client)
  then show ?thesis using s sole_keeps [OF s1 s(1)] by (auto simp: told_def heard_append heard_mute)
qed

lemma told_del_server:
  assumes "ns_wf ns" "sole lu ns" "ctrl_cmd_del_server send sq service instance nid port ns = (r, ns')"
  shows "told lu ns ns'"
proof -
  obtain n q where p: "srv_place sq nid port ns = (n, q)" by fastforce
  note s = cmd_del_server_spec [OF assms(1,3) p]
  show ?thesis using heard_port_msgs [OF assms(1,2), of True n q] s sole_keeps [OF assms(2) s(2)] by (auto simp: told_def)
qed

lemma told_new_server:
  assumes wf: "ns_wf ns" and so: "sole lu ns" and c: "ctrl_cmd_new_server send sq service instance nid port ns = (r, ns')"
    and p: "srv_place sq nid port ns = (n, q)" and old: "wanted lu (dir ns) n q \<noteq> None \<Longrightarrow> lookup_wants lu service instance"
    and bc: "\<And>s m x. send s bcast_sq m \<noteq> Inl x"
  shows "told lu ns ns'"
proof -
  define srv where "srv = \<lparr>srv_service = service, srv_instance = instance, srv_node = n, srv_port = q\<rparr>"
  define b where "b = (if n = ns_local_node ns then [(bcast_sq, server_pkt QRTR_TYPE_NEW_SERVER srv)] else [])"
  note s = cmd_new_server_spec [OF wf c p srv_def]
  have so': "sole lu ns'" using s sole_keeps [OF so] by blast
  have hb: "heard (lookup_sq lu) b d = d" for d using so by (intro heard_other) (auto simp: sole_def b_def)
  from s consider "dir ns' = dir ns" "ns_sent ns' = ns_sent ns"
    | "dir ns' = dir_upd (dir ns) n q (Some srv)" "srv_ok n q srv" "ns_sent ns' = ns_sent ns @ b @ lookup_msgs QRTR_TYPE_NEW_SERVER (ns_lookups ns) srv"
    using bc by (auto simp: b_def Let_def)
  then show ?thesis
  proof cases
    case 1
    then show ?thesis using so' by (simp add: told_def)
  next
    case 2
    have "heard (lookup_sq lu) (lookup_msgs QRTR_TYPE_NEW_SERVER (ns_lookups ns) srv) (wanted lu (dir ns)) = wanted lu (dir ns')"
      using old heard_lookup_msgs [OF so] hear_new [OF 2(2)] unfolding 2(1)
      by (auto simp: srv_def wanted_def dir_upd_def fun_eq_iff split: option.splits if_splits)
    then show ?thesis using so' 2(3) hb by (simp add: told_def heard_append)
  qed
qed

lemma told_elsewhere:
  assumes "sole lu ns'" "dir ns' = dir ns" "ns_sent ns' = ns_sent ns @ ms" "fst ` set ms \<subseteq> {sq}" "sq \<noteq> lookup_sq lu"
  shows "told lu ns ns'"
proof -
  have "heard (lookup_sq lu) ms (wanted lu (dir ns)) = wanted lu (dir ns)" using assms(4,5) by (intro heard_other) auto
  then show ?thesis using assms(1,2,3) by (auto simp: told_def)
qed

lemma told_hello:
  assumes "sole lu ns" "ctrl_cmd_hello send sq ns = (r, ns')" "sq \<noteq> lookup_sq lu"
  shows "told lu ns ns'"
proof -
  obtain ms where ms: "ns' = ns\<lparr>ns_sent := ns_sent ns @ ms\<rparr>" "fst ` set ms \<subseteq> {sq}" using cmd_hello_spec [OF assms(2)] by blast
  show ?thesis by (rule told_elsewhere [OF _ _ _ ms(2) assms(3)]) (use assms(1) in \<open>simp_all add: ms(1) sole_def ns_frame\<close>)
qed

lemma told_new_lookup:
  assumes wf: "ns_wf ns" and so: "sole lu ns" and c: "ctrl_cmd_new_lookup send sq service instance ns = (r, ns')" and sq: "sq \<noteq> lookup_sq lu"
  shows "told lu ns ns'"
proof -
  define l where "l = \<lparr>lookup_service = service, lookup_instance = instance, lookup_sq = sq\<rparr>"
  note s = cmd_new_lookup_spec [OF wf c l_def]
  have so': "sole lu ns'" using s so sq by (auto simp: sole_def keeps_def l_def)
  obtain ms where ms: "ns_sent ns' = ns_sent ns @ ms" "fst ` set ms \<subseteq> {sq}"
    using s by (elim conjE disjE) (auto intro: that [of "[]"] that)
  show ?thesis by (rule told_elsewhere [OF so' _ ms sq]) (use s in blast)
qed

lemma told_del_lookup:
  assumes "sole lu ns" "sq \<noteq> lookup_sq lu"
  shows "told lu ns (ctrl_cmd_del_lookup sq service instance ns)"
proof -
  let ?ns = "ctrl_cmd_del_lookup sq service instance ns"
  have "filter (\<lambda>l. lookup_sq l = lookup_sq lu) (ns_lookups ?ns) = filter (\<lambda>l. lookup_sq l = lookup_sq lu) (ns_lookups ns)"
    using assms(2) by (cases sq; cases "lookup_sq lu") (auto simp: ctrl_cmd_del_lookup_def filter_filter intro!: filter_cong)
  then have "sole lu ?ns" using assms(1) by (simp add: sole_def)
  moreover have "ns_sent ?ns = ns_sent ns" by (simp add: ctrl_cmd_del_lookup_def)
  ultimately show ?thesis by (simp add: told_def cmd_del_lookup_spec)
qed

lemma handle_told:
  assumes wf: "ns_wf ns" and so: "sole lu ns" and al: "allowed lu sq pkt ns" and bc: "\<And>s m x. send s bcast_sq m \<noteq> Inl x"
    and h: "handle_pkt send sq pkt ns = (r, ns')"
  shows "told lu ns ns'"
proof -
  let ?cmd = "pkt_cmd pkt"
  obtain n q where p: "srv_place sq (pkt_w2 pkt) (pkt_w3 pkt) ns = (n, q)" by fastforce
  consider (hello) "?cmd = QRTR_TYPE_HELLO" | (bye) "?cmd = QRTR_TYPE_BYE" | (dc) "?cmd = QRTR_TYPE_DEL_CLIENT" | (new) "?cmd = QRTR_TYPE_NEW_SERVER"
    | (del) "?cmd = QRTR_TYPE_DEL_SERVER" | (nl) "?cmd = QRTR_TYPE_NEW_LOOKUP" | (dl) "?cmd = QRTR_TYPE_DEL_LOOKUP"
    | (none) "?cmd \<notin> {QRTR_TYPE_HELLO, QRTR_TYPE_BYE, QRTR_TYPE_DEL_CLIENT, QRTR_TYPE_NEW_SERVER, QRTR_TYPE_DEL_SERVER, QRTR_TYPE_NEW_LOOKUP, QRTR_TYPE_DEL_LOOKUP}"
    by blast
  then show ?thesis
  proof cases
    case hello
    then show ?thesis using told_hello [OF so, of send sq r ns'] al h by (simp add: handle_pkt_def allowed_def)
  next
    case bye
    then show ?thesis using told_bye [OF wf so, of send sq r ns'] h by (simp add: handle_pkt_def qrtr_types)
  next
    case dc
    then show ?thesis using told_del_client [OF wf so, of send sq "pkt_w0 pkt" "pkt_w1 pkt" r ns'] al h by (auto simp: handle_pkt_def allowed_def qrtr_types)
  next
    case new
    then have "ctrl_cmd_new_server send sq (pkt_w0 pkt) (pkt_w1 pkt) (pkt_w2 pkt) (pkt_w3 pkt) ns = (r, ns')" using h by (simp add: handle_pkt_def qrtr_types)
    then show ?thesis using told_new_server [OF wf so _ p] al new p bc by (auto simp: allowed_def split: option.splits)
  next
    case del
    then show ?thesis using told_del_server [OF wf so, of send sq _ _ _ _ r ns'] h by (simp add: handle_pkt_def qrtr_types)
  next
    case nl
    then show ?thesis using told_new_lookup [OF wf so, of send sq _ _ r ns'] al h by (simp add: handle_pkt_def allowed_def qrtr_types)
  next
    case dl
    then show ?thesis using told_del_lookup [OF so, of sq] al h by (auto simp: handle_pkt_def allowed_def qrtr_types)
  next
    case none
    then show ?thesis using told_refl [OF so] h by (simp add: handle_pkt_def)
  qed
qed

lemma run_told:
  assumes bc: "\<And>s m x. send s bcast_sq m \<noteq> Inl x"
  shows "ns_wf ns \<Longrightarrow> sole lu ns \<Longrightarrow> allowed_run send lu evs ns \<Longrightarrow> told lu ns (ns_run send evs ns)"
proof (induction evs arbitrary: ns)
  case Nil
  then show ?case by (simp add: told_refl)
next
  case (Cons e evs)
  obtain sq pkt where e: "e = (sq, pkt)" by (cases e)
  obtain r ns1 where h: "handle_pkt send sq pkt ns = (r, ns1)" by (cases "handle_pkt send sq pkt ns")
  have al: "allowed lu sq pkt ns" "allowed_run send lu evs ns1" using Cons.prems(3) e h by simp_all
  have t: "told lu ns ns1" by (rule handle_told [OF Cons.prems(1,2) al(1) bc h])
  then have "told lu ns1 (ns_run send evs ns1)" using Cons.IH [of ns1] al(2) handle_pkt_wf [OF Cons.prems(1) h] by (simp add: told_def)
  then show ?case using told_trans [OF t] e h by simp
qed

section \<open>Registration\<close>

lemma nodes_load: "ns_wf ns \<Longrightarrow> (nid, node) \<in> set (ns_nodes ns) \<longleftrightarrow> xa_load nid (ns_nodes ns) = Some node"
  by (rule xa.entries_load) (simp add: ns_wf_def)

lemma entries_dir: "ns_wf ns \<Longrightarrow> (p, srv) \<in> set (node_entries nid ns) \<longleftrightarrow> dir ns nid p = Some srv"
  unfolding dir_def by (rule xa.entries_load) (use ns_wf_entries in blast)

lemma all_servers_mem: "srv \<in> set (all_servers ns) \<longleftrightarrow> (\<exists>nid node p. (nid, node) \<in> set (ns_nodes ns) \<and> (p, srv) \<in> set (node_servers node))"
  by (force simp: all_servers_def)

lemma all_servers_dir: "ns_wf ns \<Longrightarrow> srv \<in> set (all_servers ns) \<longleftrightarrow> dir ns (srv_node srv) (srv_port srv) = Some srv"
proof
  assume wf: "ns_wf ns" and "srv \<in> set (all_servers ns)"
  then obtain nid node p where n: "xa_load nid (ns_nodes ns) = Some node" "(p, srv) \<in> set (node_servers node)" by (auto simp: all_servers_mem nodes_load)
  then have "dir ns nid p = Some srv" using entries_dir [OF wf, of p srv nid] by (simp add: node_entries_def)
  then show "dir ns (srv_node srv) (srv_port srv) = Some srv" using dir_ok [OF wf] by (auto simp: srv_ok_def)
next
  assume wf: "ns_wf ns" and d: "dir ns (srv_node srv) (srv_port srv) = Some srv"
  then have e: "(srv_port srv, srv) \<in> set (node_entries (srv_node srv) ns)" by (simp add: entries_dir)
  then obtain node where "xa_load (srv_node srv) (ns_nodes ns) = Some node" by (cases "xa_load (srv_node srv) (ns_nodes ns)") (auto simp: node_entries_def)
  then show "srv \<in> set (all_servers ns)" using e wf by (auto simp: all_servers_mem nodes_load node_entries_def)
qed

text \<open>A list of announcements that agrees with a directory.\<close>

lemma heard_list:
  assumes "\<forall>srv \<in> set srvs. D (srv_node srv) (srv_port srv) = Some srv \<and> srv_service srv \<noteq> 0"
  shows "heard sq (map (\<lambda>srv. (sq, server_pkt QRTR_TYPE_NEW_SERVER srv)) srvs) d =
     (\<lambda>n p. if \<exists>srv \<in> set srvs. srv_node srv = n \<and> srv_port srv = p then D n p else d n p)"
  using assms
proof (induction srvs arbitrary: d)
  case (Cons srv srvs)
  have "hear (server_pkt QRTR_TYPE_NEW_SERVER srv) d = dir_upd d (srv_node srv) (srv_port srv) (Some srv)"
    using Cons.prems by (cases srv) (simp add: hear_def server_pkt_def)
  then show ?case using Cons by (auto simp: dir_upd_def fun_eq_iff)
qed simp

lemma lookup_told:
  assumes wf: "ns_wf ns" and c: "ctrl_cmd_new_lookup send sq service instance ns = (Inr k, ns1)"
    and fresh: "\<forall>l \<in> set (ns_lookups ns). lookup_sq l \<noteq> sq" "sq \<noteq> bcast_sq"
    and lu: "lu = \<lparr>lookup_service = service, lookup_instance = instance, lookup_sq = sq\<rparr>"
  shows "ns_wf ns1" "sole lu ns1" "\<exists>ms. ns_sent ns1 = ns_sent ns @ ms \<and> (sq, end_marker) \<in> set ms \<and> heard sq ms (\<lambda>_ _. None) = wanted lu (dir ns1)"
proof -
  note s = cmd_new_lookup_spec [OF wf c lu]
  then have s': "ns_wf ns1" "dir ns1 = dir ns" "ns_lookups ns1 = ns_lookups ns @ [lu]" by auto
  define srvs where "srvs = filter (\<lambda>srv. lookup_wants lu (srv_service srv) (srv_instance srv)) (all_servers ns)"
  have se: "ns_sent ns1 = ns_sent ns @ map (\<lambda>srv. (sq, server_pkt QRTR_TYPE_NEW_SERVER srv)) srvs @ [(sq, end_marker)]" using s by (auto simp: srvs_def)
  have ds: "\<forall>srv \<in> set srvs. dir ns (srv_node srv) (srv_port srv) = Some srv \<and> srv_service srv \<noteq> 0"
    using all_servers_dir [OF wf] dir_ok [OF wf] by (fastforce simp: srvs_def srv_ok_def)
  have mem: "(\<exists>srv \<in> set srvs. srv_node srv = n \<and> srv_port srv = p) \<longleftrightarrow> wanted lu (dir ns) n p \<noteq> None" for n p
  proof
    assume "\<exists>srv \<in> set srvs. srv_node srv = n \<and> srv_port srv = p"
    then show "wanted lu (dir ns) n p \<noteq> None" using ds by (auto simp: wanted_def srvs_def)
  next
    assume "wanted lu (dir ns) n p \<noteq> None"
    then obtain srv where d: "dir ns n p = Some srv" "lookup_wants lu (srv_service srv) (srv_instance srv)" by (auto simp: wanted_def split: option.splits if_splits)
    have "srv_node srv = n" "srv_port srv = p" using dir_ok [OF wf d(1)] by (simp_all add: srv_ok_def)
    then show "\<exists>srv \<in> set srvs. srv_node srv = n \<and> srv_port srv = p" using d all_servers_dir [OF wf, of srv] by (auto simp: srvs_def)
  qed
  have w: "wanted lu (dir ns) n p = dir ns n p" if "wanted lu (dir ns) n p \<noteq> None" for n p using that by (auto simp: wanted_def split: option.splits if_splits)
  have em: "hear end_marker d = d" for d by (simp add: hear_def end_marker_def qrtr_types)
  have "heard sq (map (\<lambda>srv. (sq, server_pkt QRTR_TYPE_NEW_SERVER srv)) srvs @ [(sq, end_marker)]) (\<lambda>_ _. None) = wanted lu (dir ns)"
    unfolding heard_append heard_list [OF ds] mem using w by (auto simp: em fun_eq_iff)
  then show "\<exists>ms. ns_sent ns1 = ns_sent ns @ ms \<and> (sq, end_marker) \<in> set ms \<and> heard sq ms (\<lambda>_ _. None) = wanted lu (dir ns1)" using se s'(2) by auto
  show "ns_wf ns1" by (fact s'(1))
  show "sole lu ns1" using s'(3) fresh by (auto simp: sole_def lu filter_empty_conv)
qed

lemma worker_told:
  assumes "ns_wf ns" "sole lu ns" "allowed_run send lu (ns_events rs (replicate recv_buf_size 0)) (snd (ns_alloc ns))" "\<And>s m x. send s bcast_sq m \<noteq> Inl x"
  shows "told lu ns (qrtr_ns_worker send rs ns)"
proof -
  obtain ok ns1 where a: "ns_alloc ns = (ok, ns1)" by (cases "ns_alloc ns")
  note s = ns_alloc_spec [OF a]
  have wf1: "ns_wf ns1" "sole lu ns1" using assms(1,2) s sole_keeps [OF assms(2)] by (auto intro: ns_wf_cong simp: keeps_def)
  have t1: "told lu ns ns1" using wf1(2) s dir_cong [of ns1 ns] by (simp add: told_def)
  have "told lu ns1 (ns_run send (ns_events rs (replicate recv_buf_size 0)) ns1)" by (rule run_told [OF _ wf1]) (use assms(3,4) a in simp_all)
  then show ?thesis using told_trans [OF t1] t1 a by (auto simp: qrtr_ns_worker_def recv_loop_run)
qed

section \<open>Two name services\<close>

text \<open>The answer to a greeting when every packet can be sent.\<close>

lemma hello_answer:
  assumes "\<And>s p x. send s sq p \<noteq> Inl x"
  shows "\<exists>r. ctrl_cmd_hello send sq ns = (r, ns\<lparr>ns_sent := ns_sent ns @ [(sq, \<lparr>pkt_cmd = QRTR_TYPE_HELLO, pkt_w0 = 0, pkt_w1 = 0, pkt_w2 = 0, pkt_w3 = 0\<rparr>)] @
     concat (map (\<lambda>(i, node). if node_id node = sq_node sq then [] else announce_msgs sq (node_servers node)) (ns_nodes ns))\<rparr>)"
proof -
  define m where "m = \<lparr>pkt_cmd = QRTR_TYPE_HELLO, pkt_w0 = 0, pkt_w1 = 0, pkt_w2 = 0, pkt_w3 = 0\<rparr>"
  obtain k where "send (ns_sent ns) sq m = Inr k" using assms [of "ns_sent ns" m] by (cases "send (ns_sent ns) sq m") auto
  then have h: "say_hello send sq ns = (Inr k, ns\<lparr>ns_sent := ns_sent ns @ [(sq, m)]\<rparr>)" by (simp add: say_hello_def kernel_sendmsg_def m_def)
  show ?thesis using announce_nodes_all [of send sq "ns_nodes ns"] assms unfolding ctrl_cmd_hello_def h m_def [symmetric] by (simp add: announce_servers_def)
qed

definition foreign :: "u32 \<Rightarrow> qrtr_ns \<Rightarrow> qrtr_server list" where
  "foreign n ns = concat (map (\<lambda>(i, node). if node_id node = n then [] else map snd (node_servers node)) (ns_nodes ns))"

lemma announce_foreign:
  "concat (map (\<lambda>(i, node). if node_id node = sq_node sq then [] else announce_msgs sq (node_servers node)) xs) =
   map (\<lambda>srv. (sq, server_pkt QRTR_TYPE_NEW_SERVER srv)) (concat (map (\<lambda>(i, node). if node_id node = sq_node sq then [] else map snd (node_servers node)) xs))"
  by (induction xs) (auto simp: announce_msgs_def)

lemma foreign_dir:
  assumes "ns_wf ns"
  shows "srv \<in> set (foreign n ns) \<longleftrightarrow> dir ns (srv_node srv) (srv_port srv) = Some srv \<and> srv_node srv \<noteq> n"
proof -
  have id: "\<forall>(i, node) \<in> set (ns_nodes ns). node_id node = i \<and> (\<forall>(p, srv) \<in> set (node_servers node). srv_node srv = i)"
    using assms by (auto simp: ns_wf_def node_ok_def srv_ok_def)
  have 1: "srv \<in> set (foreign n ns) \<longleftrightarrow> (\<exists>nid node p. (nid, node) \<in> set (ns_nodes ns) \<and> (p, srv) \<in> set (node_servers node) \<and> node_id node \<noteq> n)"
    by (force simp: foreign_def split: if_splits)
  have 2: "node_id node = srv_node srv" if "(nid, node) \<in> set (ns_nodes ns)" "(p, srv) \<in> set (node_servers node)" for nid node p using id that by fastforce
  have "srv \<in> set (foreign n ns) \<longleftrightarrow> srv \<in> set (all_servers ns) \<and> srv_node srv \<noteq> n"
    unfolding 1 all_servers_mem using 2 by metis
  then show ?thesis using all_servers_dir [OF assms] by simp
qed

lemma foreign_ok:
  assumes "ns_wf ns" "srv \<in> set (foreign l ns)"
  shows "dir ns (srv_node srv) (srv_port srv) = Some srv \<and> srv_service srv \<noteq> 0 \<and> srv_port srv \<noteq> 0 \<and> srv_node srv \<noteq> l"
proof -
  have d: "dir ns (srv_node srv) (srv_port srv) = Some srv" "srv_node srv \<noteq> l" using foreign_dir [OF assms(1), of srv l] assms(2) by auto
  then show ?thesis using dir_ok [OF assms(1) d(1)] by (simp add: srv_ok_def)
qed

lemma foreign_mem:
  assumes "ns_wf ns"
  shows "(\<exists>srv \<in> set (foreign l ns). srv_node srv = n \<and> srv_port srv = p) \<longleftrightarrow> n \<noteq> l \<and> dir ns n p \<noteq> None"
proof
  assume "\<exists>srv \<in> set (foreign l ns). srv_node srv = n \<and> srv_port srv = p"
  then show "n \<noteq> l \<and> dir ns n p \<noteq> None" using foreign_ok [OF assms] by auto
next
  assume a: "n \<noteq> l \<and> dir ns n p \<noteq> None"
  then obtain srv where d: "dir ns n p = Some srv" by auto
  have k: "srv_node srv = n" "srv_port srv = p" using dir_ok [OF assms d] by (simp_all add: srv_ok_def)
  then show "\<exists>srv \<in> set (foreign l ns). srv_node srv = n \<and> srv_port srv = p" using foreign_dir [OF assms, of srv l] a d by (intro bexI [of _ srv]) auto
qed

text \<open>A name service that receives announcements of another node.\<close>

lemma run_announced:
  assumes "sq_node from \<noteq> local"
  shows "\<forall>srv \<in> set srvs. D (srv_node srv) (srv_port srv) = Some srv \<and> srv_service srv \<noteq> 0 \<and> srv_port srv \<noteq> 0 \<and> srv_node srv \<noteq> local \<Longrightarrow>
    ns_wf ns \<Longrightarrow> ns_allocs ns = [] \<Longrightarrow> ns_local_node ns = local \<Longrightarrow>
    dir (ns_run send (map (\<lambda>srv. (from, server_pkt QRTR_TYPE_NEW_SERVER srv)) srvs) ns) n p =
      (if \<exists>srv \<in> set srvs. srv_node srv = n \<and> srv_port srv = p then D n p else dir ns n p)"
proof (induction srvs arbitrary: ns)
  case (Cons srv srvs)
  let ?pkt = "server_pkt QRTR_TYPE_NEW_SERVER srv"
  obtain r ns1 where h: "handle_pkt send from ?pkt ns = (r, ns1)" by (cases "handle_pkt send from ?pkt ns")
  have c: "ctrl_cmd_new_server send from (srv_service srv) (srv_instance srv) (srv_node srv) (srv_port srv) ns = (r, ns1)"
    using h by (simp add: handle_pkt_def server_pkt_def qrtr_types)
  have pl: "srv_place from (srv_node srv) (srv_port srv) ns = (srv_node srv, srv_port srv)" using assms Cons.prems(4) by (simp add: srv_place_def)
  have "srv = \<lparr>srv_service = srv_service srv, srv_instance = srv_instance srv, srv_node = srv_node srv, srv_port = srv_port srv\<rparr>" by simp
  note sp = cmd_new_server_spec [OF Cons.prems(2) c pl this]
  then have d: "ns_wf ns1" "keeps ns ns1" "dir ns1 = dir_upd (dir ns) (srv_node srv) (srv_port srv) (Some srv)" using Cons.prems(1,3) by auto
  have "dir (ns_run send (map (\<lambda>srv. (from, server_pkt QRTR_TYPE_NEW_SERVER srv)) srvs) ns1) n p =
      (if \<exists>srv \<in> set srvs. srv_node srv = n \<and> srv_port srv = p then D n p else dir ns1 n p)"
    by (rule Cons.IH) (use Cons.prems d in \<open>auto simp: keeps_def\<close>)
  then show ?case using Cons.prems(1) h d(3) by (auto simp: dir_upd_def)
qed simp

text \<open>When memory is available, the servers of the own node are told.\<close>

definition own_msgs :: "qrtr_ctrl_pkt \<Rightarrow> qrtr_ns \<Rightarrow> packets" where
  "own_msgs pkt ns = map (\<lambda>(i, srv). (\<lparr>sq_node = srv_node srv, sq_port = srv_port srv\<rparr>, pkt)) (node_entries (ns_local_node ns) ns)"

lemma tell_own_exact:
  assumes "ns_wf ns" "ns_allocs ns = []" "nid = ns_local_node ns"
    and t: "(case node_get nid ns of (None, ns2) \<Rightarrow> (Inr 0, ns2) | (Some node, ns2) \<Rightarrow> (Inr 0, tell_servers send pkt (node_servers node) ns2)) = (r, ns')"
  shows "r = Inr 0 \<and> ns_sent ns' = ns_sent ns @ own_msgs pkt ns"
proof -
  obtain nd ns2 where g: "node_get nid ns = (nd, ns2)" by (cases "node_get nid ns")
  note s = node_get_spec [OF assms(1) g]
  obtain node where n: "nd = Some node" using s(5) assms(2) by auto
  have "node_servers node = node_entries nid ns" using s(6) [OF n] s(7) [of nid] by (simp add: node_entries_def)
  then show ?thesis using t g n s(4) assms(3) by (auto simp: tell_servers_eq own_msgs_def)
qed

definition bye_pkt :: "u32 \<Rightarrow> qrtr_ctrl_pkt" where
  "bye_pkt nid = \<lparr>pkt_cmd = QRTR_TYPE_BYE, pkt_w0 = nid, pkt_w1 = 0, pkt_w2 = 0, pkt_w3 = 0\<rparr>"

lemma bye_exact:
  assumes wf: "ns_wf ns" and al: "ns_allocs ns = []" and c: "ctrl_cmd_bye send sq ns = (r, ns')"
  shows "r = Inr 0 \<and> ns_sent ns' = ns_sent ns @ concat (map (\<lambda>x. del_msgs (ns_local_node ns) (ns_lookups ns) True (snd x)) (node_entries (sq_node sq) ns)) @
     (if sq_node sq = ns_local_node ns then [] else own_msgs (bye_pkt (sq_node sq)) ns)"
proof -
  obtain nd ns1 where g: "node_get (sq_node sq) ns = (nd, ns1)" by (cases "node_get (sq_node sq) ns")
  note s1 = node_get_spec [OF wf g]
  obtain node where n: "nd = Some node" using s1(5) al by auto
  define ns2 where "ns2 = bye_servers send (sq_node sq) 0 ns1"
  note b = bye_servers_spec [OF s1(1) ns2_def [symmetric]]
  have cc: "(case node_get (ns_local_node ns) ns2 of (None, ns3) \<Rightarrow> (Inr 0, ns3) | (Some node, ns3) \<Rightarrow> (Inr 0, tell_servers send (bye_pkt (sq_node sq)) (node_servers node) ns3)) = (r, ns')"
    unfolding bye_pkt_def ns2_def using c g n by (simp add: ctrl_cmd_bye_def)
  have k: "ns_allocs ns2 = []" "ns_local_node ns2 = ns_local_node ns" "ns_lookups ns1 = ns_lookups ns" "ns_local_node ns1 = ns_local_node ns"
    using b s1(3) al by (auto simp: keeps_def)
  have "ns_sent ns2 = ns_sent ns @ concat (map (\<lambda>x. del_msgs (ns_local_node ns) (ns_lookups ns) True (snd x)) (node_entries (sq_node sq) ns))"
    using b k s1(4,7) by simp
  moreover have "own_msgs pkt ns2 = (if sq_node sq = ns_local_node ns then [] else own_msgs pkt ns)" for pkt
    using b k(2) s1(7) by (auto simp: own_msgs_def filter_empty_conv)
  ultimately show ?thesis using tell_own_exact [OF conjunct1 [OF b] k(1) k(2) [symmetric] cc] by simp
qed

lemma get_service_dir:
  assumes "ns_wf ns"
  shows "find_port nid port ns = dir ns nid port"
proof -
  let ?xs = "node_entries nid ns"
  note we = ns_wf_entries [OF assms, of nid]
  have mo: "map_option snd (find (\<lambda>x. fst x = port) xs) = map_of xs port" for xs :: "qrtr_server xarray" by (induction xs) auto
  have "srv_node (snd x) = nid \<and> srv_port (snd x) = port \<longleftrightarrow> fst x = port" if "x \<in> set ?xs" for x using we that by (cases x) (auto simp: srv_ok_def)
  then have fc: "find (\<lambda>x. srv_node (snd x) = nid \<and> srv_port (snd x) = port) ?xs = find (\<lambda>x. fst x = port) ?xs" by (intro find_cong) simp_all
  show ?thesis using fc mo [of ?xs]
    by (cases "xa_load nid (ns_nodes ns)") (simp_all add: find_port_def node_entries_def dir_def xa_load_def)
qed

text \<open>A datagram that holds a whole packet is read as that packet.\<close>

lemma parse_datagram:
  assumes "20 \<le> length data" "length data \<le> recv_buf_size"
  shows "parse_pkt (buf_put buf 0 (take recv_buf_size data)) = parse_pkt data"
proof -
  have "pkt_word (buf_put buf 0 (take recv_buf_size data)) i = pkt_word data i" if "i < 5" for i
  proof -
    have "4 - (length data - 4 * i) = 0" using that assms(1) by simp
    then show ?thesis using assms(2) by (simp add: pkt_word_def buf_get_def buf_put_def)
  qed
  then show ?thesis by (simp add: parse_pkt_def)
qed

section \<open>Properties\<close>


definition demo_send :: sender where "demo_send = (\<lambda>_ _ _. Inr 20)"

definition demo_ns :: qrtr_ns where
  "demo_ns = snd (qrtr_ns_init demo_send (Inr ()) (Inr (12, 1)) True (Inr 0) [])"

lemma demo_reachable: "ns_reachable demo_send demo_ns"
  by (rule ns_reachable.init [where sock = "Inr ()" and name = "Inr (12, 1)" and task_ok = True and bind_ret = "Inr 0" and allocs = "[]"])
    (simp add: demo_ns_def qrtr_ns_init_def say_hello_def kernel_sendmsg_def demo_send_def)

text \<open>A server of the own node that registers service 15 from port 16385.\<close>

definition demo_datagram :: "byte list" where
  "demo_datagram = nat_to_le 4 4 @ nat_to_le 4 15 @ nat_to_le 4 1 @ nat_to_le 4 0 @ nat_to_le 4 0"

definition demo_server_pkt :: qrtr_ctrl_pkt where
  "demo_server_pkt = \<lparr>pkt_cmd = QRTR_TYPE_NEW_SERVER, pkt_w0 = 15, pkt_w1 = 1, pkt_w2 = 0, pkt_w3 = 0\<rparr>"

lemma demo_events: "ns_events [Inr (demo_datagram, sq)] buf = [(sq, demo_server_pkt)]"
proof -
  have "parse_pkt demo_datagram = demo_server_pkt" by code_simp
  moreover have "parse_pkt (buf_put buf 0 (take recv_buf_size demo_datagram)) = parse_pkt demo_datagram"
    by (rule parse_datagram) (simp_all add: demo_datagram_def recv_buf_size_def)
  ultimately show ?thesis by simp
qed




text \<open>
  C12: Two name services agree after a greeting.  When node B greets node A and all packets can be sent, A answers
  with packets to B only.  After B has handled them, B knows every server A knows, of A and of every other node except
  B itself; all other entries of B's directory are as before.
\<close>

theorem ns_hello_synchronises:
  assumes "ns_wf a" "ns_wf b" "ns_allocs b = []" "sq_node sqB = ns_local_node b" "sq_node sqA \<noteq> ns_local_node b"
    and "\<And>s p x. sendA s sqB p \<noteq> Inl x" "pkt_cmd hello = QRTR_TYPE_HELLO" "handle_pkt sendA sqB hello a = (r, a')"
  shows "\<exists>ms. ns_sent a' = ns_sent a @ ms \<and> fst ` set ms = {sqB} \<and>
     dir (ns_run sendB (map (\<lambda>m. (sqA, snd m)) ms) b) n p =
       (if n \<noteq> ns_local_node b \<and> dir a n p \<noteq> None then dir a n p else dir b n p)"
proof -
  define h where "h = \<lparr>pkt_cmd = QRTR_TYPE_HELLO, pkt_w0 = 0, pkt_w1 = 0, pkt_w2 = 0, pkt_w3 = 0\<rparr>"
  define srvs where "srvs = foreign (ns_local_node b) a"
  define ms where "ms = (sqB, h) # map (\<lambda>srv. (sqB, server_pkt QRTR_TYPE_NEW_SERVER srv)) srvs"
  have "ctrl_cmd_hello sendA sqB a = (r, a')" using assms(7,8) by (simp add: handle_pkt_def)
  then have sent: "ns_sent a' = ns_sent a @ ms"
    using hello_answer [of sendA sqB a] assms(4,6) unfolding announce_foreign by (auto simp: ms_def h_def srvs_def foreign_def)
  obtain r1 b1 where hb: "handle_pkt sendB sqA h b = (r1, b1)" by (cases "handle_pkt sendB sqA h b")
  then have "\<exists>l. b1 = b\<lparr>ns_sent := ns_sent b @ l\<rparr>" using cmd_hello_spec by (fastforce simp: handle_pkt_def h_def)
  then have b1: "ns_wf b1" "dir b1 = dir b" "ns_allocs b1 = []" "ns_local_node b1 = ns_local_node b" using assms(2,3) by (auto simp: ns_frame)
  have ok: "\<forall>srv \<in> set srvs. dir a (srv_node srv) (srv_port srv) = Some srv \<and> srv_service srv \<noteq> 0 \<and> srv_port srv \<noteq> 0 \<and> srv_node srv \<noteq> ns_local_node b"
    using foreign_ok [OF assms(1)] by (simp add: srvs_def)
  have mem: "(\<exists>srv \<in> set srvs. srv_node srv = n \<and> srv_port srv = p) \<longleftrightarrow> n \<noteq> ns_local_node b \<and> dir a n p \<noteq> None"
    unfolding srvs_def by (rule foreign_mem [OF assms(1)])
  have "ns_run sendB (map (\<lambda>m. (sqA, snd m)) ms) b = ns_run sendB (map (\<lambda>srv. (sqA, server_pkt QRTR_TYPE_NEW_SERVER srv)) srvs) b1"
    using hb by (simp add: ms_def comp_def)
  then have "dir (ns_run sendB (map (\<lambda>m. (sqA, snd m)) ms) b) n p = (if n \<noteq> ns_local_node b \<and> dir a n p \<noteq> None then dir a n p else dir b n p)"
    using run_announced [OF assms(5) ok b1(1,3,4), of sendB n p] mem b1(2) by simp
  then show ?thesis using sent by (intro exI [of _ ms]) (auto simp: ms_def)
qed

definition peer_ns :: qrtr_ns where
  "peer_ns = \<lparr>ns_nodes = [], ns_lookups = [], ns_local_node = 7, ns_sent = [], ns_allocs = []\<rparr>"

definition served_ns :: qrtr_ns where
  "served_ns = qrtr_ns_worker demo_send [Inr (demo_datagram, \<lparr>sq_node = 1, sq_port = 16385\<rparr>)] demo_ns"

lemma served_reachable: "ns_reachable demo_send served_ns"
  unfolding served_ns_def by (rule ns_reachable.work [OF demo_reachable])

lemma served_eq: "served_ns = snd (handle_pkt demo_send \<lparr>sq_node = 1, sq_port = 16385\<rparr> demo_server_pkt demo_ns)"
proof -
  have "ns_alloc demo_ns = (True, demo_ns)" by (simp add: ns_alloc_def demo_ns_def qrtr_ns_init_def say_hello_def kernel_sendmsg_def demo_send_def)
  then show ?thesis unfolding served_ns_def qrtr_ns_worker_def recv_loop_run demo_events by simp
qed

lemma served_dir: "dir served_ns 1 16385 = Some \<lparr>srv_service = 15, srv_instance = 1, srv_node = 1, srv_port = 16385\<rparr>"
  unfolding served_eq by code_simp

theorem ns_hello_synchronises_witness:
  "\<exists>r a' ms. handle_pkt demo_send \<lparr>sq_node = 7, sq_port = QRTR_PORT_CTRL\<rparr> \<lparr>pkt_cmd = QRTR_TYPE_HELLO, pkt_w0 = 0, pkt_w1 = 0, pkt_w2 = 0, pkt_w3 = 0\<rparr> served_ns = (r, a') \<and>
     ns_sent a' = ns_sent served_ns @ ms \<and>
     dir (ns_run demo_send (map (\<lambda>m. (\<lparr>sq_node = 1, sq_port = QRTR_PORT_CTRL\<rparr>, snd m)) ms) peer_ns) 1 16385 =
       Some \<lparr>srv_service = 15, srv_instance = 1, srv_node = 1, srv_port = 16385\<rparr>"
proof -
  define hello where "hello = \<lparr>pkt_cmd = QRTR_TYPE_HELLO, pkt_w0 = 0, pkt_w1 = 0, pkt_w2 = 0, pkt_w3 = 0\<rparr>"
  obtain r a' where h: "handle_pkt demo_send \<lparr>sq_node = 7, sq_port = QRTR_PORT_CTRL\<rparr> hello served_ns = (r, a')" by fastforce
  have b: "ns_wf peer_ns" "ns_allocs peer_ns = []" "ns_local_node peer_ns = 7" by (simp_all add: peer_ns_def ns_wf_def xa_wf_def)
  show ?thesis
    using ns_hello_synchronises [OF reachable_wf [OF served_reachable] b(1,2) _ _ _ _ h, of "\<lparr>sq_node = 1, sq_port = QRTR_PORT_CTRL\<rparr>" demo_send 1 16385] b(3) h served_dir
    by (auto simp: hello_def demo_send_def)
qed

text \<open>
  C22: A node that says goodbye loses all its servers and no other server is touched.  In the order of the ports, the removal
  of each is sent to every observer that asked for it, and broadcast if it was local; then every server of the own node is
  told about the departure.
\<close>

theorem ns_bye_removes_node:
  assumes "ns_wf ns" "ns_allocs ns = []" "pkt_cmd pkt = QRTR_TYPE_BYE" "handle_pkt send sq pkt ns = (r, ns')"
  shows "r = Inr 0 \<and> ns_wf ns' \<and> dir ns' n p = (if n = sq_node sq then None else dir ns n p) \<and> ns_lookups ns' = ns_lookups ns \<and>
     ns_sent ns' = ns_sent ns @ concat (map (\<lambda>x. del_msgs (ns_local_node ns) (ns_lookups ns) True (snd x)) (node_entries (sq_node sq) ns)) @
       (if sq_node sq = ns_local_node ns then [] else own_msgs (bye_pkt (sq_node sq)) ns)"
proof -
  have c: "ctrl_cmd_bye send sq ns = (r, ns')" using assms(3,4) by (simp add: handle_pkt_def qrtr_types)
  show ?thesis using bye_exact [OF assms(1,2) c] cmd_bye_spec(1-3) [OF assms(1) c] by (simp add: keeps_def)
qed

theorem ns_bye_removes_node_witness:
  "\<exists>r ns'. handle_pkt demo_send \<lparr>sq_node = 1, sq_port = 3\<rparr> (bye_pkt 1) served_ns = (r, ns') \<and> r = Inr 0 \<and>
     dir served_ns 1 16385 \<noteq> None \<and> dir ns' 1 16385 = None"
proof -
  obtain r ns' where h: "handle_pkt demo_send \<lparr>sq_node = 1, sq_port = 3\<rparr> (bye_pkt 1) served_ns = (r, ns')" by fastforce
  have "ns_allocs served_ns = []" unfolding served_eq by code_simp
  then show ?thesis using ns_bye_removes_node [OF reachable_wf [OF served_reachable] _ _ h, of 1 16385] h served_dir by (simp add: bye_pkt_def)
qed

text \<open>
  C39: The request to remove a server is not checked against its sender.  A packet from any other node removes the server of
  every node and port it names, also a local one, whose removal is then broadcast and reported to the observers.
\<close>

theorem ns_del_server_unchecked:
  assumes "ns_wf ns" "sq_node sq \<noteq> ns_local_node ns" "dir ns n p = Some srv"
    and "pkt_cmd pkt = QRTR_TYPE_DEL_SERVER" "pkt_w2 pkt = n" "pkt_w3 pkt = p" "handle_pkt send sq pkt ns = (r, ns')"
  shows "r = Inr 0 \<and> dir ns' = dir_upd (dir ns) n p None \<and> ns_sent ns' = ns_sent ns @ del_msgs (ns_local_node ns) (ns_lookups ns) True srv"
proof -
  have c: "ctrl_cmd_del_server send sq (pkt_w0 pkt) (pkt_w1 pkt) n p ns = (r, ns')" using assms(4-7) by (simp add: handle_pkt_def qrtr_types)
  have pl: "srv_place sq n p ns = (n, p)" using assms(2) by (simp add: srv_place_def)
  obtain nd ns1 where g: "node_get n ns = (nd, ns1)" by (cases "node_get n ns")
  then have "nd \<noteq> None" using node_get_none [of n ns ns1 p] assms(3) by auto
  then have "r = Inr 0" using c assms(2) g by (auto simp: ctrl_cmd_del_server_def)
  then show ?thesis using cmd_del_server_spec(3,4) [OF assms(1) c pl] assms(3) by (simp add: port_msgs_def)
qed

theorem ns_del_server_unchecked_witness:
  "\<exists>r ns'. handle_pkt demo_send \<lparr>sq_node = 7, sq_port = QRTR_PORT_CTRL\<rparr> \<lparr>pkt_cmd = QRTR_TYPE_DEL_SERVER, pkt_w0 = 0, pkt_w1 = 0, pkt_w2 = 1, pkt_w3 = 16385\<rparr> served_ns = (r, ns') \<and>
     ns_local_node served_ns = 1 \<and> dir ns' 1 16385 = None"
proof -
  define pkt where "pkt = \<lparr>pkt_cmd = QRTR_TYPE_DEL_SERVER, pkt_w0 = 0, pkt_w1 = 0, pkt_w2 = 1, pkt_w3 = 16385\<rparr>"
  obtain r ns' where h: "handle_pkt demo_send \<lparr>sq_node = 7, sq_port = QRTR_PORT_CTRL\<rparr> pkt served_ns = (r, ns')" by fastforce
  have l: "ns_local_node served_ns = 1" unfolding served_eq by code_simp
  show ?thesis using ns_del_server_unchecked [OF reachable_wf [OF served_reachable] _ served_dir _ _ _ h] l h by (auto simp: pkt_def dir_upd_def)
qed

text \<open>
  C40: A server that registers on the port of another one replaces it silently.  An observer that asked for the old server and
  not for the new one is sent nothing and keeps a server in its view that no longer exists.
\<close>

theorem ns_silent_replacement:
  assumes "ns_wf ns" "sole lu ns" "ns_allocs ns = []" "dir ns n p = Some old" "lookup_wants lu (srv_service old) (srv_instance old)"
    and "\<not> lookup_wants lu (pkt_w0 pkt) (pkt_w1 pkt)" "pkt_w0 pkt \<noteq> 0" "pkt_cmd pkt = QRTR_TYPE_NEW_SERVER"
    and "srv_place sq (pkt_w2 pkt) (pkt_w3 pkt) ns = (n, p)" "handle_pkt send sq pkt ns = (r, ns')"
  shows "\<exists>ms. ns_sent ns' = ns_sent ns @ ms \<and> heard (lookup_sq lu) ms (wanted lu (dir ns)) n p = Some old \<and> wanted lu (dir ns') n p = None"
proof -
  define srv where "srv = \<lparr>srv_service = pkt_w0 pkt, srv_instance = pkt_w1 pkt, srv_node = n, srv_port = p\<rparr>"
  define b where "b = (if n = ns_local_node ns then [(bcast_sq, server_pkt QRTR_TYPE_NEW_SERVER srv)] else [])"
  have c: "ctrl_cmd_new_server send sq (pkt_w0 pkt) (pkt_w1 pkt) (pkt_w2 pkt) (pkt_w3 pkt) ns = (r, ns')" using assms(8,10) by (simp add: handle_pkt_def qrtr_types)
  have "p \<noteq> 0" using dir_ok [OF assms(1,4)] by (simp add: srv_ok_def)
  have d: "dir ns' = dir_upd (dir ns) n p (Some srv)" "ns_sent ns' = ns_sent ns @ b \<or> ns_sent ns' = ns_sent ns @ b @ lookup_msgs QRTR_TYPE_NEW_SERVER (ns_lookups ns) srv"
    using cmd_new_server_spec [OF assms(1) c assms(9) srv_def] assms(3,7) \<open>p \<noteq> 0\<close> by (auto simp: b_def Let_def)
  have hb: "heard (lookup_sq lu) b v = v" for v using assms(2) by (intro heard_other) (auto simp: sole_def b_def)
  have hl: "heard (lookup_sq lu) (lookup_msgs QRTR_TYPE_NEW_SERVER (ns_lookups ns) srv) v = v" for v
    using heard_lookup_msgs [OF assms(2)] assms(6) by (simp add: srv_def)
  have "wanted lu (dir ns) n p = Some old" "wanted lu (dir ns') n p = None" using assms(4-6) d(1) by (simp_all add: wanted_def dir_upd_def srv_def)
  then show ?thesis using d(2) hb hl by (auto simp: heard_append)
qed

definition replacement_lookup :: qrtr_lookup where
  "replacement_lookup = \<lparr>lookup_service = 15, lookup_instance = 0, lookup_sq = \<lparr>sq_node = 1, sq_port = 16384\<rparr>\<rparr>"

theorem ns_silent_replacement_witness:
  "\<exists>r ns' ms. handle_pkt demo_send \<lparr>sq_node = 1, sq_port = 16385\<rparr> \<lparr>pkt_cmd = QRTR_TYPE_NEW_SERVER, pkt_w0 = 16, pkt_w1 = 1, pkt_w2 = 0, pkt_w3 = 0\<rparr>
       (served_ns\<lparr>ns_lookups := [replacement_lookup]\<rparr>) = (r, ns') \<and> ns_sent ns' = ns_sent served_ns @ ms \<and>
     heard \<lparr>sq_node = 1, sq_port = 16384\<rparr> ms (wanted replacement_lookup (dir served_ns)) 1 16385 \<noteq> wanted replacement_lookup (dir ns') 1 16385"
proof -
  define ns where "ns = served_ns\<lparr>ns_lookups := [replacement_lookup]\<rparr>"
  define pkt where "pkt = \<lparr>pkt_cmd = QRTR_TYPE_NEW_SERVER, pkt_w0 = 16, pkt_w1 = 1, pkt_w2 = 0, pkt_w3 = 0\<rparr>"
  obtain r ns' where h: "handle_pkt demo_send \<lparr>sq_node = 1, sq_port = 16385\<rparr> pkt ns = (r, ns')" by fastforce
  have l: "ns_local_node served_ns = 1" "ns_allocs served_ns = []" unfolding served_eq by code_simp+
  have wf: "ns_wf ns" using reachable_wf [OF served_reachable] l by (simp add: ns_def ns_wf_def replacement_lookup_def)
  have so: "sole replacement_lookup ns" by (simp add: sole_def ns_def replacement_lookup_def bcast_sq_def QRTR_NODE_BCAST_def)
  have di: "dir ns = dir served_ns" using dir_cong [of ns served_ns] by (simp add: ns_def)
  have pl: "srv_place \<lparr>sq_node = 1, sq_port = 16385\<rparr> (pkt_w2 pkt) (pkt_w3 pkt) ns = (1, 16385)" using l by (simp add: srv_place_def ns_def)
  have "\<exists>ms. ns_sent ns' = ns_sent ns @ ms \<and>
      heard (lookup_sq replacement_lookup) ms (wanted replacement_lookup (dir ns)) 1 16385 = Some \<lparr>srv_service = 15, srv_instance = 1, srv_node = 1, srv_port = 16385\<rparr> \<and>
      wanted replacement_lookup (dir ns') 1 16385 = None"
    by (rule ns_silent_replacement [OF wf so _ _ _ _ _ _ pl h]) (use l served_dir di in \<open>simp_all add: ns_def pkt_def lookup_wants_def replacement_lookup_def\<close>)
  then show ?thesis using h di by (auto simp: ns_def pkt_def replacement_lookup_def)
qed

end
