(* ===== verification/Spec2Isabelle.thy ===== *)
theory Spec2Isabelle
  imports Hab_Comm Glink_Edge Smem_Probe Ipc_Log Qmi_Encode Qrtr_Observe
begin

text \<open>
  The communication between processors and virtual machines in the vendor kernel: how bytes get from
  one side of a shared memory to the other, how messages are laid out in them, how services are found,
  and how all of it is logged.

  \<^bold>\<open>The parts and how they interact.\<close>  The shared-memory driver \<^verbatim>\<open>drivers/soc/qcom/smem.c\<close> gives out
  numbered items of a memory that all processors can write.  The G-Link transport
  \<^verbatim>\<open>drivers/rpmsg/qcom_glink_smem.c\<close> takes an index descriptor and two FIFOs from it and exchanges
  packets through them.  Above the transports the name service of the IPC router, \<^verbatim>\<open>net/qrtr/ns.c\<close>, keeps
  a directory of servers from control packets and tells observers about changes; clients encode their
  requests with \<^verbatim>\<open>drivers/soc/qcom/qmi_encdec.c\<close>.  Between virtual machines the HAB driver has its own
  shared ring, \<^verbatim>\<open>drivers/soc/qcom/hab/hab_pipe.c\<close>, with the channel \<^verbatim>\<open>qvm_comm.c\<close> on top.  All of them log
  into the paged rings of \<^verbatim>\<open>kernel/trace/ipc_logging.c\<close>.

  \<^bold>\<open>Theories.\<close>
  \<^item> \<open>Prelude\<close>: machine types, error codes, little-endian numbers, byte buffers.  \<open>Ring\<close>: circular buffers
    and the contract \<open>byte_fifo\<close> of a byte transport.  \<open>Memory\<close>: a byte-addressed 64-bit memory.
    \<open>Heap_Spec\<close>: the contracts \<open>item_heap\<close> (allocate once, find from then on) and its extension
    \<open>item_store\<close> (items lie apart; storing into one keeps the heap and all others).
  \<^item> \<open>Smem\<close>: \<^verbatim>\<open>qcom_smem_alloc\<close>, \<^verbatim>\<open>qcom_smem_get\<close> and what they call, for private partitions
    and the global heap.  Headers are fields read from the memory, so a corrupted partition is a
    possible state.  Both heaps interpret \<open>item_heap\<close>.  \<open>Smem_Store\<close>: private partitions interpret
    \<open>item_store\<close>.  \<open>Smem_Probe\<close>: partition table, header checks and \<^verbatim>\<open>qcom_smem_probe\<close>.
  \<^item> \<open>Glink_Smem\<close>: the FIFO operations \<^verbatim>\<open>glink_smem_*\<close> on the values behind the pipe's pointers; the FIFO
    interprets \<open>byte_fifo\<close>.  \<open>Glink_Edge\<close>: \<^verbatim>\<open>qcom_glink_smem_register\<close>, \<^verbatim>\<open>_unregister\<close>, \<^verbatim>\<open>_start\<close>,
    \<^verbatim>\<open>_intr\<close>, \<^verbatim>\<open>_early_ssr_notify\<close>, and the FIFO operations through the pointers into shared memory.
  \<^item> \<open>Hab_Pipe\<close>: \<^verbatim>\<open>hab_pipe_init\<close>, \<^verbatim>\<open>_write\<close>, \<^verbatim>\<open>_write_commit\<close>, \<^verbatim>\<open>_read\<close>; interprets
    \<open>byte_fifo\<close>.  \<open>Hab_Comm\<close>: the message header of \<^verbatim>\<open>hab.h\<close>, \<^verbatim>\<open>shmem_physical_channel_send\<close>,
    \<^verbatim>\<open>shmem_physical_channel_read\<close> and the receive dispatcher.
  \<^item> \<open>Ipc_Tsv\<close>: encode and decode contexts and the typed writers and readers of \<^verbatim>\<open>ipc_logging.c\<close>.
    \<open>Ipc_Log\<close>: pages, \<^verbatim>\<open>ipc_log_write\<close>, \<^verbatim>\<open>ipc_log_extract\<close>, \<^verbatim>\<open>ipc_log_string\<close>, creation and
    destruction of contexts.
  \<^item> \<open>Qmi_Encdec\<close>: \<^verbatim>\<open>qmi_encode_message\<close>, \<^verbatim>\<open>qmi_decode_message\<close>, \<^verbatim>\<open>qmi_calc_min_msg_len\<close> and the element
    routines below them, the decoder's safety and the round trip.  \<open>Qmi_Encode\<close>: the encoder's bounds.
  \<^item> \<open>Qrtr_Ns\<close>: nodes, servers and lookups, every \<^verbatim>\<open>ctrl_cmd_*\<close>, \<^verbatim>\<open>qrtr_ns_worker\<close> and \<^verbatim>\<open>qrtr_ns_init\<close>,
    over the contract \<open>ordered_array\<close> of the kernel's XArray.  \<open>Qrtr_Observe\<close>: what observers and other
    nodes learn from the packets sent.

  \<^bold>\<open>How the code is modelled.\<close>  A C structure is a record, a function one definition.  Values have the
  width of the source; where a count is a natural number the reduction modulo a power of two is written
  out.  An error return is \<open>Inl\<close> of an \<open>errno\<close>; an access outside a buffer or through a null pointer is
  the value \<open>None\<close>, so a theorem that a result is \<open>Some\<close> says that the code stays in bounds.
  Memory allocation, locks, clocks, the device tree and other drivers are arguments of the definitions
  that use them.  Concurrency of the other processor is the freedom of the memory: safety theorems hold
  for every value of the words the other side can write; the retry loop of \<^verbatim>\<open>hab_pipe_read\<close> and the
  extraction of a log take the contents seen by each repetition as an argument.

  \<^bold>\<open>What the lemmas show.\<close>
  \<^item> Functional refinement: allocation appends one entry to the partition's list of entries; the transports
    are queues of bytes; a log write appends its message and drops no more of the oldest than needed.
  \<^item> Safety against the other side: lookups and allocations in a corrupted partition, the FIFO with
    arbitrary indices, the pipe's writer with arbitrary counters, the decoder on an arbitrary message.
  \<^item> Composition: a batch of messages from sender to handler over the pipe; a packet over an edge that is
    registered in a shared-memory partition (below), with the data of all other clients kept.
  \<^item> Protocol: an observer can rebuild the part of the directory it asked for from the packets it was
    sent; a greeting transfers the servers of a node; the invariant of the directory holds in every
    reachable state.
  \<^item> Error paths: rejected sends change nothing, registration releases what it acquired on every path; and
    the cases where the code does less than it means to, each as a theorem about a concrete input or
    all inputs of a kind (unbounded read count, orphan header, bad header dispatched, zero-size and huge
    items, nested strings, unchecked removal and silent replacement of servers).

  \<^bold>\<open>Bounds and termination.\<close>  The receive dispatcher of \<^verbatim>\<open>qvm_comm.c\<close> loops as long as the peer
  keeps sending and therefore takes fuel, one unit per message; for a batch of messages one more than their
  number is enough, which the delivery theorem shows.  No other definition uses fuel: loops are structural recursion, recursion with a
  termination measure (list walks: the distance to the end; nested QMI structures: the description), or
  \<open>partial_function (option)\<close> where the source may not stop (dropping and extracting log messages), and
  then it is proved that they return.  The retry loop of \<^verbatim>\<open>hab_pipe_read\<close> ends after the source's 1000
  repetitions; the receive buffer of the name service has the source's 4096 bytes.  FIFO lengths are
  below \<open>2\<^sup>3\<^sup>1\<close> and addresses of a partition at least 4 GiB below the end of the address space where a
  theorem assumes it; the wrapping case of the latter is a theorem of its own.

  \<^bold>\<open>Not modelled.\<close>  The layers above the channels (HAB sockets and grants, the G-Link core, QRTR and QMI
  sockets) are objects under several locks that mostly call interfaces outside the tree; the name
  service, encoder and transports are modelled up to their boundary with them.  Interrupt and mailbox
  registers, PCI set-up of the pipe, debugfs and character devices are input and output.  Other transports
  (virtio, GHS, SPSS, RPM message memory) repeat the pattern over registers.  The remaining tree (WALT
  scheduler, mac80211, zram and zsmalloc, Gunyah, clocks, pins, buses, storage, USB, thermal, build
  scripts) are separate programs without a part in this stack: hooks into a core kernel or hypervisor that
  is not in the tree, tables of constants, and register-level drivers.  Memory barriers and caches are not
  represented: the order of stores is the order of the statements.
\<close>

section \<open>From shared memory to a delivered packet\<close>

text \<open>The remote processor starts and clears the index it owns, the tail of this side's transmit FIFO.\<close>

definition remote_reset :: "mem \<Rightarrow> qcom_glink_smem \<Rightarrow> mem" where
  "remote_reset m edge = wr32 m (ep_tail (gs_tx edge)) 0"

lemma remote_reset_ok:
  assumes ok: "edge_ok s part m edge" and z: "rd32 m (ep_head (gs_tx edge)) = 0"
  shows "edge_ok s part (remote_reset m edge) edge" "rd32 (remote_reset m edge) (ep_tail (gs_tx edge)) = 0"
    "rd32 (remote_reset m edge) (ep_head (gs_tx edge)) = 0"
    "items_kept {SMEM_GLINK_NATIVE_XPRT_DESCRIPTOR} part m (remote_reset m edge)"
proof -
  let ?d = "ep_tail (gs_tx edge)"
  have e: "ph_invar (m, part)" "ph_get (m, part) SMEM_GLINK_NATIVE_XPRT_DESCRIPTOR = Inr (?d, 32)" "ep_head (gs_tx edge) = ?d + 4"
    using ok by (auto simp: edge_ok_def)
  have b: "unat ?d + 32 < 2 ^ 64" using ph_item_bound(3) [OF e(1,2)] by simp
  then have u: "unat (?d + 4) = unat ?d + 4" by (intro unat_add_num) simp
  have k: "ph_invar (remote_reset m edge, part)" "ph_get (remote_reset m edge, part) j = ph_get (m, part) j"
    "items_kept {SMEM_GLINK_NATIVE_XPRT_DESCRIPTOR} part m (remote_reset m edge)" for j
    unfolding remote_reset_def using item_wr32 [OF e(1,2), of ?d] by auto
  show "edge_ok s part (remote_reset m edge) edge" using ok k(1,2) by (simp add: edge_ok_def split: option.splits)
  show "rd32 (remote_reset m edge) ?d = 0" using b by (simp add: remote_reset_def rd32_wr32_same)
  show "rd32 (remote_reset m edge) (ep_head (gs_tx edge)) = 0"
    using z b u by (simp add: remote_reset_def e(3) rd_wr_other apart_def)
  show "items_kept {SMEM_GLINK_NATIVE_XPRT_DESCRIPTOR} part m (remote_reset m edge)" by (rule k(3))
qed



end
